theory Spec2Isabelle
  imports Main "HOL-Library.AList" "HOL-Library.Sublist"
begin

section \<open>JavaScript containers\<close>

text \<open>
  A JavaScript \<open>Map\<close> iterates in insertion order: it is an association list with
  distinct keys. \<open>Map.get\<close> is \<^const>\<open>map_of\<close>, \<open>Map.set\<close> is
  \<^const>\<open>AList.update\<close> (an existing key keeps its position, a new key goes to the end)
  and \<open>Map.delete\<close> is \<^const>\<open>AList.delete\<close>. A \<open>Set\<close> is a list without
  duplicates, in insertion order.
\<close>

type_synonym ('k, 'v) js_map = "('k \<times> 'v) list"

type_synonym 'a js_set = "'a list"

definition set_add :: "'a js_set \<Rightarrow> 'a \<Rightarrow> 'a js_set" where
  "set_add s x = (if x \<in> set s then s else s @ [x])"

definition set_delete :: "'a js_set \<Rightarrow> 'a \<Rightarrow> 'a js_set" where
  "set_delete s x = removeAll x s"

text \<open>\<open>new Set(iterable)\<close>: the elements in order, later duplicates dropped.\<close>

definition new_Set :: "'a list \<Rightarrow> 'a js_set" where
  "new_Set xs = fold (\<lambda>x s. set_add s x) xs []"

text \<open>
  Reading an array at an index: JavaScript gives \<open>undefined\<close> (here \<open>None\<close>)
  outside the array.
\<close>

definition js_index :: "'a list \<Rightarrow> nat \<Rightarrow> 'a option" where
  "js_index xs i = (if i < length xs then Some (xs ! i) else None)"

section \<open>Numbers and strings\<close>

text \<open>
  \<open>Number.prototype.toString(radix)\<close> on an integer, and the template literal
  \<open>`${n}`\<close>, which is \<open>toString(10)\<close>. Table indices and addresses are integers
  far below the range where JavaScript switches to exponent notation.
\<close>

definition digit_char :: "nat \<Rightarrow> char" where
  "digit_char d = ''0123456789abcdefghijklmnopqrstuvwxyz'' ! d"

function digits_of :: "nat \<Rightarrow> nat \<Rightarrow> string" where
  "digits_of radix n =
     (if n < radix \<or> radix < 2 then [digit_char n]
      else digits_of radix (n div radix) @ [digit_char (n mod radix)])"
  by pat_completeness auto
termination
  by (relation "measure (\<lambda>(radix, n). n)") auto

declare digits_of.simps [simp del]

definition number_toString :: "nat \<Rightarrow> int \<Rightarrow> string" where
  "number_toString radix i =
     (if i < 0 then ''-'' @ digits_of radix (nat (- i)) else digits_of radix (nat i))"

text \<open>\<open>String.prototype.split\<close> with a separator of one character.\<close>

fun split_on :: "char \<Rightarrow> string \<Rightarrow> string list" where
  "split_on c [] = [[]]"
| "split_on c (x # xs) =
     (if x = c then [] # split_on c xs
      else (x # hd (split_on c xs)) # tl (split_on c xs))"

section \<open>The tables of a thread\<close>

text \<open>
  The tables are columnar: one array per attribute and a \<open>length\<close>. A nullable column
  holds \<open>None\<close> for \<open>null\<close>.
\<close>

record FrameTable =
  ft_address :: "int list"
  ft_func :: "nat list"
  ft_nativeSymbol :: "nat option list"
  ft_line :: "int option list"
  ft_length :: nat

record FuncTable =
  fn_name :: "nat list"
  fn_fileName :: "nat option list"
  fn_resource :: "int list"
  fn_isJS :: "bool list"
  fn_relevantForJS :: "bool list"
  fn_lineNumber :: "int option list"
  fn_columnNumber :: "int option list"
  fn_length :: nat

record NativeSymbolTable =
  ns_libIndex :: "nat list"
  ns_address :: "int list"
  ns_name :: "nat list"
  ns_length :: nat

text \<open>
  \<open>resourceTypes\<close> is imported from a module outside the sources at hand; the
  collector only compares a row's type with \<open>resourceTypes.library\<close>.
\<close>

datatype resourceType = library | otherResourceType nat

record ResourceTable =
  rt_type :: "resourceType list"
  rt_lib :: "int option list"
  rt_length :: nat

record Lib =
  debugName :: string
  breakpadId :: string

record Thread =
  libs :: "Lib list"
  frameTable :: FrameTable
  funcTable :: FuncTable
  nativeSymbols :: NativeSymbolTable
  resourceTable :: ResourceTable
  stringTable :: "string list"

record AddressResult =
  symbolAddress :: int
  ar_name :: string
  ar_file :: "string option"
  ar_line :: "int option"

text \<open>
  \<open>frameAddresses\<close> holds what \<open>frameTable.address[frameIndex]\<close> gave: \<open>None\<close>
  is the \<open>undefined\<close> that the collector pushes when the address column is shorter
  than \<open>frameTable.length\<close>.
\<close>

record ThreadLibSymbolicationInfo =
  resourceIndex :: nat
  libIndex :: nat
  allFuncsForThisLib :: "nat js_set"
  allNativeSymbolsForThisLib :: "nat js_set"
  allFramesForThisLib :: "nat list"
  frameAddresses :: "int option list"

type_synonym LibKey = string

type_synonym ThreadSymbolicationInfo = "(LibKey, ThreadLibSymbolicationInfo) js_map"

section \<open>getThreadSymbolicationInfo\<close>

datatype collector_error = Did_not_find_a_lib

definition mkLibKey :: "string \<Rightarrow> string \<Rightarrow> LibKey" where
  "mkLibKey dn bid = dn @ ''/'' @ bid"

text \<open>The three inner loops, each a scan of one table in index order.\<close>

definition collectFuncs :: "FuncTable \<Rightarrow> nat \<Rightarrow> nat js_set" where
  "collectFuncs funcs rix =
     filter (\<lambda>funcIndex. js_index (fn_resource funcs) funcIndex = Some (int rix))
       [0 ..< fn_length funcs]"

definition collectNativeSymbols :: "NativeSymbolTable \<Rightarrow> nat \<Rightarrow> nat js_set" where
  "collectNativeSymbols syms lix =
     filter (\<lambda>nativeSymbolIndex. js_index (ns_libIndex syms) nativeSymbolIndex = Some lix)
       [0 ..< ns_length syms]"

text \<open>
  \<open>funcTable.resource[funcIndex]\<close> is \<open>undefined\<close>, hence different from
  \<open>resourceIndex\<close>, when \<open>frameTable.func[frameIndex]\<close> is.
\<close>

definition frameBelongs :: "FrameTable \<Rightarrow> FuncTable \<Rightarrow> nat \<Rightarrow> nat \<Rightarrow> bool" where
  "frameBelongs frames funcs rix frameIndex =
     (case js_index (ft_func frames) frameIndex of
        None \<Rightarrow> False
      | Some funcIndex \<Rightarrow> js_index (fn_resource funcs) funcIndex = Some (int rix))"

definition collectFrames :: "FrameTable \<Rightarrow> FuncTable \<Rightarrow> nat \<Rightarrow> nat list" where
  "collectFrames frames funcs rix =
     filter (frameBelongs frames funcs rix) [0 ..< ft_length frames]"

definition collectInfo :: "Thread \<Rightarrow> nat \<Rightarrow> nat \<Rightarrow> ThreadLibSymbolicationInfo" where
  "collectInfo thread rix lix =
     (let frames = collectFrames (frameTable thread) (funcTable thread) rix in
      \<lparr> resourceIndex = rix,
        libIndex = lix,
        allFuncsForThisLib = collectFuncs (funcTable thread) rix,
        allNativeSymbolsForThisLib = collectNativeSymbols (nativeSymbols thread) lix,
        allFramesForThisLib = frames,
        frameAddresses = map (js_index (ft_address (frameTable thread))) frames \<rparr>)"

text \<open>
  The loop over the resource rows. A row is skipped when its type is not \<open>library\<close>
  and when its lib index is \<open>undefined\<close>, \<open>null\<close> or \<open>-1\<close>;
  \<open>libs[libIndex]\<close> is \<open>undefined\<close> outside the array, and then the loop throws.
\<close>

fun getThreadSymbolicationInfo_loop ::
  "Thread \<Rightarrow> nat list \<Rightarrow> ThreadSymbolicationInfo \<Rightarrow> collector_error + ThreadSymbolicationInfo" where
  "getThreadSymbolicationInfo_loop thread [] m = Inr m"
| "getThreadSymbolicationInfo_loop thread (rix # rest) m =
     (if js_index (rt_type (resourceTable thread)) rix \<noteq> Some library
      then getThreadSymbolicationInfo_loop thread rest m
      else case js_index (rt_lib (resourceTable thread)) rix of
        None \<Rightarrow> getThreadSymbolicationInfo_loop thread rest m
      | Some None \<Rightarrow> getThreadSymbolicationInfo_loop thread rest m
      | Some (Some li) \<Rightarrow>
          if li = - 1 then getThreadSymbolicationInfo_loop thread rest m
          else if li < 0 \<or> length (libs thread) \<le> nat li then Inl Did_not_find_a_lib
          else
            let l = libs thread ! nat li;
                libKey = mkLibKey (debugName l) (breakpadId l)
            in getThreadSymbolicationInfo_loop thread rest
                 (AList.update libKey (collectInfo thread rix (nat li)) m))"

definition getThreadSymbolicationInfo :: "Thread \<Rightarrow> collector_error + ThreadSymbolicationInfo" where
  "getThreadSymbolicationInfo thread =
     getThreadSymbolicationInfo_loop thread [0 ..< rt_length (resourceTable thread)] []"

section \<open>buildLibSymbolicationRequestsForAllThreads\<close>

text \<open>
  The destructuring \<open>[debugName, breakpadId] = libKey.split('/')\<close> takes the first two
  pieces; the second is \<open>undefined\<close> (\<open>None\<close>) when the key has no slash.
\<close>

record RequestLib =
  rl_debugName :: string
  rl_breakpadId :: "string option"

record LibSymbolicationRequest =
  lib :: RequestLib
  addresses :: "int option js_set"

definition splitLibKey :: "LibKey \<Rightarrow> RequestLib" where
  "splitLibKey libKey =
     (let parts = split_on CHR ''/'' libKey
      in \<lparr> rl_debugName = hd parts, rl_breakpadId = js_index parts 1 \<rparr>)"

definition addAddresses ::
  "(LibKey, int option js_set) js_map \<Rightarrow> LibKey \<times> ThreadLibSymbolicationInfo \<Rightarrow>
   (LibKey, int option js_set) js_map" where
  "addAddresses libKeyToAddressesMap entry =
     (let libKey = fst entry;
          addressSet = (case map_of libKeyToAddressesMap libKey of None \<Rightarrow> [] | Some s \<Rightarrow> s)
      in AList.update libKey
           (fold (\<lambda>frameAddress s. set_add s frameAddress) (frameAddresses (snd entry)) addressSet)
           libKeyToAddressesMap)"

definition libKeyToAddressesMap ::
  "ThreadSymbolicationInfo list \<Rightarrow> (LibKey, int option js_set) js_map" where
  "libKeyToAddressesMap symbolicationInfo =
     fold (\<lambda>threadSymbolicationInfo m. fold (\<lambda>entry m'. addAddresses m' entry) threadSymbolicationInfo m)
       symbolicationInfo []"

definition buildLibSymbolicationRequestsForAllThreads ::
  "ThreadSymbolicationInfo list \<Rightarrow> LibSymbolicationRequest list" where
  "buildLibSymbolicationRequestsForAllThreads symbolicationInfo =
     map (\<lambda>(libKey, addrs). \<lparr> lib = splitLibKey libKey, addresses = addrs \<rparr>)
       (libKeyToAddressesMap symbolicationInfo)"

section \<open>Errors and array accesses of the substitution step\<close>

text \<open>
  \<open>applySymbolicationStep\<close> throws in three places: \<open>stringTable.getString\<close> on an
  index the table does not have, and the two checks whose message starts with
  \<open>Impossible\<close>. A read outside an array, or a write that would leave a hole in one,
  makes JavaScript continue with \<open>undefined\<close>, a value that none of the Flow types of
  the tables admits; the embedding stops there with \<open>Untyped_undefined\<close>.
\<close>

datatype step_error =
    Untyped_undefined
  | String_index_not_found
  | Impossible_no_canonical_symbol
  | Impossible_null_nativeSymbol

definition sbind :: "'e + 'a \<Rightarrow> ('a \<Rightarrow> 'e + 'b) \<Rightarrow> 'e + 'b" where
  "sbind m f = (case m of Inl e \<Rightarrow> Inl e | Inr x \<Rightarrow> f x)"

text \<open>A \<open>for ... of\<close> loop whose body may throw.\<close>

fun for_of :: "('s \<Rightarrow> 'a \<Rightarrow> 'e + 's) \<Rightarrow> 'a list \<Rightarrow> 's \<Rightarrow> 'e + 's" where
  "for_of body [] s = Inr s"
| "for_of body (x # xs) s = sbind (body s x) (for_of body xs)"

definition read_at :: "'a list \<Rightarrow> nat \<Rightarrow> step_error + 'a" where
  "read_at xs i = (case js_index xs i of None \<Rightarrow> Inl Untyped_undefined | Some x \<Rightarrow> Inr x)"

text \<open>\<open>xs[i] = v\<close>: inside the array it overwrites, at its end it extends the array.\<close>

definition store_at :: "'a list \<Rightarrow> nat \<Rightarrow> 'a \<Rightarrow> step_error + 'a list" where
  "store_at xs i v =
     (if i < length xs then Inr (xs[i := v])
      else if i = length xs then Inr (xs @ [v])
      else Inl Untyped_undefined)"

section \<open>The string table\<close>

text \<open>
  Modelled from the spec: the class of \<open>thread.stringTable\<close> (\<open>UniqueStringArray\<close>)
  is not among the sources. The spec says of it that strings are append-only and never
  invalidated; the callers use \<open>getString(index)\<close> for the string at an index and
  \<open>indexForString(s)\<close> for the index of a string, which the table gains when it does
  not hold it yet. The table object is shared, so \<open>indexForString\<close> returns the table
  as it is afterwards.
\<close>

fun index_of :: "'a \<Rightarrow> 'a list \<Rightarrow> nat" where
  "index_of x [] = 0"
| "index_of x (y # ys) = (if x = y then 0 else Suc (index_of x ys))"

definition getString :: "string list \<Rightarrow> nat \<Rightarrow> step_error + string" where
  "getString strings i = (if i < length strings then Inr (strings ! i) else Inl String_index_not_found)"

definition indexForString :: "string list \<Rightarrow> string \<Rightarrow> nat \<times> string list" where
  "indexForString strings s =
     (if s \<in> set strings then (index_of s strings, strings) else (length strings, strings @ [s]))"

section \<open>applySymbolicationStep\<close>

subsection \<open>Step A: the symbol address of every frame\<close>

record stepA_state =
  availableNativeSymbols :: "nat js_set"
  frameToSymbolAddressMap :: "(nat, int) js_map"
  symbolAddressToNameMap :: "(int, string) js_map"
  symbolAddressToCanonicalSymbolIndexMap :: "(int, nat) js_map"

text \<open>
  The address result of a frame: the one of \<open>resultsForLib\<close>, or else the address and
  name of the frame's old native symbol, or else the frame's address and its hex name.
  The old symbol of the frame is returned with it.
\<close>

definition stepA_resolve ::
  "Thread \<Rightarrow> (int \<rightharpoonup> AddressResult) \<Rightarrow> nat \<Rightarrow> step_error + (nat option \<times> AddressResult)" where
  "stepA_resolve thread resultsForLib frameIndex =
     sbind (read_at (ft_nativeSymbol (frameTable thread)) frameIndex) (\<lambda>oldFrameSymbol.
     sbind (read_at (ft_address (frameTable thread)) frameIndex) (\<lambda>address.
       case resultsForLib address of
         Some addressResult \<Rightarrow> Inr (oldFrameSymbol, addressResult)
       | None \<Rightarrow>
           (case oldFrameSymbol of
              Some oldSym \<Rightarrow>
                sbind (read_at (ns_name (nativeSymbols thread)) oldSym) (\<lambda>nameIndex.
                sbind (getString (stringTable thread) nameIndex) (\<lambda>oldSymbolName.
                sbind (read_at (ns_address (nativeSymbols thread)) oldSym) (\<lambda>oldAddress.
                  Inr (oldFrameSymbol,
                    \<lparr> symbolAddress = oldAddress, ar_name = oldSymbolName,
                      ar_file = None, ar_line = None \<rparr>))))
            | None \<Rightarrow>
                Inr (oldFrameSymbol,
                  \<lparr> symbolAddress = address, ar_name = ''0x'' @ number_toString 16 address,
                    ar_file = None, ar_line = None \<rparr>))))"

definition stepA_frame ::
  "Thread \<Rightarrow> (int \<rightharpoonup> AddressResult) \<Rightarrow> stepA_state \<Rightarrow> nat \<Rightarrow> step_error + stepA_state" where
  "stepA_frame thread resultsForLib st frameIndex =
     sbind (stepA_resolve thread resultsForLib frameIndex) (\<lambda>(oldFrameSymbol, addressResult).
       let sa = symbolAddress addressResult;
           st1 = st \<lparr> frameToSymbolAddressMap := AList.update frameIndex sa (frameToSymbolAddressMap st),
                      symbolAddressToNameMap :=
                        AList.update sa (ar_name addressResult) (symbolAddressToNameMap st) \<rparr>
       in Inr (case oldFrameSymbol of
            None \<Rightarrow> st1
          | Some oldSym \<Rightarrow>
              if map_of (symbolAddressToCanonicalSymbolIndexMap st1) sa \<noteq> None then st1
              else if oldSym \<in> set (availableNativeSymbols st1)
              then st1 \<lparr> availableNativeSymbols := set_delete (availableNativeSymbols st1) oldSym,
                         symbolAddressToCanonicalSymbolIndexMap :=
                           AList.update sa oldSym (symbolAddressToCanonicalSymbolIndexMap st1) \<rparr>
              else st1))"

subsection \<open>Step B: a canonical native symbol for every symbol address\<close>

record stepB_state =
  b_nativeSymbols :: NativeSymbolTable
  b_stringTable :: "string list"
  b_canonical :: "(int, nat) js_map"
  b_availableNativeSymbolIterator :: "nat list"

definition stepB_entry :: "nat \<Rightarrow> stepB_state \<Rightarrow> int \<times> string \<Rightarrow> step_error + stepB_state" where
  "stepB_entry lix st entry =
     (let sa = fst entry;
          (symbolStringIndex, strings) = indexForString (b_stringTable st) (snd entry);
          st0 = st \<lparr> b_stringTable := strings \<rparr>
      in sbind
           (case map_of (b_canonical st0) sa of
              Some symbolIndex \<Rightarrow> Inr (symbolIndex, st0)
            | None \<Rightarrow>
                (case b_availableNativeSymbolIterator st0 of
                   symbolIndex # rest \<Rightarrow>
                     Inr (symbolIndex,
                       st0 \<lparr> b_availableNativeSymbolIterator := rest,
                             b_canonical := AList.update sa symbolIndex (b_canonical st0) \<rparr>)
                 | [] \<Rightarrow>
                     (let syms = b_nativeSymbols st0; symbolIndex = ns_length syms
                      in sbind (store_at (ns_libIndex syms) symbolIndex lix) (\<lambda>col.
                           Inr (symbolIndex,
                             st0 \<lparr> b_nativeSymbols := syms \<lparr> ns_libIndex := col, ns_length := ns_length syms + 1 \<rparr>,
                                   b_canonical := AList.update sa symbolIndex (b_canonical st0) \<rparr>)))))
           (\<lambda>(symbolIndex, st1).
              sbind (store_at (ns_address (b_nativeSymbols st1)) symbolIndex sa) (\<lambda>addressColumn.
              sbind (store_at (ns_name (b_nativeSymbols st1)) symbolIndex symbolStringIndex) (\<lambda>nameColumn.
                Inr (st1 \<lparr> b_nativeSymbols :=
                       (b_nativeSymbols st1) \<lparr> ns_address := addressColumn, ns_name := nameColumn \<rparr> \<rparr>)))))"

text \<open>The new \<open>nativeSymbol\<close> column of the frame table.\<close>

definition assignNativeSymbol ::
  "(int, nat) js_map \<Rightarrow> nat option list \<Rightarrow> nat \<times> int \<Rightarrow> step_error + nat option list" where
  "assignNativeSymbol canonical column entry =
     (case map_of canonical (snd entry) of
        None \<Rightarrow> Inl Impossible_no_canonical_symbol
      | Some symbolIndex \<Rightarrow> store_at column (fst entry) (Some symbolIndex))"

subsection \<open>Step C: a func for every pair of name and file\<close>

record stepC_state =
  c_funcTable :: FuncTable
  c_stringTable :: "string list"
  c_availableFuncIter :: "nat list"
  c_funcKeyToFuncMap :: "(string, nat) js_map"
  c_oldFuncToNewFuncEntries :: "(nat \<times> nat) list"
  c_newFrameTableFuncColumn :: "nat list"
  c_newFrameTableLineColumn :: "int option list"

text \<open>
  The address result of a frame in the second loop over the frames, with the frame's old
  func. Without a result for the address, the name is the one of the frame's new native
  symbol and the file is read from the func table under construction, at the old func.
\<close>

definition stepC_resolve ::
  "Thread \<Rightarrow> (int \<rightharpoonup> AddressResult) \<Rightarrow> NativeSymbolTable \<Rightarrow> nat option list \<Rightarrow>
   stepC_state \<Rightarrow> nat \<Rightarrow> step_error + (nat \<times> AddressResult)" where
  "stepC_resolve thread resultsForLib syms newFrameTableNativeSymbolsColumn st frameIndex =
     sbind (read_at (ft_func (frameTable thread)) frameIndex) (\<lambda>oldFunc.
     sbind (read_at newFrameTableNativeSymbolsColumn frameIndex) (\<lambda>nativeSymbolIndex'.
       case nativeSymbolIndex' of
         None \<Rightarrow> Inl Impossible_null_nativeSymbol
       | Some nativeSymbolIndex \<Rightarrow>
           sbind (read_at (ft_address (frameTable thread)) frameIndex) (\<lambda>address.
             case resultsForLib address of
               Some addressResult \<Rightarrow> Inr (oldFunc, addressResult)
             | None \<Rightarrow>
                 sbind (read_at (ns_name syms) nativeSymbolIndex) (\<lambda>symbolName.
                 sbind (read_at (fn_fileName (c_funcTable st)) oldFunc) (\<lambda>fileNameIndex.
                 sbind (read_at (ns_address syms) nativeSymbolIndex) (\<lambda>symAddress.
                 sbind (getString (c_stringTable st) symbolName) (\<lambda>nameString.
                 sbind (case fileNameIndex of
                          None \<Rightarrow> Inr None
                        | Some i \<Rightarrow> sbind (getString (c_stringTable st) i) (\<lambda>f. Inr (Some f)))
                   (\<lambda>fileString.
                 sbind (read_at (ft_line (frameTable thread)) frameIndex) (\<lambda>oldLine.
                   Inr (oldFunc,
                     \<lparr> symbolAddress = symAddress, ar_name = nameString,
                       ar_file = fileString, ar_line = oldLine \<rparr>))))))))))"

text \<open>The key \<open>`${functionStringIndex}:${fileNameStringIndex ?? ''}`\<close>.\<close>

definition funcKey :: "nat \<Rightarrow> nat option \<Rightarrow> string" where
  "funcKey functionStringIndex fileNameStringIndex =
     number_toString 10 (int functionStringIndex) @ '':'' @
       (case fileNameStringIndex of None \<Rightarrow> [] | Some i \<Rightarrow> number_toString 10 (int i))"

text \<open>A func row for a key that has none: the next available one, or a new row.\<close>

definition takeFunc :: "nat \<Rightarrow> stepC_state \<Rightarrow> step_error + (nat \<times> stepC_state)" where
  "takeFunc rix st =
     (case c_availableFuncIter st of
        funcIndex # rest \<Rightarrow> Inr (funcIndex, st \<lparr> c_availableFuncIter := rest \<rparr>)
      | [] \<Rightarrow>
          (let funcs = c_funcTable st; funcIndex = fn_length funcs
           in sbind (store_at (fn_isJS funcs) funcIndex False) (\<lambda>isJSColumn.
              sbind (store_at (fn_relevantForJS funcs) funcIndex False) (\<lambda>relevantColumn.
              sbind (store_at (fn_resource funcs) funcIndex (int rix)) (\<lambda>resourceColumn.
              sbind (store_at (fn_lineNumber funcs) funcIndex None) (\<lambda>lineNumberColumn.
              sbind (store_at (fn_columnNumber funcs) funcIndex None) (\<lambda>columnNumberColumn.
                Inr (funcIndex,
                  st \<lparr> c_funcTable := funcs
                         \<lparr> fn_isJS := isJSColumn, fn_relevantForJS := relevantColumn,
                           fn_resource := resourceColumn, fn_lineNumber := lineNumberColumn,
                           fn_columnNumber := columnNumberColumn,
                           fn_length := fn_length funcs + 1 \<rparr> \<rparr>))))))))"

definition funcForKey ::
  "nat \<Rightarrow> stepC_state \<Rightarrow> nat \<Rightarrow> nat option \<Rightarrow> step_error + (nat \<times> stepC_state)" where
  "funcForKey rix st functionStringIndex fileNameStringIndex =
     (let key = funcKey functionStringIndex fileNameStringIndex
      in case map_of (c_funcKeyToFuncMap st) key of
           Some funcIndex \<Rightarrow> Inr (funcIndex, st)
         | None \<Rightarrow>
             sbind (takeFunc rix st) (\<lambda>(funcIndex, st1).
             sbind (store_at (fn_name (c_funcTable st1)) funcIndex functionStringIndex) (\<lambda>nameColumn.
             sbind (store_at (fn_fileName (c_funcTable st1)) funcIndex fileNameStringIndex) (\<lambda>fileNameColumn.
               Inr (funcIndex,
                 st1 \<lparr> c_funcTable := (c_funcTable st1) \<lparr> fn_name := nameColumn, fn_fileName := fileNameColumn \<rparr>,
                       c_funcKeyToFuncMap := AList.update key funcIndex (c_funcKeyToFuncMap st1) \<rparr>)))))"

text \<open>The string indices of the name and of the file of an address result.\<close>

definition internNames :: "string list \<Rightarrow> AddressResult \<Rightarrow> nat \<times> nat option \<times> string list" where
  "internNames strings addressResult =
     (let (functionStringIndex, strings1) = indexForString strings (ar_name addressResult)
      in case ar_file addressResult of
           None \<Rightarrow> (functionStringIndex, None, strings1)
         | Some f \<Rightarrow>
             (let (fileNameStringIndex, strings2) = indexForString strings1 f
              in (functionStringIndex, Some fileNameStringIndex, strings2)))"

definition stepC_frame ::
  "Thread \<Rightarrow> (int \<rightharpoonup> AddressResult) \<Rightarrow> nat \<Rightarrow> NativeSymbolTable \<Rightarrow> nat option list \<Rightarrow>
   stepC_state \<Rightarrow> nat \<Rightarrow> step_error + stepC_state" where
  "stepC_frame thread resultsForLib rix syms newFrameTableNativeSymbolsColumn st frameIndex =
     sbind (stepC_resolve thread resultsForLib syms newFrameTableNativeSymbolsColumn st frameIndex)
       (\<lambda>(oldFunc, addressResult).
     case internNames (c_stringTable st) addressResult of
       (functionStringIndex, fileNameStringIndex, strings) \<Rightarrow>
     sbind (funcForKey rix (st \<lparr> c_stringTable := strings \<rparr>) functionStringIndex fileNameStringIndex)
       (\<lambda>(funcIndex, st1).
     sbind (store_at (c_newFrameTableFuncColumn st1) frameIndex funcIndex) (\<lambda>funcColumn.
     sbind (store_at (c_newFrameTableLineColumn st1) frameIndex (ar_line addressResult)) (\<lambda>lineColumn.
       Inr (st1 \<lparr> c_newFrameTableFuncColumn := funcColumn,
                  c_newFrameTableLineColumn := lineColumn,
                  c_oldFuncToNewFuncEntries := c_oldFuncToNewFuncEntries st1 @ [(oldFunc, funcIndex)] \<rparr>)))))"

section \<open>makeConsensusMap\<close>

text \<open>
  The loop of \<open>makeConsensusMap\<close> over the entry pairs, with its two local variables
  \<open>consensusMap\<close> and \<open>divergentKeys\<close>.
\<close>

fun makeConsensusMap_loop ::
  "('k \<times> 'v) list \<Rightarrow> ('k, 'v) js_map \<Rightarrow> 'k js_set \<Rightarrow> ('k, 'v) js_map" where
  "makeConsensusMap_loop [] consensusMap divergentKeys = consensusMap"
| "makeConsensusMap_loop ((key, val) # rest) consensusMap divergentKeys =
     (if key \<in> set divergentKeys then makeConsensusMap_loop rest consensusMap divergentKeys
      else case map_of consensusMap key of
        None \<Rightarrow> makeConsensusMap_loop rest (AList.update key val consensusMap) divergentKeys
      | Some previousValue \<Rightarrow>
          if previousValue \<noteq> val
          then makeConsensusMap_loop rest (AList.delete key consensusMap) (set_add divergentKeys key)
          else makeConsensusMap_loop rest consensusMap divergentKeys)"

definition makeConsensusMap :: "('k \<times> 'v) list \<Rightarrow> ('k, 'v) js_map" where
  "makeConsensusMap iterableOfEntryPairs = makeConsensusMap_loop iterableOfEntryPairs [] []"

section \<open>The substitution step as a whole\<close>

text \<open>
  \<open>shallowCloneNativeSymbolTable\<close> and \<open>shallowCloneFuncTable\<close> (from a module
  outside the sources at hand) and \<open>Array.prototype.slice\<close> give copies; as values the
  copies are the tables and columns themselves. The step returns the new thread and the
  \<open>oldFuncToNewFuncMap\<close> of the caller as the step leaves it.
\<close>

definition stepA_init :: "ThreadLibSymbolicationInfo \<Rightarrow> stepA_state" where
  "stepA_init info =
     \<lparr> availableNativeSymbols = new_Set (allNativeSymbolsForThisLib info),
       frameToSymbolAddressMap = [],
       symbolAddressToNameMap = [],
       symbolAddressToCanonicalSymbolIndexMap = [] \<rparr>"

definition stepA ::
  "Thread \<Rightarrow> ThreadLibSymbolicationInfo \<Rightarrow> (int \<rightharpoonup> AddressResult) \<Rightarrow> step_error + stepA_state" where
  "stepA thread info resultsForLib =
     for_of (stepA_frame thread resultsForLib) (allFramesForThisLib info) (stepA_init info)"

definition stepB :: "Thread \<Rightarrow> ThreadLibSymbolicationInfo \<Rightarrow> stepA_state \<Rightarrow> step_error + stepB_state" where
  "stepB thread info stA =
     for_of (stepB_entry (libIndex info)) (symbolAddressToNameMap stA)
       \<lparr> b_nativeSymbols = nativeSymbols thread,
         b_stringTable = stringTable thread,
         b_canonical = symbolAddressToCanonicalSymbolIndexMap stA,
         b_availableNativeSymbolIterator = availableNativeSymbols stA \<rparr>"

definition stepC_init :: "Thread \<Rightarrow> ThreadLibSymbolicationInfo \<Rightarrow> string list \<Rightarrow> stepC_state" where
  "stepC_init thread info strings =
     \<lparr> c_funcTable = funcTable thread,
       c_stringTable = strings,
       c_availableFuncIter = new_Set (allFuncsForThisLib info),
       c_funcKeyToFuncMap = [],
       c_oldFuncToNewFuncEntries = [],
       c_newFrameTableFuncColumn = ft_func (frameTable thread),
       c_newFrameTableLineColumn = ft_line (frameTable thread) \<rparr>"

definition stepC ::
  "Thread \<Rightarrow> ThreadLibSymbolicationInfo \<Rightarrow> (int \<rightharpoonup> AddressResult) \<Rightarrow> stepB_state \<Rightarrow>
   nat option list \<Rightarrow> nat list \<Rightarrow> step_error + stepC_state" where
  "stepC thread info resultsForLib stB column frames =
     for_of (stepC_frame thread resultsForLib (resourceIndex info) (b_nativeSymbols stB) column)
       frames (stepC_init thread info (b_stringTable stB))"

definition mergeInto :: "('k, 'v) js_map \<Rightarrow> ('k, 'v) js_map \<Rightarrow> ('k, 'v) js_map" where
  "mergeInto forThisLib oldFuncToNewFuncMap =
     fold (\<lambda>(oldFunc, newFunc) m. AList.update oldFunc newFunc m) forThisLib oldFuncToNewFuncMap"

definition applySymbolicationStep ::
  "Thread \<Rightarrow> ThreadLibSymbolicationInfo \<Rightarrow> (int \<rightharpoonup> AddressResult) \<Rightarrow> (nat, nat) js_map \<Rightarrow>
   step_error + (Thread \<times> (nat, nat) js_map)" where
  "applySymbolicationStep thread info resultsForLib oldFuncToNewFuncMap =
     sbind (stepA thread info resultsForLib) (\<lambda>stA.
     sbind (stepB thread info stA) (\<lambda>stB.
     sbind (for_of (assignNativeSymbol (b_canonical stB)) (frameToSymbolAddressMap stA)
              (ft_nativeSymbol (frameTable thread))) (\<lambda>newFrameTableNativeSymbolsColumn.
     sbind (stepC thread info resultsForLib stB newFrameTableNativeSymbolsColumn
              (allFramesForThisLib info)) (\<lambda>stC.
       Inr (thread
              \<lparr> frameTable := (frameTable thread)
                  \<lparr> ft_func := c_newFrameTableFuncColumn stC,
                    ft_nativeSymbol := newFrameTableNativeSymbolsColumn,
                    ft_line := c_newFrameTableLineColumn stC \<rparr>,
                funcTable := c_funcTable stC,
                nativeSymbols := b_nativeSymbols stB,
                stringTable := c_stringTable stC \<rparr>,
            mergeInto (makeConsensusMap (c_oldFuncToNewFuncEntries stC)) oldFuncToNewFuncMap)))))"

section \<open>symbolicateProfile\<close>

record Profile =
  threads :: "Thread list"

record SymbolicationStepInfo =
  si_threadLibSymbolicationInfo :: ThreadLibSymbolicationInfo
  si_resultsForLib :: "int \<rightharpoonup> AddressResult"

text \<open>
  The errors a symbol store hands to the failure callback: the callback only asks whether
  the error is a \<open>SymbolsNotFoundError\<close>.
\<close>

datatype provider_error = SymbolsNotFoundError string | Other_error string

text \<open>
  Modelled from the spec: the symbol store (\<open>AbstractSymbolStore.getSymbols\<close>) is
  outside the sources at hand. The spec gives its contract: it takes the requests, a
  success callback \<open>(request, resultsForLib)\<close> and a failure callback
  \<open>(request, error)\<close>, fires one of the two per requested library, in any order,
  and an error thrown out of a callback propagates to the caller of \<open>getSymbols\<close>.
  A store is the list of callbacks it fires for the requests, in the order in which it
  fires them; running them stops at the first callback that throws.
\<close>

datatype provider_event =
    Symbols_found LibSymbolicationRequest "int \<rightharpoonup> AddressResult"
  | Symbols_failed LibSymbolicationRequest provider_error

type_synonym symbol_store = "LibSymbolicationRequest list \<Rightarrow> provider_event list"

datatype run_error =
    Thrown_by_collector collector_error
  | Rethrown provider_error
  | TypeError_undefined

text \<open>
  What a run leaves behind: the calls of \<open>symbolicationStepCallback\<close>, in order, and
  what \<open>console.warn\<close> was given.
\<close>

record run_log =
  stepCalls :: "(nat \<times> SymbolicationStepInfo) list"
  warnings :: "provider_error list"

text \<open>\<open>`${debugName}/${breakpadId}`\<close> on the lib of a request.\<close>

definition requestLibKey :: "RequestLib \<Rightarrow> LibKey" where
  "requestLibKey l =
     rl_debugName l @ ''/'' @ (case rl_breakpadId l of None \<Rightarrow> ''undefined'' | Some b \<Rightarrow> b)"

definition finishSymbolicationForLib_thread ::
  "ThreadSymbolicationInfo list \<Rightarrow> (int \<rightharpoonup> AddressResult) \<Rightarrow> LibKey \<Rightarrow>
   (nat \<times> SymbolicationStepInfo) list \<Rightarrow> nat \<Rightarrow> run_error + (nat \<times> SymbolicationStepInfo) list" where
  "finishSymbolicationForLib_thread symbolicationInfo results libKey calls threadIndex =
     (case js_index symbolicationInfo threadIndex of
        None \<Rightarrow> Inl TypeError_undefined
      | Some threadSymbolicationInfo \<Rightarrow>
          (case map_of threadSymbolicationInfo libKey of
             None \<Rightarrow> Inr calls
           | Some info \<Rightarrow>
               Inr (calls @ [(threadIndex,
                 \<lparr> si_threadLibSymbolicationInfo = info, si_resultsForLib = results \<rparr>)])))"

definition finishSymbolicationForLib ::
  "Profile \<Rightarrow> ThreadSymbolicationInfo list \<Rightarrow> (int \<rightharpoonup> AddressResult) \<Rightarrow> LibKey \<Rightarrow>
   (nat \<times> SymbolicationStepInfo) list \<Rightarrow> run_error + (nat \<times> SymbolicationStepInfo) list" where
  "finishSymbolicationForLib profile symbolicationInfo results libKey calls =
     for_of (finishSymbolicationForLib_thread symbolicationInfo results libKey)
       [0 ..< length (threads profile)] calls"

text \<open>The two callbacks that \<open>symbolicateProfile\<close> passes to the store.\<close>

definition fire ::
  "Profile \<Rightarrow> ThreadSymbolicationInfo list \<Rightarrow> run_log \<Rightarrow> provider_event \<Rightarrow> run_error + run_log" where
  "fire profile symbolicationInfo log event =
     (case event of
        Symbols_found request results \<Rightarrow>
          sbind (finishSymbolicationForLib profile symbolicationInfo results
                   (requestLibKey (lib request)) (stepCalls log))
            (\<lambda>calls. Inr (log \<lparr> stepCalls := calls \<rparr>))
      | Symbols_failed request error \<Rightarrow>
          (case error of
             SymbolsNotFoundError _ \<Rightarrow> Inr (log \<lparr> warnings := warnings log @ [error] \<rparr>)
           | Other_error _ \<Rightarrow> Inl (Rethrown error)))"

text \<open>\<open>profile.threads.map(getThreadSymbolicationInfo)\<close>.\<close>

fun collectAll :: "Thread list \<Rightarrow> collector_error + ThreadSymbolicationInfo list" where
  "collectAll [] = Inr []"
| "collectAll (thread # rest) =
     sbind (getThreadSymbolicationInfo thread) (\<lambda>info.
     sbind (collectAll rest) (\<lambda>infos. Inr (info # infos)))"

definition symbolicateProfile :: "Profile \<Rightarrow> symbol_store \<Rightarrow> run_error + run_log" where
  "symbolicateProfile profile getSymbols =
     (case collectAll (threads profile) of
        Inl e \<Rightarrow> Inl (Thrown_by_collector e)
      | Inr symbolicationInfo \<Rightarrow>
          for_of (fire profile symbolicationInfo)
            (getSymbols (buildLibSymbolicationRequestsForAllThreads symbolicationInfo))
            \<lparr> stepCalls = [], warnings = [] \<rparr>)"

section \<open>The substitution step on a store\<close>

text \<open>
  Whether the step writes into the tables of its input depends on which arrays and
  objects are shared. Here the arrays, the table objects, the string table and the thread
  objects live in a store, addressed by references; a table object holds the references
  of its columns and its \<open>length\<close>. The two loops over the frames and the loop over
  the symbol addresses are the ones above: each round reads the tables it needs from the
  store as it is then, and writes what it changed to the objects that the source assigns
  to.
\<close>

type_synonym ref = nat

record frame_refs =
  fr_address :: ref
  fr_func :: ref
  fr_nativeSymbol :: ref
  fr_line :: ref
  fr_others :: "ref list"
  fr_length :: nat

record func_refs =
  fu_name :: ref
  fu_fileName :: ref
  fu_resource :: ref
  fu_isJS :: ref
  fu_relevantForJS :: ref
  fu_lineNumber :: ref
  fu_columnNumber :: ref
  fu_length :: nat

record symbol_refs =
  sy_libIndex :: ref
  sy_address :: ref
  sy_name :: ref
  sy_length :: nat

record thread_refs =
  tr_frameTable :: ref
  tr_funcTable :: ref
  tr_nativeSymbols :: ref
  tr_stringTable :: ref
  tr_libs :: "Lib list"
  tr_resourceTable :: ResourceTable

datatype cell =
    Ints "int list"
  | Nats "nat list"
  | NatOpts "nat option list"
  | IntOpts "int option list"
  | Bools "bool list"
  | StringTable "string list"
  | OtherColumn
  | FrameTableObj frame_refs
  | FuncTableObj func_refs
  | NativeSymbolsObj symbol_refs
  | ThreadObj thread_refs

type_synonym store = "cell list"

definition alloc :: "store \<Rightarrow> cell \<Rightarrow> store \<times> ref" where
  "alloc h c = (h @ [c], length h)"

definition put :: "store \<Rightarrow> ref \<Rightarrow> cell \<Rightarrow> store" where
  "put h r c = h[r := c]"

definition get_ints :: "store \<Rightarrow> ref \<Rightarrow> step_error + int list" where
  "get_ints h r = (case js_index h r of Some (Ints xs) \<Rightarrow> Inr xs | _ \<Rightarrow> Inl Untyped_undefined)"

definition get_nats :: "store \<Rightarrow> ref \<Rightarrow> step_error + nat list" where
  "get_nats h r = (case js_index h r of Some (Nats xs) \<Rightarrow> Inr xs | _ \<Rightarrow> Inl Untyped_undefined)"

definition get_natOpts :: "store \<Rightarrow> ref \<Rightarrow> step_error + nat option list" where
  "get_natOpts h r = (case js_index h r of Some (NatOpts xs) \<Rightarrow> Inr xs | _ \<Rightarrow> Inl Untyped_undefined)"

definition get_intOpts :: "store \<Rightarrow> ref \<Rightarrow> step_error + int option list" where
  "get_intOpts h r = (case js_index h r of Some (IntOpts xs) \<Rightarrow> Inr xs | _ \<Rightarrow> Inl Untyped_undefined)"

definition get_bools :: "store \<Rightarrow> ref \<Rightarrow> step_error + bool list" where
  "get_bools h r = (case js_index h r of Some (Bools xs) \<Rightarrow> Inr xs | _ \<Rightarrow> Inl Untyped_undefined)"

definition get_strings :: "store \<Rightarrow> ref \<Rightarrow> step_error + string list" where
  "get_strings h r = (case js_index h r of Some (StringTable xs) \<Rightarrow> Inr xs | _ \<Rightarrow> Inl Untyped_undefined)"

definition get_frameTable :: "store \<Rightarrow> ref \<Rightarrow> step_error + frame_refs" where
  "get_frameTable h r = (case js_index h r of Some (FrameTableObj x) \<Rightarrow> Inr x | _ \<Rightarrow> Inl Untyped_undefined)"

definition get_funcTable :: "store \<Rightarrow> ref \<Rightarrow> step_error + func_refs" where
  "get_funcTable h r = (case js_index h r of Some (FuncTableObj x) \<Rightarrow> Inr x | _ \<Rightarrow> Inl Untyped_undefined)"

definition get_nativeSymbols :: "store \<Rightarrow> ref \<Rightarrow> step_error + symbol_refs" where
  "get_nativeSymbols h r = (case js_index h r of Some (NativeSymbolsObj x) \<Rightarrow> Inr x | _ \<Rightarrow> Inl Untyped_undefined)"

definition get_thread :: "store \<Rightarrow> ref \<Rightarrow> step_error + thread_refs" where
  "get_thread h r = (case js_index h r of Some (ThreadObj x) \<Rightarrow> Inr x | _ \<Rightarrow> Inl Untyped_undefined)"

text \<open>The tables behind a table object, as the store has them.\<close>

definition load_frameTable :: "store \<Rightarrow> ref \<Rightarrow> step_error + FrameTable" where
  "load_frameTable h r =
     sbind (get_frameTable h r) (\<lambda>fr.
     sbind (get_ints h (fr_address fr)) (\<lambda>a.
     sbind (get_nats h (fr_func fr)) (\<lambda>f.
     sbind (get_natOpts h (fr_nativeSymbol fr)) (\<lambda>n.
     sbind (get_intOpts h (fr_line fr)) (\<lambda>l.
       Inr \<lparr> ft_address = a, ft_func = f, ft_nativeSymbol = n, ft_line = l,
             ft_length = fr_length fr \<rparr>)))))"

definition load_funcTable :: "store \<Rightarrow> ref \<Rightarrow> step_error + FuncTable" where
  "load_funcTable h r =
     sbind (get_funcTable h r) (\<lambda>fu.
     sbind (get_nats h (fu_name fu)) (\<lambda>n.
     sbind (get_natOpts h (fu_fileName fu)) (\<lambda>f.
     sbind (get_ints h (fu_resource fu)) (\<lambda>rs.
     sbind (get_bools h (fu_isJS fu)) (\<lambda>j.
     sbind (get_bools h (fu_relevantForJS fu)) (\<lambda>rj.
     sbind (get_intOpts h (fu_lineNumber fu)) (\<lambda>ln.
     sbind (get_intOpts h (fu_columnNumber fu)) (\<lambda>cn.
       Inr \<lparr> fn_name = n, fn_fileName = f, fn_resource = rs, fn_isJS = j,
             fn_relevantForJS = rj, fn_lineNumber = ln, fn_columnNumber = cn,
             fn_length = fu_length fu \<rparr>))))))))"

definition load_nativeSymbols :: "store \<Rightarrow> ref \<Rightarrow> step_error + NativeSymbolTable" where
  "load_nativeSymbols h r =
     sbind (get_nativeSymbols h r) (\<lambda>sy.
     sbind (get_nats h (sy_libIndex sy)) (\<lambda>l.
     sbind (get_ints h (sy_address sy)) (\<lambda>a.
     sbind (get_nats h (sy_name sy)) (\<lambda>n.
       Inr \<lparr> ns_libIndex = l, ns_address = a, ns_name = n, ns_length = sy_length sy \<rparr>))))"

definition load_thread :: "store \<Rightarrow> ref \<Rightarrow> step_error + Thread" where
  "load_thread h r =
     sbind (get_thread h r) (\<lambda>tr.
     sbind (load_frameTable h (tr_frameTable tr)) (\<lambda>frames.
     sbind (load_funcTable h (tr_funcTable tr)) (\<lambda>funcs.
     sbind (load_nativeSymbols h (tr_nativeSymbols tr)) (\<lambda>syms.
     sbind (get_strings h (tr_stringTable tr)) (\<lambda>strings.
       Inr \<lparr> libs = tr_libs tr, frameTable = frames, funcTable = funcs, nativeSymbols = syms,
             resourceTable = tr_resourceTable tr, stringTable = strings \<rparr>)))))"

text \<open>
  Modelled from the spec: \<open>shallowCloneNativeSymbolTable\<close> and
  \<open>shallowCloneFuncTable\<close> are outside the sources at hand. The spec says that the
  step returns grown or updated copies of the two tables and allocates new arrays for the
  columns it touches: a clone is a new table object whose columns are new arrays with the
  contents of the old ones, all of them put at the end of the store.
\<close>

definition shallowCloneNativeSymbolTable :: "store \<Rightarrow> ref \<Rightarrow> step_error + (store \<times> ref)" where
  "shallowCloneNativeSymbolTable h r =
     sbind (load_nativeSymbols h r) (\<lambda>syms.
       let n = length h
       in Inr (h @ [Nats (ns_libIndex syms), Ints (ns_address syms), Nats (ns_name syms),
                    NativeSymbolsObj
                      \<lparr> sy_libIndex = n, sy_address = n + 1, sy_name = n + 2,
                        sy_length = ns_length syms \<rparr>],
               n + 3))"

definition shallowCloneFuncTable :: "store \<Rightarrow> ref \<Rightarrow> step_error + (store \<times> ref)" where
  "shallowCloneFuncTable h r =
     sbind (load_funcTable h r) (\<lambda>funcs.
       let n = length h
       in Inr (h @ [Nats (fn_name funcs), NatOpts (fn_fileName funcs), Ints (fn_resource funcs),
                    Bools (fn_isJS funcs), Bools (fn_relevantForJS funcs),
                    IntOpts (fn_lineNumber funcs), IntOpts (fn_columnNumber funcs),
                    FuncTableObj
                      \<lparr> fu_name = n, fu_fileName = n + 1, fu_resource = n + 2, fu_isJS = n + 3,
                        fu_relevantForJS = n + 4, fu_lineNumber = n + 5, fu_columnNumber = n + 6,
                        fu_length = fn_length funcs \<rparr>],
               n + 7))"

text \<open>Writing a table back through its table object: the columns and the \<open>length\<close>.\<close>

definition save_nativeSymbols :: "store \<Rightarrow> ref \<Rightarrow> NativeSymbolTable \<Rightarrow> step_error + store" where
  "save_nativeSymbols h r syms =
     sbind (get_nativeSymbols h r) (\<lambda>sy.
       Inr (put (put (put (put h (sy_libIndex sy) (Nats (ns_libIndex syms)))
                   (sy_address sy) (Ints (ns_address syms)))
                   (sy_name sy) (Nats (ns_name syms)))
              r (NativeSymbolsObj (sy \<lparr> sy_length := ns_length syms \<rparr>))))"

definition save_funcTable :: "store \<Rightarrow> ref \<Rightarrow> FuncTable \<Rightarrow> step_error + store" where
  "save_funcTable h r funcs =
     sbind (get_funcTable h r) (\<lambda>fu.
       Inr (put (put (put (put (put (put (put (put h
              (fu_name fu) (Nats (fn_name funcs)))
              (fu_fileName fu) (NatOpts (fn_fileName funcs)))
              (fu_resource fu) (Ints (fn_resource funcs)))
              (fu_isJS fu) (Bools (fn_isJS funcs)))
              (fu_relevantForJS fu) (Bools (fn_relevantForJS funcs)))
              (fu_lineNumber fu) (IntOpts (fn_lineNumber funcs)))
              (fu_columnNumber fu) (IntOpts (fn_columnNumber funcs)))
              r (FuncTableObj (fu \<lparr> fu_length := fn_length funcs \<rparr>))))"

text \<open>
  One round of the loop over the symbol addresses. \<open>indexForString\<close> changes the
  string table object, the rest of the round the clone of the native symbol table.
\<close>

definition stepB_entry_store ::
  "nat \<Rightarrow> ref \<Rightarrow> ref \<Rightarrow> store \<times> (int, nat) js_map \<times> nat list \<Rightarrow> int \<times> string \<Rightarrow>
   step_error + (store \<times> (int, nat) js_map \<times> nat list)" where
  "stepB_entry_store lix stringRef symbolsRef st entry =
     (case st of (h, canonical, iterator) \<Rightarrow>
     sbind (load_nativeSymbols h symbolsRef) (\<lambda>syms.
     sbind (get_strings h stringRef) (\<lambda>strings.
     sbind (stepB_entry lix
              \<lparr> b_nativeSymbols = syms, b_stringTable = strings, b_canonical = canonical,
                b_availableNativeSymbolIterator = iterator \<rparr> entry) (\<lambda>st'.
     sbind (save_nativeSymbols (put h stringRef (StringTable (b_stringTable st'))) symbolsRef
              (b_nativeSymbols st')) (\<lambda>h'.
       Inr (h', b_canonical st', b_availableNativeSymbolIterator st'))))))"

definition assignNativeSymbol_store ::
  "(int, nat) js_map \<Rightarrow> ref \<Rightarrow> store \<Rightarrow> nat \<times> int \<Rightarrow> step_error + store" where
  "assignNativeSymbol_store canonical columnRef h entry =
     sbind (get_natOpts h columnRef) (\<lambda>column.
     sbind (assignNativeSymbol canonical column entry) (\<lambda>column'.
       Inr (put h columnRef (NatOpts column'))))"

text \<open>What the second loop over the frames keeps in local variables.\<close>

record stepC_locals =
  l_availableFuncIter :: "nat list"
  l_funcKeyToFuncMap :: "(string, nat) js_map"
  l_oldFuncToNewFuncEntries :: "(nat \<times> nat) list"

definition stepC_frame_store ::
  "ref \<Rightarrow> ref \<Rightarrow> (int \<rightharpoonup> AddressResult) \<Rightarrow> nat \<Rightarrow> ref \<Rightarrow> ref \<Rightarrow> ref \<Rightarrow> ref \<Rightarrow> ref \<Rightarrow>
   store \<times> stepC_locals \<Rightarrow> nat \<Rightarrow> step_error + (store \<times> stepC_locals)" where
  "stepC_frame_store threadRef stringRef R rix symbolsRef symbolColumnRef funcsRef funcColumnRef
     lineColumnRef st frameIndex =
     (case st of (h, locals) \<Rightarrow>
     sbind (load_thread h threadRef) (\<lambda>thread.
     sbind (load_nativeSymbols h symbolsRef) (\<lambda>syms.
     sbind (get_natOpts h symbolColumnRef) (\<lambda>symbolColumn.
     sbind (load_funcTable h funcsRef) (\<lambda>funcs.
     sbind (get_nats h funcColumnRef) (\<lambda>funcColumn.
     sbind (get_intOpts h lineColumnRef) (\<lambda>lineColumn.
     sbind (get_strings h stringRef) (\<lambda>strings.
     sbind (stepC_frame thread R rix syms symbolColumn
              \<lparr> c_funcTable = funcs, c_stringTable = strings,
                c_availableFuncIter = l_availableFuncIter locals,
                c_funcKeyToFuncMap = l_funcKeyToFuncMap locals,
                c_oldFuncToNewFuncEntries = l_oldFuncToNewFuncEntries locals,
                c_newFrameTableFuncColumn = funcColumn,
                c_newFrameTableLineColumn = lineColumn \<rparr> frameIndex) (\<lambda>st'.
     sbind (save_funcTable (put h stringRef (StringTable (c_stringTable st')))
              funcsRef (c_funcTable st')) (\<lambda>h1.
       Inr (put (put h1 funcColumnRef (Nats (c_newFrameTableFuncColumn st')))
                 lineColumnRef (IntOpts (c_newFrameTableLineColumn st')),
            \<lparr> l_availableFuncIter = c_availableFuncIter st',
              l_funcKeyToFuncMap = c_funcKeyToFuncMap st',
              l_oldFuncToNewFuncEntries = c_oldFuncToNewFuncEntries st' \<rparr>)))))))))))"

text \<open>
  The step. The first loop writes to local maps and sets only. \<open>slice()\<close> gives a new
  array; the object spreads \<open>{...oldFrameTable, ...}\<close> and \<open>{...thread, ...}\<close> give
  new objects with the fields of the old ones, the named fields replaced.
\<close>

definition applySymbolicationStep_store ::
  "store \<Rightarrow> ref \<Rightarrow> ThreadLibSymbolicationInfo \<Rightarrow> (int \<rightharpoonup> AddressResult) \<Rightarrow> (nat, nat) js_map \<Rightarrow>
   step_error + (store \<times> ref \<times> (nat, nat) js_map)" where
  "applySymbolicationStep_store h threadRef info R oldFuncToNewFuncMap =
     sbind (get_thread h threadRef) (\<lambda>tr.
     sbind (get_frameTable h (tr_frameTable tr)) (\<lambda>oldFrameTable.
     sbind (load_thread h threadRef) (\<lambda>thread.
     sbind (stepA thread info R) (\<lambda>stA.
     sbind (shallowCloneNativeSymbolTable h (tr_nativeSymbols tr)) (\<lambda>(h1, symbolsRef).
     sbind (for_of (stepB_entry_store (libIndex info) (tr_stringTable tr) symbolsRef)
              (symbolAddressToNameMap stA)
              (h1, symbolAddressToCanonicalSymbolIndexMap stA, availableNativeSymbols stA))
       (\<lambda>(h2, canonical, iterator).
     sbind (get_natOpts h2 (fr_nativeSymbol oldFrameTable)) (\<lambda>oldSymbolColumn.
     case alloc h2 (NatOpts oldSymbolColumn) of (h3, symbolColumnRef) \<Rightarrow>
     sbind (for_of (assignNativeSymbol_store canonical symbolColumnRef)
              (frameToSymbolAddressMap stA) h3) (\<lambda>h4.
     sbind (shallowCloneFuncTable h4 (tr_funcTable tr)) (\<lambda>(h5, funcsRef).
     sbind (get_nats h5 (fr_func oldFrameTable)) (\<lambda>oldFuncColumn.
     sbind (get_intOpts h5 (fr_line oldFrameTable)) (\<lambda>oldLineColumn.
     case alloc h5 (Nats oldFuncColumn) of (h6, funcColumnRef) \<Rightarrow>
     case alloc h6 (IntOpts oldLineColumn) of (h7, lineColumnRef) \<Rightarrow>
     sbind (for_of (stepC_frame_store threadRef (tr_stringTable tr) R (resourceIndex info)
                      symbolsRef symbolColumnRef funcsRef funcColumnRef lineColumnRef)
              (allFramesForThisLib info)
              (h7, \<lparr> l_availableFuncIter = new_Set (allFuncsForThisLib info),
                     l_funcKeyToFuncMap = [], l_oldFuncToNewFuncEntries = [] \<rparr>))
       (\<lambda>(h8, locals).
     case alloc h8 (FrameTableObj (oldFrameTable
            \<lparr> fr_func := funcColumnRef, fr_nativeSymbol := symbolColumnRef,
              fr_line := lineColumnRef \<rparr>)) of (h9, frameTableRef) \<Rightarrow>
     case alloc h9 (ThreadObj (tr
            \<lparr> tr_frameTable := frameTableRef, tr_funcTable := funcsRef,
              tr_nativeSymbols := symbolsRef, tr_stringTable := tr_stringTable tr \<rparr>))
       of (h10, threadRef') \<Rightarrow>
       Inr (h10, threadRef',
            mergeInto (makeConsensusMap (l_oldFuncToNewFuncEntries locals))
              oldFuncToNewFuncMap)))))))))))))"


section \<open>Loops and array accesses\<close>

lemma sbind_Inr [simp]: "sbind (Inr x) f = f x"
  by (simp add: sbind_def)

lemma sbind_Inl [simp]: "sbind (Inl e) f = Inl e"
  by (simp add: sbind_def)

lemma sbind_eq_Inr: "sbind m f = Inr y \<longleftrightarrow> (\<exists>x. m = Inr x \<and> f x = Inr y)"
  by (cases m) auto

lemma for_of_append: "for_of body (xs @ ys) s = sbind (for_of body xs s) (for_of body ys)"
proof (induction xs arbitrary: s)
  case Nil
  show ?case by simp
next
  case (Cons x xs)
  show ?case by (cases "body s x") (simp_all add: Cons.IH)
qed

lemma for_of_snoc:
  "for_of body (xs @ [x]) s = Inr s' \<longleftrightarrow> (\<exists>t. for_of body xs s = Inr t \<and> body t x = Inr s')"
  by (simp add: for_of_append sbind_eq_Inr)

text \<open>An invariant of a loop may speak of the elements already visited.\<close>

lemma for_of_prefix_invariant:
  assumes run: "for_of body xs s = Inr s'"
    and init: "P [] s"
    and step: "\<And>pre x t t'. P pre t \<Longrightarrow> body t x = Inr t' \<Longrightarrow> P (pre @ [x]) t'"
  shows "P xs s'"
  using run
proof (induction xs arbitrary: s' rule: rev_induct)
  case Nil
  then show ?case using init by simp
next
  case (snoc x xs)
  from snoc.prems obtain t where t: "for_of body xs s = Inr t" and b: "body t x = Inr s'"
    by (auto simp: for_of_snoc)
  from step[OF snoc.IH[OF t] b] show ?case .
qed

lemma for_of_invariant:
  assumes run: "for_of body xs s = Inr s'"
    and init: "P s"
    and step: "\<And>x t t'. P t \<Longrightarrow> body t x = Inr t' \<Longrightarrow> P t'"
  shows "P s'"
  using for_of_prefix_invariant[where P = "\<lambda>_. P", OF run init] step by blast

lemma for_of_take:
  assumes "for_of body xs s = Inr s'" and "n \<le> length xs"
  shows "\<exists>t. for_of body (take n xs) s = Inr t \<and> for_of body (drop n xs) t = Inr s'"
proof -
  have "for_of body (take n xs @ drop n xs) s = Inr s'" using assms by simp
  then show ?thesis unfolding for_of_append by (simp add: sbind_eq_Inr)
qed

lemma read_at_Inr: "read_at xs i = Inr x \<longleftrightarrow> i < length xs \<and> xs ! i = x"
  by (auto simp: read_at_def js_index_def)

lemma store_at_Inr:
  "store_at xs i v = Inr ys \<longleftrightarrow>
     (i < length xs \<and> ys = xs[i := v]) \<or> (i = length xs \<and> ys = xs @ [v])"
  by (auto simp: store_at_def)

lemma store_at_inside: "i < length xs \<Longrightarrow> store_at xs i v = Inr (xs[i := v])"
  by (simp add: store_at_def)

section \<open>Properties of the consensus reduction\<close>

lemma set_set_add: "set (set_add s x) = insert x (set s)"
  by (auto simp: set_add_def)

lemma distinct_set_add: "distinct s \<Longrightarrow> distinct (set_add s x)"
  by (simp add: set_add_def)

lemma makeConsensusMap_loop_get:
  assumes "set dk \<inter> dom (map_of cm) = {}"
  shows "map_of (makeConsensusMap_loop es cm dk) k =
    (if k \<in> set dk then None
     else case map_of cm k of
       Some v \<Rightarrow> if \<forall>(k', v') \<in> set es. k' = k \<longrightarrow> v' = v then Some v else None
     | None \<Rightarrow> (case map_of es k of
         None \<Rightarrow> None
       | Some v \<Rightarrow> if \<forall>(k', v') \<in> set es. k' = k \<longrightarrow> v' = v then Some v else None))"
  using assms
proof (induction es cm dk rule: makeConsensusMap_loop.induct)
  case (1 cm dk)
  then show ?case by (auto split: option.splits)
next
  case (2 key val rest cm dk)
  show ?case
  proof (cases "key \<in> set dk")
    case True
    then have nk: "map_of cm key = None" using "2.prems" by auto
    show ?thesis using True "2.IH"(1)[OF True "2.prems"] nk
      by (auto split: option.splits)
  next
    case notdiv: False
    show ?thesis
    proof (cases "map_of cm key")
      case None
      have pre: "set dk \<inter> dom (map_of (AList.update key val cm)) = {}"
        using "2.prems" notdiv by (auto simp: update_conv')
      show ?thesis
        using "2.IH"(2)[OF notdiv None pre] notdiv None
        by (auto simp: update_conv' split: option.splits)
    next
      case (Some prev)
      show ?thesis
      proof (cases "prev = val")
        case True
        show ?thesis
          using "2.IH"(4)[OF notdiv Some _ "2.prems"] True notdiv Some
          by (auto split: option.splits)
      next
        case False
        have pre: "set (set_add dk key) \<inter> dom (map_of (AList.delete key cm)) = {}"
          using "2.prems" by (auto simp: set_set_add delete_conv')
        show ?thesis
          using "2.IH"(3)[OF notdiv Some _ pre] False notdiv Some
          by (auto simp: set_set_add delete_conv' split: option.splits)
      qed
    qed
  qed
qed


section \<open>The second loop over the frames\<close>

lemma takeFunc_frame:
  assumes "takeFunc rix st = Inr (i, st1)"
  shows "c_newFrameTableFuncColumn st1 = c_newFrameTableFuncColumn st"
    and "c_newFrameTableLineColumn st1 = c_newFrameTableLineColumn st"
    and "c_oldFuncToNewFuncEntries st1 = c_oldFuncToNewFuncEntries st"
    and "c_stringTable st1 = c_stringTable st"
    and "c_funcKeyToFuncMap st1 = c_funcKeyToFuncMap st"
  using assms
  by (auto simp: takeFunc_def Let_def sbind_eq_Inr split: list.splits)

lemma funcForKey_frame:
  assumes "funcForKey rix st a b = Inr (i, st1)"
  shows "c_newFrameTableFuncColumn st1 = c_newFrameTableFuncColumn st"
    and "c_newFrameTableLineColumn st1 = c_newFrameTableLineColumn st"
    and "c_oldFuncToNewFuncEntries st1 = c_oldFuncToNewFuncEntries st"
    and "c_stringTable st1 = c_stringTable st"
  using assms
  by (auto simp: funcForKey_def Let_def sbind_eq_Inr split: option.splits dest: takeFunc_frame)

lemma stepC_frame_InrE:
  assumes "stepC_frame thread R rix syms col st f = Inr st'"
  obtains oldFunc r fi fli strings funcIndex st1 fc lc where
    "stepC_resolve thread R syms col st f = Inr (oldFunc, r)"
    "internNames (c_stringTable st) r = (fi, fli, strings)"
    "funcForKey rix (st \<lparr> c_stringTable := strings \<rparr>) fi fli = Inr (funcIndex, st1)"
    "store_at (c_newFrameTableFuncColumn st) f funcIndex = Inr fc"
    "store_at (c_newFrameTableLineColumn st) f (ar_line r) = Inr lc"
    "st' = st1 \<lparr> c_newFrameTableFuncColumn := fc, c_newFrameTableLineColumn := lc,
                  c_oldFuncToNewFuncEntries := c_oldFuncToNewFuncEntries st @ [(oldFunc, funcIndex)] \<rparr>"
proof -
  from assms obtain oldFunc r where res: "stepC_resolve thread R syms col st f = Inr (oldFunc, r)"
    and rest: "(case internNames (c_stringTable st) r of
       (functionStringIndex, fileNameStringIndex, strings) \<Rightarrow>
     sbind (funcForKey rix (st \<lparr> c_stringTable := strings \<rparr>) functionStringIndex fileNameStringIndex)
       (\<lambda>(funcIndex, st1).
     sbind (store_at (c_newFrameTableFuncColumn st1) f funcIndex) (\<lambda>funcColumn.
     sbind (store_at (c_newFrameTableLineColumn st1) f (ar_line r)) (\<lambda>lineColumn.
       Inr (st1 \<lparr> c_newFrameTableFuncColumn := funcColumn,
                  c_newFrameTableLineColumn := lineColumn,
                  c_oldFuncToNewFuncEntries := c_oldFuncToNewFuncEntries st1 @ [(oldFunc, funcIndex)] \<rparr>))))) = Inr st'"
    unfolding stepC_frame_def by (auto simp: sbind_eq_Inr)
  obtain fi fli strings where inn: "internNames (c_stringTable st) r = (fi, fli, strings)"
    by (cases "internNames (c_stringTable st) r") auto
  from rest inn obtain funcIndex st1 fc lc where
    ffk: "funcForKey rix (st \<lparr> c_stringTable := strings \<rparr>) fi fli = Inr (funcIndex, st1)"
    and fc: "store_at (c_newFrameTableFuncColumn st1) f funcIndex = Inr fc"
    and lc: "store_at (c_newFrameTableLineColumn st1) f (ar_line r) = Inr lc"
    and st': "st' = st1 \<lparr> c_newFrameTableFuncColumn := fc, c_newFrameTableLineColumn := lc,
                  c_oldFuncToNewFuncEntries := c_oldFuncToNewFuncEntries st1 @ [(oldFunc, funcIndex)] \<rparr>"
    by (auto simp: sbind_eq_Inr)
  note fr = funcForKey_frame[OF ffk]
  show ?thesis
    using that[OF res inn ffk] fc lc st' fr by simp
qed

lemma stepC_resolve_oldFunc:
  assumes "stepC_resolve thread R syms col st f = Inr (oldFunc, r)"
  shows "f < length (ft_func (frameTable thread))" and "oldFunc = ft_func (frameTable thread) ! f"
  using assms unfolding stepC_resolve_def
  by (auto simp: sbind_eq_Inr read_at_Inr split: option.splits)

text \<open>Every visited frame has its pair of old and new func among the recorded entries.\<close>

definition entries_cover :: "Thread \<Rightarrow> nat list \<Rightarrow> stepC_state \<Rightarrow> bool" where
  "entries_cover thread pre st \<longleftrightarrow>
     length (c_newFrameTableFuncColumn st) = length (ft_func (frameTable thread)) \<and>
     (\<forall>f \<in> set pre. (ft_func (frameTable thread) ! f, c_newFrameTableFuncColumn st ! f)
        \<in> set (c_oldFuncToNewFuncEntries st))"

lemma entries_cover_step:
  assumes inv: "entries_cover thread pre st"
    and step: "stepC_frame thread R rix syms col st f = Inr st'"
  shows "entries_cover thread (pre @ [f]) st'"
proof -
  from step obtain oldFunc r fi fli strings funcIndex st1 fc lc where
    res: "stepC_resolve thread R syms col st f = Inr (oldFunc, r)"
    and fc: "store_at (c_newFrameTableFuncColumn st) f funcIndex = Inr fc"
    and st': "st' = st1 \<lparr> c_newFrameTableFuncColumn := fc, c_newFrameTableLineColumn := lc,
                  c_oldFuncToNewFuncEntries := c_oldFuncToNewFuncEntries st @ [(oldFunc, funcIndex)] \<rparr>"
    by (rule stepC_frame_InrE)
  from stepC_resolve_oldFunc[OF res] have flt: "f < length (ft_func (frameTable thread))"
    and old: "oldFunc = ft_func (frameTable thread) ! f" by auto
  from inv have len: "length (c_newFrameTableFuncColumn st) = length (ft_func (frameTable thread))"
    by (simp add: entries_cover_def)
  from fc flt len have fc_eq: "fc = (c_newFrameTableFuncColumn st)[f := funcIndex]"
    by (auto simp: store_at_Inr)
  show ?thesis
    unfolding entries_cover_def
  proof (intro conjI ballI)
    show "length (c_newFrameTableFuncColumn st') = length (ft_func (frameTable thread))"
      using st' fc_eq len by simp
  next
    fix g assume g: "g \<in> set (pre @ [f])"
    show "(ft_func (frameTable thread) ! g, c_newFrameTableFuncColumn st' ! g)
        \<in> set (c_oldFuncToNewFuncEntries st')"
    proof (cases "g = f")
      case True
      then show ?thesis using st' fc_eq old flt len by simp
    next
      case False
      with g have "g \<in> set pre" by simp
      with inv have "(ft_func (frameTable thread) ! g, c_newFrameTableFuncColumn st ! g)
        \<in> set (c_oldFuncToNewFuncEntries st)" by (simp add: entries_cover_def)
      then show ?thesis using st' fc_eq False by simp
    qed
  qed
qed

lemma stepC_entries_cover:
  assumes "stepC thread info R stB col frames = Inr stC"
  shows "entries_cover thread frames stC"
proof -
  have "entries_cover thread [] (stepC_init thread info (b_stringTable stB))"
    by (simp add: entries_cover_def stepC_init_def)
  from for_of_prefix_invariant[where P = "entries_cover thread", OF assms[unfolded stepC_def] this]
  show ?thesis using entries_cover_step by blast
qed

lemma applySymbolicationStep_InrE:
  assumes "applySymbolicationStep thread info R m0 = Inr (thread', m')"
  obtains stA stB column stC where
    "stepA thread info R = Inr stA"
    "stepB thread info stA = Inr stB"
    "for_of (assignNativeSymbol (b_canonical stB)) (frameToSymbolAddressMap stA)
       (ft_nativeSymbol (frameTable thread)) = Inr column"
    "stepC thread info R stB column (allFramesForThisLib info) = Inr stC"
    "thread' = thread
              \<lparr> frameTable := (frameTable thread)
                  \<lparr> ft_func := c_newFrameTableFuncColumn stC,
                    ft_nativeSymbol := column,
                    ft_line := c_newFrameTableLineColumn stC \<rparr>,
                funcTable := c_funcTable stC,
                nativeSymbols := b_nativeSymbols stB,
                stringTable := c_stringTable stC \<rparr>"
    "m' = mergeInto (makeConsensusMap (c_oldFuncToNewFuncEntries stC)) m0"
  using assms unfolding applySymbolicationStep_def
  by (auto simp: sbind_eq_Inr)

lemma map_of_mergeInto:
  assumes "distinct (map fst cm)"
  shows "map_of (mergeInto cm m0) k = (case map_of cm k of Some v \<Rightarrow> Some v | None \<Rightarrow> map_of m0 k)"
  using assms unfolding mergeInto_def
proof (induction cm arbitrary: m0 rule: rev_induct)
  case Nil
  show ?case by simp
next
  case (snoc e cm)
  obtain a b where e: "e = (a, b)" by (cases e)
  from snoc.prems e have d: "distinct (map fst cm)" and a: "map_of cm a = None"
    by (auto simp: map_of_eq_None_iff)
  show ?case using snoc.IH[OF d, of m0] a
    by (auto simp: e update_conv' map_add_def split: option.splits)
qed

lemma distinct_makeConsensusMap_loop:
  "distinct (map fst cm) \<Longrightarrow> distinct (map fst (makeConsensusMap_loop es cm dk))"
  by (induction es cm dk rule: makeConsensusMap_loop.induct)
     (auto simp: distinct_update distinct_delete split: option.splits)

lemma distinct_makeConsensusMap: "distinct (map fst (makeConsensusMap es))"
  by (simp add: makeConsensusMap_def distinct_makeConsensusMap_loop)

lemma makeConsensusMap_get:
  "map_of (makeConsensusMap es) k = Some v \<longleftrightarrow>
     (k, v) \<in> set es \<and> (\<forall>(k', v') \<in> set es. k' = k \<longrightarrow> v' = v)"
proof -
  have eq: "map_of (makeConsensusMap es) k =
    (case map_of es k of None \<Rightarrow> None
     | Some v \<Rightarrow> if \<forall>(k', v') \<in> set es. k' = k \<longrightarrow> v' = v then Some v else None)"
    unfolding makeConsensusMap_def using makeConsensusMap_loop_get[of "[]" "[]" es k] by simp
  show ?thesis
  proof
    assume "map_of (makeConsensusMap es) k = Some v"
    with eq have "map_of es k = Some v" and "\<forall>(k', v') \<in> set es. k' = k \<longrightarrow> v' = v"
      by (auto split: option.splits if_splits)
    then show "(k, v) \<in> set es \<and> (\<forall>(k', v') \<in> set es. k' = k \<longrightarrow> v' = v)"
      by (auto dest: map_of_SomeD)
  next
    assume r: "(k, v) \<in> set es \<and> (\<forall>(k', v') \<in> set es. k' = k \<longrightarrow> v' = v)"
    then have "k \<in> fst ` set es" by force
    then obtain u where u: "map_of es k = Some u"
      by (cases "map_of es k") (auto simp: map_of_eq_None_iff)
    then have "(k, u) \<in> set es" by (rule map_of_SomeD)
    with r have "u = v" by auto
    with u r eq show "map_of (makeConsensusMap es) k = Some v" by simp
  qed
qed


section \<open>Consensus soundness\<close>

text \<open>
  Witness input: three frames of one library; the first two share the old func 0 and the
  third has the old func 1. The results give the first frame the name \<open>A\<close> and the
  other two the name \<open>B\<close>, so func 0 is split and func 1 is moved as a whole.
\<close>

definition split_thread :: Thread where
  "split_thread = \<lparr> libs = [\<lparr> debugName = ''firefox.pdb'', breakpadId = ''00'' \<rparr>],
     frameTable = \<lparr> ft_address = [0, 10, 20], ft_func = [0, 0, 1],
       ft_nativeSymbol = [Some 0, Some 0, Some 1], ft_line = [None, None, None], ft_length = 3 \<rparr>,
     funcTable = \<lparr> fn_name = [0, 1], fn_fileName = [None, None], fn_resource = [0, 0],
       fn_isJS = [False, False], fn_relevantForJS = [False, False],
       fn_lineNumber = [None, None], fn_columnNumber = [None, None], fn_length = 2 \<rparr>,
     nativeSymbols = \<lparr> ns_libIndex = [0, 0], ns_address = [0, 20], ns_name = [0, 1], ns_length = 2 \<rparr>,
     resourceTable = \<lparr> rt_type = [library], rt_lib = [Some 0], rt_length = 1 \<rparr>,
     stringTable = [''first symbol'', ''second symbol''] \<rparr>"

definition split_info :: ThreadLibSymbolicationInfo where
  "split_info = \<lparr> resourceIndex = 0, libIndex = 0, allFuncsForThisLib = [0, 1],
     allNativeSymbolsForThisLib = [0, 1], allFramesForThisLib = [0, 1, 2],
     frameAddresses = [Some 0, Some 10, Some 20] \<rparr>"

definition split_results :: "int \<rightharpoonup> AddressResult" where
  "split_results = map_of
     [(0, \<lparr> symbolAddress = 0, ar_name = ''A'', ar_file = None, ar_line = None \<rparr>),
      (10, \<lparr> symbolAddress = 8, ar_name = ''B'', ar_file = None, ar_line = None \<rparr>),
      (20, \<lparr> symbolAddress = 8, ar_name = ''B'', ar_file = None, ar_line = None \<rparr>)]"

definition split_thread' :: Thread where
  "split_thread' = split_thread
     \<lparr> frameTable := (frameTable split_thread)
         \<lparr> ft_func := [0, 1, 1], ft_nativeSymbol := [Some 0, Some 1, Some 1] \<rparr>,
       funcTable := (funcTable split_thread) \<lparr> fn_name := [2, 3] \<rparr>,
       nativeSymbols := \<lparr> ns_libIndex = [0, 0], ns_address = [0, 8], ns_name = [2, 3], ns_length = 2 \<rparr>,
       stringTable := [''first symbol'', ''second symbol'', ''A'', ''B''] \<rparr>"

text \<open>
  C3, as amended. The consensus reduction keeps a key exactly when some recorded pair has
  it and every recorded pair with that key has the same value; a pair with a differing
  value excludes the key for good, whatever follows. For the step, under the precondition
  of its doc comment, that the entries of the incoming \<open>oldFuncToNewFuncMap\<close> are for
  other libraries (no frame of the library has an old func that the incoming map already
  maps): every key of the resulting map sends each frame of the library that had that old
  func to the mapped new func, and an old func whose frames end up with different new
  funcs is absent from the resulting map.
\<close>

theorem consensus_soundness:
  assumes run: "applySymbolicationStep thread info R m0 = Inr (thread', m')"
    and fresh: "\<forall>f \<in> set (allFramesForThisLib info). map_of m0 (ft_func (frameTable thread) ! f) = None"
  shows "(\<forall>es k v. map_of (makeConsensusMap es) k = Some (v :: nat) \<longleftrightarrow>
            (k :: nat, v) \<in> set es \<and> (\<forall>(k', v') \<in> set es. k' = k \<longrightarrow> v' = v)) \<and>
         (\<forall>es1 es2 es3 k v w. v \<noteq> w \<longrightarrow>
            map_of (makeConsensusMap (es1 @ [(k :: nat, v :: nat)] @ es2 @ [(k, w)] @ es3)) k = None) \<and>
         (\<forall>k v. map_of m' k = Some v \<longrightarrow>
            (\<forall>f \<in> set (allFramesForThisLib info).
               ft_func (frameTable thread) ! f = k \<longrightarrow> ft_func (frameTable thread') ! f = v)) \<and>
         (\<forall>f \<in> set (allFramesForThisLib info). \<forall>g \<in> set (allFramesForThisLib info).
            ft_func (frameTable thread) ! f = ft_func (frameTable thread) ! g \<and>
            ft_func (frameTable thread') ! f \<noteq> ft_func (frameTable thread') ! g \<longrightarrow>
            map_of m' (ft_func (frameTable thread) ! f) = None)"
proof -
  from run obtain stA stB column stC where
    C: "stepC thread info R stB column (allFramesForThisLib info) = Inr stC"
    and t': "thread' = thread
              \<lparr> frameTable := (frameTable thread)
                  \<lparr> ft_func := c_newFrameTableFuncColumn stC,
                    ft_nativeSymbol := column,
                    ft_line := c_newFrameTableLineColumn stC \<rparr>,
                funcTable := c_funcTable stC,
                nativeSymbols := b_nativeSymbols stB,
                stringTable := c_stringTable stC \<rparr>"
    and m': "m' = mergeInto (makeConsensusMap (c_oldFuncToNewFuncEntries stC)) m0"
    by (rule applySymbolicationStep_InrE)
  let ?es = "c_oldFuncToNewFuncEntries stC"
  let ?old = "\<lambda>f. ft_func (frameTable thread) ! f"
  let ?new = "\<lambda>f. ft_func (frameTable thread') ! f"
  have new: "?new f = c_newFrameTableFuncColumn stC ! f" for f by (simp add: t')
  from stepC_entries_cover[OF C]
  have cover: "\<And>f. f \<in> set (allFramesForThisLib info) \<Longrightarrow> (?old f, ?new f) \<in> set ?es"
    by (simp add: entries_cover_def new)
  have get: "map_of m' k = (case map_of (makeConsensusMap ?es) k of Some v \<Rightarrow> Some v | None \<Rightarrow> map_of m0 k)" for k
    by (simp add: m' map_of_mergeInto distinct_makeConsensusMap)
  have A: "\<forall>es k v. map_of (makeConsensusMap es) k = Some (v :: nat) \<longleftrightarrow>
            (k :: nat, v) \<in> set es \<and> (\<forall>(k', v') \<in> set es. k' = k \<longrightarrow> v' = v)"
    by (simp add: makeConsensusMap_get)
  have B: "\<forall>es1 es2 es3 k v w. v \<noteq> w \<longrightarrow>
            map_of (makeConsensusMap (es1 @ [(k :: nat, v :: nat)] @ es2 @ [(k, w)] @ es3)) k = None"
  proof (intro allI impI)
    fix es1 es2 es3 :: "(nat \<times> nat) list" and k v w :: nat
    assume vw: "v \<noteq> w"
    show "map_of (makeConsensusMap (es1 @ [(k, v)] @ es2 @ [(k, w)] @ es3)) k = None"
    proof (rule ccontr)
      assume "map_of (makeConsensusMap (es1 @ [(k, v)] @ es2 @ [(k, w)] @ es3)) k \<noteq> None"
      then obtain u where "map_of (makeConsensusMap (es1 @ [(k, v)] @ es2 @ [(k, w)] @ es3)) k = Some u"
        by auto
      then have "\<forall>(k', v') \<in> set (es1 @ [(k, v)] @ es2 @ [(k, w)] @ es3). k' = k \<longrightarrow> v' = u"
        unfolding makeConsensusMap_get by blast
      then have "v = u" and "w = u" by auto
      with vw show False by simp
    qed
  qed
  have C1: "\<forall>k v. map_of m' k = Some v \<longrightarrow>
            (\<forall>f \<in> set (allFramesForThisLib info). ?old f = k \<longrightarrow> ?new f = v)"
  proof (intro allI impI ballI)
    fix k v f assume mk: "map_of m' k = Some v" and f: "f \<in> set (allFramesForThisLib info)"
      and k: "?old f = k"
    from fresh f k have "map_of m0 k = None" by auto
    with mk get[of k] have "map_of (makeConsensusMap ?es) k = Some v"
      by (auto split: option.splits)
    then have "\<forall>(k', v') \<in> set ?es. k' = k \<longrightarrow> v' = v" unfolding makeConsensusMap_get by blast
    with cover[OF f] k show "?new f = v" by auto
  qed
  have D: "\<forall>f \<in> set (allFramesForThisLib info). \<forall>g \<in> set (allFramesForThisLib info).
            ?old f = ?old g \<and> ?new f \<noteq> ?new g \<longrightarrow> map_of m' (?old f) = None"
  proof (intro ballI impI)
    fix f g assume f: "f \<in> set (allFramesForThisLib info)" and g: "g \<in> set (allFramesForThisLib info)"
      and fg: "?old f = ?old g \<and> ?new f \<noteq> ?new g"
    show "map_of m' (?old f) = None"
    proof (rule ccontr)
      assume "map_of m' (?old f) \<noteq> None"
      then obtain v where v: "map_of m' (?old f) = Some v" by auto
      from C1 v f have "?new f = v" by blast
      moreover from C1 v g fg have "?new g = v" by metis
      ultimately show False using fg by simp
    qed
  qed
  from A B C1 D show ?thesis by blast
qed

theorem consensus_soundness_witness:
  "applySymbolicationStep split_thread split_info split_results [] = Inr (split_thread', [(1, 1)]) \<and>
   map_of [] (ft_func (frameTable split_thread) ! 0) = (None :: nat option) \<and>
   map_of [] (ft_func (frameTable split_thread) ! 1) = (None :: nat option) \<and>
   map_of [] (ft_func (frameTable split_thread) ! 2) = (None :: nat option) \<and>
   map_of [(1 :: nat, 1 :: nat)] (ft_func (frameTable split_thread) ! 0) = None \<and>
   ft_func (frameTable split_thread') ! 2 = 1"
proof -
  have run: "applySymbolicationStep split_thread split_info split_results [] =
      Inr (split_thread', [(1, 1)])"
    by code_simp
  have fresh: "\<forall>f \<in> set (allFramesForThisLib split_info).
      map_of [] (ft_func (frameTable split_thread) ! f) = None"
    by simp
  note sound = consensus_soundness[OF run fresh]
  have frames: "0 \<in> set (allFramesForThisLib split_info)" "1 \<in> set (allFramesForThisLib split_info)"
    "2 \<in> set (allFramesForThisLib split_info)"
    by (simp_all add: split_info_def)
  have old: "ft_func (frameTable split_thread) ! 0 = ft_func (frameTable split_thread) ! 1"
    and new: "ft_func (frameTable split_thread') ! 0 \<noteq> ft_func (frameTable split_thread') ! 1"
    and old2: "ft_func (frameTable split_thread) ! 2 = 1"
    by (simp_all add: split_thread_def split_thread'_def)
  from sound frames(1,2) old new
  have absent: "map_of [(1 :: nat, 1 :: nat)] (ft_func (frameTable split_thread) ! 0) = None"
    by blast
  have "map_of [(1 :: nat, 1 :: nat)] 1 = Some 1" by simp
  with sound frames(3) old2 have moved: "ft_func (frameTable split_thread') ! 2 = 1"
    by blast
  from run absent moved show ?thesis by simp
qed

text \<open>
  Without the precondition the step does not do this. It only sets the entries of its
  consensus map in the map of the caller and deletes none: with the incoming entry
  \<open>0 \<mapsto> 4\<close>, the old func 0 of the first two frames is still a key of the resulting
  map, mapped to 4, while the two frames end at the funcs 0 and 1.
\<close>

theorem consensus_soundness_counterexample:
  "applySymbolicationStep split_thread split_info split_results [(0, 4)] =
     Inr (split_thread', [(0, 4), (1, 1)]) \<and>
   map_of [(0 :: nat, 4 :: nat), (1, 1)] 0 = Some 4 \<and>
   0 \<in> set (allFramesForThisLib split_info) \<and>
   1 \<in> set (allFramesForThisLib split_info) \<and>
   ft_func (frameTable split_thread) ! 0 = 0 \<and>
   ft_func (frameTable split_thread) ! 1 = 0 \<and>
   ft_func (frameTable split_thread') ! 0 = 0 \<and>
   ft_func (frameTable split_thread') ! 1 = 1"
proof -
  have "applySymbolicationStep split_thread split_info split_results [(0, 4)] =
     Inr (split_thread', [(0, 4), (1, 1)])"
    by code_simp
  then show ?thesis
    by (simp add: split_info_def split_thread_def split_thread'_def)
qed



section \<open>The request aggregator\<close>

lemma set_fold_set_add: "set (fold (\<lambda>x s. set_add s x) xs s) = set s \<union> set xs"
  by (induction xs arbitrary: s) (auto simp: set_set_add)

lemma distinct_fold_set_add: "distinct s \<Longrightarrow> distinct (fold (\<lambda>x s. set_add s x) xs s)"
  by (induction xs arbitrary: s) (auto simp: distinct_set_add)

lemma fold_fold_concat: "fold (\<lambda>xs m. fold g xs m) xss m = fold g (concat xss) m"
  by (induction xss arbitrary: m) simp_all

lemma libKeyToAddressesMap_concat:
  "libKeyToAddressesMap infos = fold (\<lambda>entry m. addAddresses m entry) (concat infos) []"
  by (simp add: libKeyToAddressesMap_def fold_fold_concat)

definition addressSets_ok :: "(LibKey, int option js_set) js_map \<Rightarrow> bool" where
  "addressSets_ok m \<longleftrightarrow> distinct (map fst m) \<and> (\<forall>k a. map_of m k = Some a \<longrightarrow> distinct a)"

lemma addAddresses_keys: "fst ` set (addAddresses m e) = insert (fst e) (fst ` set m)"
proof -
  have "dom (map_of (addAddresses m e)) = insert (fst e) (dom (map_of m))"
    by (simp add: addAddresses_def Let_def update_conv')
  then show ?thesis by (simp add: dom_map_of_conv_image_fst)
qed

lemma addAddresses_get:
  "map_of (addAddresses m e) k =
     (if k = fst e
      then Some (fold (\<lambda>x s. set_add s x) (frameAddresses (snd e))
             (case map_of m k of None \<Rightarrow> [] | Some s \<Rightarrow> s))
      else map_of m k)"
  by (simp add: addAddresses_def Let_def update_conv')

lemma addAddresses_ok: "addressSets_ok m \<Longrightarrow> addressSets_ok (addAddresses m e)"
  unfolding addressSets_ok_def
proof (intro conjI allI impI)
  assume "distinct (map fst m) \<and> (\<forall>k a. map_of m k = Some a \<longrightarrow> distinct a)"
  then show "distinct (map fst (addAddresses m e))"
    by (simp add: addAddresses_def Let_def distinct_update)
next
  fix k a
  assume ok: "distinct (map fst m) \<and> (\<forall>k a. map_of m k = Some a \<longrightarrow> distinct a)"
    and get: "map_of (addAddresses m e) k = Some a"
  show "distinct a"
  proof (cases "k = fst e")
    case True
    have "distinct (case map_of m k of None \<Rightarrow> [] | Some s \<Rightarrow> s)"
      using ok by (auto split: option.splits)
    with get True show ?thesis by (auto simp: addAddresses_get distinct_fold_set_add)
  next
    case False
    with get ok show ?thesis by (auto simp: addAddresses_get)
  qed
qed

lemma fold_addAddresses_keys:
  "fst ` set (fold (\<lambda>e m. addAddresses m e) es m) = fst ` set m \<union> fst ` set es"
  by (induction es arbitrary: m) (auto simp: addAddresses_keys)

lemma fold_addAddresses_ok:
  "addressSets_ok m \<Longrightarrow> addressSets_ok (fold (\<lambda>e m. addAddresses m e) es m)"
  by (induction es arbitrary: m) (auto simp: addAddresses_ok)

lemma fold_addAddresses_get:
  "set (case map_of (fold (\<lambda>e m. addAddresses m e) es m) k of None \<Rightarrow> [] | Some s \<Rightarrow> s) =
     set (case map_of m k of None \<Rightarrow> [] | Some s \<Rightarrow> s) \<union>
     (\<Union>info \<in> {info. (k, info) \<in> set es}. set (frameAddresses info))"
proof (induction es arbitrary: m)
  case Nil
  show ?case by simp
next
  case (Cons e es)
  obtain k' info' where e: "e = (k', info')" by (cases e)
  show ?case
    by (simp add: Cons.IH addAddresses_get e set_fold_set_add) (auto split: option.splits)
qed

definition agg_info :: "int option list \<Rightarrow> ThreadLibSymbolicationInfo" where
  "agg_info addrs = \<lparr> resourceIndex = 0, libIndex = 0, allFuncsForThisLib = [],
     allNativeSymbolsForThisLib = [], allFramesForThisLib = [], frameAddresses = addrs \<rparr>"

definition agg_infos :: "ThreadSymbolicationInfo list" where
  "agg_infos =
     [[(''xul.pdb/AA'', agg_info [Some 0, Some 10, Some 0])],
      [(''nss.pdb/BB'', agg_info [Some 5]), (''xul.pdb/AA'', agg_info [Some 10, Some 20])]]"

text \<open>
  C9. The requests are the entries of the map from library key to address set, one after
  the other; the keys of that map are distinct and are exactly the keys of the threads'
  maps, so there is one request per distinct key; and the address set of a key has no
  duplicates and holds exactly the frame addresses recorded for that key in any thread.
\<close>

theorem request_aggregation:
  "buildLibSymbolicationRequestsForAllThreads infos =
     map (\<lambda>(libKey, addrs). \<lparr> lib = splitLibKey libKey, addresses = addrs \<rparr>)
       (libKeyToAddressesMap infos) \<and>
   distinct (map fst (libKeyToAddressesMap infos)) \<and>
   fst ` set (libKeyToAddressesMap infos) = (\<Union>i \<in> set infos. fst ` set i) \<and>
   length (buildLibSymbolicationRequestsForAllThreads infos) = card (\<Union>i \<in> set infos. fst ` set i) \<and>
   (\<forall>(libKey, addrs) \<in> set (libKeyToAddressesMap infos). distinct addrs \<and>
      set addrs = (\<Union>i \<in> set infos. \<Union>info \<in> {info. (libKey, info) \<in> set i}.
                     set (frameAddresses info)))"
proof -
  define M where "M = libKeyToAddressesMap infos"
  have M: "M = fold (\<lambda>entry m. addAddresses m entry) (concat infos) []"
    by (simp add: M_def libKeyToAddressesMap_concat)
  have ok: "addressSets_ok M"
    unfolding M by (rule fold_addAddresses_ok) (simp add: addressSets_ok_def)
  then have d: "distinct (map fst M)" by (simp add: addressSets_ok_def)
  have keys: "fst ` set M = (\<Union>i \<in> set infos. fst ` set i)"
    unfolding M fold_addAddresses_keys by auto
  have req: "buildLibSymbolicationRequestsForAllThreads infos =
           map (\<lambda>(libKey, addrs). \<lparr> lib = splitLibKey libKey, addresses = addrs \<rparr>) M"
    by (simp add: buildLibSymbolicationRequestsForAllThreads_def M_def)
  have "length (buildLibSymbolicationRequestsForAllThreads infos) = length (map fst M)"
    by (simp add: req)
  also have "\<dots> = card (set (map fst M))" using distinct_card[OF d] by simp
  also have "\<dots> = card (\<Union>i \<in> set infos. fst ` set i)" using keys by simp
  finally have len: "length (buildLibSymbolicationRequestsForAllThreads infos) =
      card (\<Union>i \<in> set infos. fst ` set i)" .
  have vals: "\<forall>(libKey, addrs) \<in> set M. distinct addrs \<and>
            set addrs = (\<Union>i \<in> set infos. \<Union>info \<in> {info. (libKey, info) \<in> set i}.
                           set (frameAddresses info))"
  proof (intro ballI, clarify)
    fix k a assume "(k, a) \<in> set M"
    with d have get: "map_of M k = Some a" by simp
    with ok have da: "distinct a" by (auto simp: addressSets_ok_def)
    from fold_addAddresses_get[of "concat infos" "[]" k] get
    have "set a = (\<Union>info \<in> {info. (k, info) \<in> set (concat infos)}. set (frameAddresses info))"
      by (simp add: M)
    also have "\<dots> = (\<Union>i \<in> set infos. \<Union>info \<in> {info. (k, info) \<in> set i}. set (frameAddresses info))"
      by auto
    finally show "distinct a \<and> set a = (\<Union>i \<in> set infos. \<Union>info \<in> {info. (k, info) \<in> set i}.
                           set (frameAddresses info))"
      using da by simp
  qed
  from req d keys len vals show ?thesis unfolding M_def by blast
qed

theorem request_aggregation_witness:
  "libKeyToAddressesMap agg_infos =
     [(''xul.pdb/AA'', [Some 0, Some 10, Some 20]), (''nss.pdb/BB'', [Some 5])] \<and>
   length (buildLibSymbolicationRequestsForAllThreads agg_infos) = 2 \<and>
   set [Some 0, Some 10, Some (20 :: int)] =
     set (frameAddresses (agg_info [Some 0, Some 10, Some 0])) \<union>
     set (frameAddresses (agg_info [Some 10, Some 20]))"
proof -
  have M: "libKeyToAddressesMap agg_infos =
     [(''xul.pdb/AA'', [Some 0, Some 10, Some 20]), (''nss.pdb/BB'', [Some 5])]"
    by code_simp
  note agg = request_aggregation[of agg_infos]
  from agg have "length (buildLibSymbolicationRequestsForAllThreads agg_infos) =
      length (libKeyToAddressesMap agg_infos)"
    by simp
  with M have len: "length (buildLibSymbolicationRequestsForAllThreads agg_infos) = 2" by simp
  from agg M have "set [Some 0, Some 10, Some (20 :: int)] =
      (\<Union>i \<in> set agg_infos. \<Union>info \<in> {info. (''xul.pdb/AA'', info) \<in> set i}.
         set (frameAddresses info))"
    by simp
  also have "\<dots> = set (frameAddresses (agg_info [Some 0, Some 10, Some 0])) \<union>
     set (frameAddresses (agg_info [Some 10, Some 20]))"
    by (auto simp: agg_infos_def)
  finally show ?thesis using M len by blast
qed

section \<open>Failure of the address collector\<close>

lemma set_alist_update_subset: "set (AList.update k v al) \<subseteq> insert (k, v) (set al)"
  by (induction al) auto

definition dangling_lib :: "Thread \<Rightarrow> nat \<Rightarrow> bool" where
  "dangling_lib thread rix \<longleftrightarrow>
     js_index (rt_type (resourceTable thread)) rix = Some library \<and>
     (\<exists>li. js_index (rt_lib (resourceTable thread)) rix = Some (Some li) \<and> li \<noteq> - 1 \<and>
           (li < 0 \<or> length (libs thread) \<le> nat li))"

definition usable_lib :: "Thread \<Rightarrow> nat \<Rightarrow> nat \<Rightarrow> bool" where
  "usable_lib thread rix lix \<longleftrightarrow>
     js_index (rt_type (resourceTable thread)) rix = Some library \<and>
     js_index (rt_lib (resourceTable thread)) rix = Some (Some (int lix)) \<and>
     lix < length (libs thread)"

definition from_lib_row :: "Thread \<Rightarrow> LibKey \<times> ThreadLibSymbolicationInfo \<Rightarrow> bool" where
  "from_lib_row thread entry \<longleftrightarrow>
     resourceIndex (snd entry) < rt_length (resourceTable thread) \<and>
     usable_lib thread (resourceIndex (snd entry)) (libIndex (snd entry)) \<and>
     fst entry = mkLibKey (debugName (libs thread ! libIndex (snd entry)))
                   (breakpadId (libs thread ! libIndex (snd entry)))"

lemma collector_row_cases:
  obtains (throw) "dangling_lib thread rix"
  | (add) lix where "usable_lib thread rix lix"
  | (skip) "\<not> dangling_lib thread rix" "\<forall>lix. \<not> usable_lib thread rix lix"
  by blast

lemma collector_loop_throw:
  "dangling_lib thread rix \<Longrightarrow>
   getThreadSymbolicationInfo_loop thread (rix # rest) m = Inl Did_not_find_a_lib"
  by (auto simp: dangling_lib_def)

lemma collector_loop_add:
  assumes "usable_lib thread rix lix"
  shows "getThreadSymbolicationInfo_loop thread (rix # rest) m =
     getThreadSymbolicationInfo_loop thread rest
       (AList.update (mkLibKey (debugName (libs thread ! lix)) (breakpadId (libs thread ! lix)))
          (collectInfo thread rix lix) m)"
proof -
  from assms have t: "js_index (rt_type (resourceTable thread)) rix = Some library"
    and l: "js_index (rt_lib (resourceTable thread)) rix = Some (Some (int lix))"
    and b: "lix < length (libs thread)"
    by (simp_all add: usable_lib_def)
  have n: "int lix \<noteq> - 1" by simp
  show ?thesis using t l b n by (simp add: Let_def)
qed

lemma usable_not_dangling: "usable_lib thread rix lix \<Longrightarrow> \<not> dangling_lib thread rix"
  by (auto simp: usable_lib_def dangling_lib_def)

lemma collector_loop_skip:
  assumes nd: "\<not> dangling_lib thread rix" and nu: "\<forall>lix. \<not> usable_lib thread rix lix"
  shows "getThreadSymbolicationInfo_loop thread (rix # rest) m =
     getThreadSymbolicationInfo_loop thread rest m"
proof (cases "js_index (rt_type (resourceTable thread)) rix = Some library")
  case False
  then show ?thesis by simp
next
  case t: True
  show ?thesis
  proof (cases "js_index (rt_lib (resourceTable thread)) rix")
    case None
    with t show ?thesis by simp
  next
    case (Some a)
    show ?thesis
    proof (cases a)
      case None
      with t Some show ?thesis by simp
    next
      case (Some li)
      note l = \<open>js_index (rt_lib (resourceTable thread)) rix = Some a\<close>[unfolded Some]
      show ?thesis
      proof (cases "li = - 1")
        case True
        with t l show ?thesis by simp
      next
        case False
        with nd t l have range: "0 \<le> li" "nat li < length (libs thread)"
          by (auto simp: dangling_lib_def)
        then have "usable_lib thread rix (nat li)" using t l by (simp add: usable_lib_def)
        with nu show ?thesis by blast
      qed
    qed
  qed
qed

lemma collector_loop_throws:
  "getThreadSymbolicationInfo_loop thread rs m = Inl Did_not_find_a_lib \<longleftrightarrow>
     (\<exists>rix \<in> set rs. dangling_lib thread rix)"
proof (induction rs arbitrary: m)
  case Nil
  show ?case by simp
next
  case (Cons rix rest)
  show ?case
  proof (cases rule: collector_row_cases[of thread rix])
    case throw
    then show ?thesis by (simp add: collector_loop_throw del: getThreadSymbolicationInfo_loop.simps)
  next
    case (add lix)
    then show ?thesis
      by (simp add: collector_loop_add Cons.IH usable_not_dangling del: getThreadSymbolicationInfo_loop.simps)
  next
    case skip
    then show ?thesis
      by (simp add: collector_loop_skip Cons.IH del: getThreadSymbolicationInfo_loop.simps)
  qed
qed

lemma collector_loop_entries:
  "getThreadSymbolicationInfo_loop thread rs m = Inr m' \<Longrightarrow>
   \<forall>rix \<in> set rs. rix < rt_length (resourceTable thread) \<Longrightarrow>
   \<forall>e \<in> set m. from_lib_row thread e \<Longrightarrow> \<forall>e \<in> set m'. from_lib_row thread e"
proof (induction rs arbitrary: m)
  case Nil
  then show ?case by simp
next
  case (Cons rix rest)
  from Cons.prems(2) have rest: "\<forall>rix \<in> set rest. rix < rt_length (resourceTable thread)"
    and rix: "rix < rt_length (resourceTable thread)" by simp_all
  show ?case
  proof (cases rule: collector_row_cases[of thread rix])
    case throw
    with Cons.prems(1) show ?thesis
      by (simp add: collector_loop_throw del: getThreadSymbolicationInfo_loop.simps)
  next
    case (add lix)
    let ?k = "mkLibKey (debugName (libs thread ! lix)) (breakpadId (libs thread ! lix))"
    let ?m = "AList.update ?k (collectInfo thread rix lix) m"
    have new: "from_lib_row thread (?k, collectInfo thread rix lix)"
      using add rix by (simp add: from_lib_row_def collectInfo_def Let_def)
    have all: "\<forall>e \<in> set ?m. from_lib_row thread e"
      using Cons.prems(3) new set_alist_update_subset[of ?k "collectInfo thread rix lix" m]
      by auto
    have run: "getThreadSymbolicationInfo_loop thread rest ?m = Inr m'"
      using Cons.prems(1) add
      by (simp add: collector_loop_add del: getThreadSymbolicationInfo_loop.simps)
    from Cons.IH[OF run rest all] show ?thesis .
  next
    case skip
    then have "getThreadSymbolicationInfo_loop thread rest m = Inr m'"
      using Cons.prems(1) by (simp add: collector_loop_skip del: getThreadSymbolicationInfo_loop.simps)
    from Cons.IH[OF this rest Cons.prems(3)] show ?thesis .
  qed
qed

definition dangling_thread :: Thread where
  "dangling_thread = \<lparr> libs = [\<lparr> debugName = ''firefox.pdb'', breakpadId = ''00'' \<rparr>],
     frameTable = \<lparr> ft_address = [], ft_func = [], ft_nativeSymbol = [], ft_line = [], ft_length = 0 \<rparr>,
     funcTable = \<lparr> fn_name = [], fn_fileName = [], fn_resource = [], fn_isJS = [],
       fn_relevantForJS = [], fn_lineNumber = [], fn_columnNumber = [], fn_length = 0 \<rparr>,
     nativeSymbols = \<lparr> ns_libIndex = [], ns_address = [], ns_name = [], ns_length = 0 \<rparr>,
     resourceTable = \<lparr> rt_type = [library, library], rt_lib = [Some 0, Some 1], rt_length = 2 \<rparr>,
     stringTable = [] \<rparr>"

definition skipped_thread :: Thread where
  "skipped_thread = dangling_thread
     \<lparr> resourceTable := \<lparr> rt_type = [library, library, library, otherResourceType 2],
                          rt_lib = [None, Some (- 1)], rt_length = 4 \<rparr> \<rparr>"

text \<open>
  C8. The collector throws exactly when some resource row below \<open>resourceTable.length\<close>
  is of kind library and has a lib index that is a number other than \<open>-1\<close> with no
  row in \<open>libs\<close>. When it returns, every entry of the map comes from a library row
  whose lib index is the index of a lib row; and when every library row has the lib index
  \<open>undefined\<close>, \<open>null\<close> or \<open>-1\<close>, it returns the empty map.
\<close>

theorem collector_failure:
  "(getThreadSymbolicationInfo thread = Inl Did_not_find_a_lib \<longleftrightarrow>
      (\<exists>rix < rt_length (resourceTable thread). dangling_lib thread rix)) \<and>
   (\<forall>m. getThreadSymbolicationInfo thread = Inr m \<longrightarrow> (\<forall>e \<in> set m. from_lib_row thread e)) \<and>
   ((\<forall>rix < rt_length (resourceTable thread).
        js_index (rt_type (resourceTable thread)) rix = Some library \<longrightarrow>
        js_index (rt_lib (resourceTable thread)) rix \<in> {None, Some None, Some (Some (- 1))}) \<longrightarrow>
      getThreadSymbolicationInfo thread = Inr [])"
proof -
  have throws: "getThreadSymbolicationInfo thread = Inl Did_not_find_a_lib \<longleftrightarrow>
      (\<exists>rix < rt_length (resourceTable thread). dangling_lib thread rix)"
    unfolding getThreadSymbolicationInfo_def collector_loop_throws by auto
  have entries: "\<forall>m. getThreadSymbolicationInfo thread = Inr m \<longrightarrow> (\<forall>e \<in> set m. from_lib_row thread e)"
    unfolding getThreadSymbolicationInfo_def using collector_loop_entries[of thread _ "[]"] by auto
  have skipped: "getThreadSymbolicationInfo thread = Inr []"
    if skip: "\<forall>rix < rt_length (resourceTable thread).
        js_index (rt_type (resourceTable thread)) rix = Some library \<longrightarrow>
        js_index (rt_lib (resourceTable thread)) rix \<in> {None, Some None, Some (Some (- 1))}"
  proof -
    from skip have "\<not> (\<exists>rix < rt_length (resourceTable thread). dangling_lib thread rix)"
      by (auto simp: dangling_lib_def)
    with throws obtain m where m: "getThreadSymbolicationInfo thread = Inr m"
      by (cases "getThreadSymbolicationInfo thread") (auto intro: collector_error.exhaust)
    have "m = []"
    proof (cases m)
      case Nil
      then show ?thesis .
    next
      case (Cons e es)
      with entries m have "from_lib_row thread e" by simp
      then have "resourceIndex (snd e) < rt_length (resourceTable thread)"
        and "usable_lib thread (resourceIndex (snd e)) (libIndex (snd e))"
        by (simp_all add: from_lib_row_def)
      with skip show ?thesis by (auto simp: usable_lib_def)
    qed
    with m show ?thesis by simp
  qed
  from throws entries skipped show ?thesis by blast
qed

theorem collector_failure_witness:
  "dangling_lib dangling_thread 1 \<and>
   getThreadSymbolicationInfo dangling_thread = Inl Did_not_find_a_lib \<and>
   getThreadSymbolicationInfo skipped_thread = Inr []"
proof -
  have d: "dangling_lib dangling_thread 1"
    by (simp add: dangling_lib_def dangling_thread_def js_index_def)
  have "(1 :: nat) < rt_length (resourceTable dangling_thread)"
    by (simp add: dangling_thread_def)
  with d collector_failure[of dangling_thread]
  have throws: "getThreadSymbolicationInfo dangling_thread = Inl Did_not_find_a_lib"
    by blast
  have "\<forall>rix < rt_length (resourceTable skipped_thread).
        js_index (rt_type (resourceTable skipped_thread)) rix = Some library \<longrightarrow>
        js_index (rt_lib (resourceTable skipped_thread)) rix \<in> {None, Some None, Some (Some (- 1))}"
    by (auto simp: skipped_thread_def js_index_def nth_Cons' split: if_splits)
  with collector_failure[of skipped_thread]
  have "getThreadSymbolicationInfo skipped_thread = Inr []"
    by blast
  with d throws show ?thesis by blast
qed

section \<open>Library keys\<close>

lemma split_on_nonempty: "split_on c s \<noteq> []"
  by (induction s) auto

lemma hd_split_on: "hd (split_on c s) = takeWhile (\<lambda>x. x \<noteq> c) s"
  by (induction s) auto

lemma split_on_append:
  "c \<notin> set a \<Longrightarrow> split_on c (a @ c # b) = a # split_on c b"
  by (induction a) auto

lemma takeWhile_no_slash: "c \<notin> set s \<Longrightarrow> takeWhile (\<lambda>x. x \<noteq> c) s = s"
  by (induction s) auto

lemma splitLibKey_mkLibKey:
  assumes "CHR ''/'' \<notin> set dn"
  shows "splitLibKey (mkLibKey dn bid) =
     \<lparr> rl_debugName = dn, rl_breakpadId = Some (takeWhile (\<lambda>x. x \<noteq> CHR ''/'') bid) \<rparr>"
proof -
  have "split_on CHR ''/'' (mkLibKey dn bid) = dn # split_on CHR ''/'' bid"
    using split_on_append[OF assms, of bid] by (simp add: mkLibKey_def)
  moreover obtain p ps where "split_on CHR ''/'' bid = p # ps"
    using split_on_nonempty[of "CHR ''/''" bid] by (cases "split_on CHR ''/'' bid") auto
  moreover from this have "p = takeWhile (\<lambda>x. x \<noteq> CHR ''/'') bid"
    using hd_split_on[of "CHR ''/''" bid] by simp
  ultimately show ?thesis by (simp add: splitLibKey_def js_index_def)
qed

lemma splitLibKey_slash_in_debugName:
  assumes "CHR ''/'' \<in> set dn"
  shows "rl_debugName (splitLibKey (mkLibKey dn bid)) \<noteq> dn"
proof -
  have "rl_debugName (splitLibKey (mkLibKey dn bid)) = takeWhile (\<lambda>x. x \<noteq> CHR ''/'') dn"
    using assms by (simp add: splitLibKey_def hd_split_on mkLibKey_def takeWhile_append1)
  moreover have "takeWhile (\<lambda>x. x \<noteq> CHR ''/'') dn \<noteq> dn"
    using assms by (simp add: takeWhile_eq_all_conv)
  ultimately show ?thesis by simp
qed

definition scenario_thread :: Thread where
  "scenario_thread = \<lparr> libs = [\<lparr> debugName = ''firefox.pdb'', breakpadId = ''00'' \<rparr>],
     frameTable = \<lparr> ft_address = [0, 10], ft_func = [0, 1], ft_nativeSymbol = [None, None],
       ft_line = [None, None], ft_length = 2 \<rparr>,
     funcTable = \<lparr> fn_name = [0, 1], fn_fileName = [None, None], fn_resource = [0, 0],
       fn_isJS = [False, False], fn_relevantForJS = [False, False],
       fn_lineNumber = [None, None], fn_columnNumber = [None, None], fn_length = 2 \<rparr>,
     nativeSymbols = \<lparr> ns_libIndex = [], ns_address = [], ns_name = [], ns_length = 0 \<rparr>,
     resourceTable = \<lparr> rt_type = [library], rt_lib = [Some 0], rt_length = 1 \<rparr>,
     stringTable = [''0x0'', ''0xa''] \<rparr>"

definition scenario_info :: ThreadLibSymbolicationInfo where
  "scenario_info = \<lparr> resourceIndex = 0, libIndex = 0, allFuncsForThisLib = [0, 1],
     allNativeSymbolsForThisLib = [], allFramesForThisLib = [0, 1],
     frameAddresses = [Some 0, Some 10] \<rparr>"

text \<open>
  C10, as amended. When neither the debug name nor the breakpad id contains a slash,
  splitting the key \<open>debugName/breakpadId\<close> gives back the pair, and then the lib of
  every request built from a thread's collector output is the pair of one of the thread's
  lib rows. When the debug name contains a slash, the debug name of the split key differs
  from it.
\<close>

theorem libKey_round_trip:
  "(CHR ''/'' \<notin> set dn \<and> CHR ''/'' \<notin> set bid \<longrightarrow>
      splitLibKey (mkLibKey dn bid) = \<lparr> rl_debugName = dn, rl_breakpadId = Some bid \<rparr>) \<and>
   (CHR ''/'' \<in> set dn \<longrightarrow> rl_debugName (splitLibKey (mkLibKey dn bid)) \<noteq> dn) \<and>
   (getThreadSymbolicationInfo thread = Inr m \<and>
    (\<forall>l \<in> set (libs thread). CHR ''/'' \<notin> set (debugName l) \<and> CHR ''/'' \<notin> set (breakpadId l)) \<longrightarrow>
      (\<forall>r \<in> set (buildLibSymbolicationRequestsForAllThreads [m]).
         \<exists>l \<in> set (libs thread).
           lib r = \<lparr> rl_debugName = debugName l, rl_breakpadId = Some (breakpadId l) \<rparr>))"
proof (intro conjI impI)
  assume "CHR ''/'' \<notin> set dn \<and> CHR ''/'' \<notin> set bid"
  then show "splitLibKey (mkLibKey dn bid) = \<lparr> rl_debugName = dn, rl_breakpadId = Some bid \<rparr>"
    by (simp add: splitLibKey_mkLibKey takeWhile_no_slash)
next
  assume "CHR ''/'' \<in> set dn"
  then show "rl_debugName (splitLibKey (mkLibKey dn bid)) \<noteq> dn"
    by (rule splitLibKey_slash_in_debugName)
next
  assume a: "getThreadSymbolicationInfo thread = Inr m \<and>
    (\<forall>l \<in> set (libs thread). CHR ''/'' \<notin> set (debugName l) \<and> CHR ''/'' \<notin> set (breakpadId l))"
  show "\<forall>r \<in> set (buildLibSymbolicationRequestsForAllThreads [m]).
         \<exists>l \<in> set (libs thread).
           lib r = \<lparr> rl_debugName = debugName l, rl_breakpadId = Some (breakpadId l) \<rparr>"
  proof
    fix r assume "r \<in> set (buildLibSymbolicationRequestsForAllThreads [m])"
    then obtain k addrs where ka: "(k, addrs) \<in> set (libKeyToAddressesMap [m])"
      and r: "r = \<lparr> lib = splitLibKey k, addresses = addrs \<rparr>"
      by (auto simp: buildLibSymbolicationRequestsForAllThreads_def)
    from ka have "k \<in> fst ` set (libKeyToAddressesMap [m])" by force
    then have "k \<in> fst ` set m"
      by (simp add: libKeyToAddressesMap_concat fold_addAddresses_keys)
    then obtain info where e: "(k, info) \<in> set m" by auto
    from collector_loop_entries[of thread "[0 ..< rt_length (resourceTable thread)]" "[]" m] a e
    have "from_lib_row thread (k, info)"
      by (auto simp: getThreadSymbolicationInfo_def)
    then have lt: "libIndex info < length (libs thread)"
      and k: "k = mkLibKey (debugName (libs thread ! libIndex info)) (breakpadId (libs thread ! libIndex info))"
      by (simp_all add: from_lib_row_def usable_lib_def)
    let ?l = "libs thread ! libIndex info"
    from lt have mem: "?l \<in> set (libs thread)" by simp
    with a have "CHR ''/'' \<notin> set (debugName ?l)" "CHR ''/'' \<notin> set (breakpadId ?l)" by auto
    then have "splitLibKey k = \<lparr> rl_debugName = debugName ?l, rl_breakpadId = Some (breakpadId ?l) \<rparr>"
      by (simp add: k splitLibKey_mkLibKey takeWhile_no_slash)
    with r mem show "\<exists>l \<in> set (libs thread).
           lib r = \<lparr> rl_debugName = debugName l, rl_breakpadId = Some (breakpadId l) \<rparr>"
      by auto
  qed
qed


theorem libKey_round_trip_witness:
  "splitLibKey (mkLibKey ''firefox.pdb'' ''00'') =
     \<lparr> rl_debugName = ''firefox.pdb'', rl_breakpadId = Some ''00'' \<rparr> \<and>
   rl_debugName (splitLibKey (mkLibKey ''a/b'' ''00'')) \<noteq> ''a/b'' \<and>
   getThreadSymbolicationInfo scenario_thread = Inr [(''firefox.pdb/00'', scenario_info)] \<and>
   map lib (buildLibSymbolicationRequestsForAllThreads [[(''firefox.pdb/00'', scenario_info)]]) =
     [\<lparr> rl_debugName = ''firefox.pdb'', rl_breakpadId = Some ''00'' \<rparr>]"
proof -
  have c: "getThreadSymbolicationInfo scenario_thread = Inr [(''firefox.pdb/00'', scenario_info)]"
    by code_simp
  have s: "\<forall>l \<in> set (libs scenario_thread).
      CHR ''/'' \<notin> set (debugName l) \<and> CHR ''/'' \<notin> set (breakpadId l)"
    by (simp add: scenario_thread_def)
  note rt = libKey_round_trip[of "''firefox.pdb''" "''00''" scenario_thread
      "[(''firefox.pdb/00'', scenario_info)]"]
  have one: "splitLibKey (mkLibKey ''firefox.pdb'' ''00'') =
     \<lparr> rl_debugName = ''firefox.pdb'', rl_breakpadId = Some ''00'' \<rparr>"
    using rt by simp
  have two: "rl_debugName (splitLibKey (mkLibKey ''a/b'' ''00'')) \<noteq> ''a/b''"
    using libKey_round_trip[of "''a/b''" "''00''" scenario_thread "[]"] by simp
  from rt c s have "\<forall>r \<in> set (buildLibSymbolicationRequestsForAllThreads [[(''firefox.pdb/00'', scenario_info)]]).
         \<exists>l \<in> set (libs scenario_thread).
           lib r = \<lparr> rl_debugName = debugName l, rl_breakpadId = Some (breakpadId l) \<rparr>"
    by blast
  moreover have "length (buildLibSymbolicationRequestsForAllThreads [[(''firefox.pdb/00'', scenario_info)]]) = 1"
    by code_simp
  ultimately have three: "map lib (buildLibSymbolicationRequestsForAllThreads [[(''firefox.pdb/00'', scenario_info)]]) =
     [\<lparr> rl_debugName = ''firefox.pdb'', rl_breakpadId = Some ''00'' \<rparr>]"
    by (cases "buildLibSymbolicationRequestsForAllThreads [[(''firefox.pdb/00'', scenario_info)]]")
       (auto simp: scenario_thread_def)
  from one two c three show ?thesis by blast
qed

text \<open>
  The claim as it was stated asks nothing of the breakpad id; a breakpad id with a slash
  is cut at the slash.
\<close>

theorem libKey_round_trip_counterexample:
  "CHR ''/'' \<notin> set ''a'' \<and>
   splitLibKey (mkLibKey ''a'' ''b/c'') \<noteq> \<lparr> rl_debugName = ''a'', rl_breakpadId = Some ''b/c'' \<rparr>"
  by (simp add: splitLibKey_def mkLibKey_def js_index_def)


section \<open>The first loop over the frames\<close>

lemma stepA_frame_Inr:
  assumes "stepA_frame thread R st f = Inr st'"
  shows "\<exists>old r. stepA_resolve thread R f = Inr (old, r) \<and>
    frameToSymbolAddressMap st' = AList.update f (symbolAddress r) (frameToSymbolAddressMap st) \<and>
    symbolAddressToNameMap st' = AList.update (symbolAddress r) (ar_name r) (symbolAddressToNameMap st)"
  using assms unfolding stepA_frame_def sbind_eq_Inr
  by (auto simp: Let_def split: option.splits if_splits)

definition stepA_covers :: "Thread \<Rightarrow> (int \<rightharpoonup> AddressResult) \<Rightarrow> nat list \<Rightarrow> stepA_state \<Rightarrow> bool" where
  "stepA_covers thread R pre st \<longleftrightarrow>
     fst ` set (frameToSymbolAddressMap st) = set pre \<and>
     distinct (map fst (frameToSymbolAddressMap st)) \<and>
     (\<forall>f \<in> set pre. \<exists>old r. stepA_resolve thread R f = Inr (old, r) \<and>
        map_of (frameToSymbolAddressMap st) f = Some (symbolAddress r) \<and>
        map_of (symbolAddressToNameMap st) (symbolAddress r) \<noteq> None)"

lemma stepA_covers_step:
  assumes inv: "stepA_covers thread R pre st" and step: "stepA_frame thread R st f = Inr st'"
  shows "stepA_covers thread R (pre @ [f]) st'"
proof -
  from step obtain old r where res: "stepA_resolve thread R f = Inr (old, r)"
    and f2s: "frameToSymbolAddressMap st' = AList.update f (symbolAddress r) (frameToSymbolAddressMap st)"
    and s2n: "symbolAddressToNameMap st' = AList.update (symbolAddress r) (ar_name r) (symbolAddressToNameMap st)"
    using stepA_frame_Inr by blast
  show ?thesis
    unfolding stepA_covers_def
  proof (intro conjI ballI)
    show "fst ` set (frameToSymbolAddressMap st') = set (pre @ [f])"
      using inv by (auto simp: stepA_covers_def f2s dom_update)
    show "distinct (map fst (frameToSymbolAddressMap st'))"
      using inv by (simp add: stepA_covers_def f2s distinct_update)
  next
    fix g assume g: "g \<in> set (pre @ [f])"
    show "\<exists>old r. stepA_resolve thread R g = Inr (old, r) \<and>
        map_of (frameToSymbolAddressMap st') g = Some (symbolAddress r) \<and>
        map_of (symbolAddressToNameMap st') (symbolAddress r) \<noteq> None"
    proof (cases "g = f")
      case True
      with res show ?thesis by (auto simp: f2s s2n update_conv')
    next
      case False
      with g inv obtain old' r' where "stepA_resolve thread R g = Inr (old', r')"
        "map_of (frameToSymbolAddressMap st) g = Some (symbolAddress r')"
        "map_of (symbolAddressToNameMap st) (symbolAddress r') \<noteq> None"
        by (auto simp: stepA_covers_def)
      with False show ?thesis by (auto simp: f2s s2n update_conv')
    qed
  qed
qed

lemma stepA_covers_all:
  assumes "stepA thread info R = Inr stA"
  shows "stepA_covers thread R (allFramesForThisLib info) stA"
proof -
  have "stepA_covers thread R [] (stepA_init info)"
    by (simp add: stepA_covers_def stepA_init_def)
  from for_of_prefix_invariant[where P = "stepA_covers thread R", OF assms[unfolded stepA_def] this]
  show ?thesis using stepA_covers_step by blast
qed

text \<open>The loop that writes the new \<open>nativeSymbol\<close> column.\<close>

definition assigned :: "(int, nat) js_map \<Rightarrow> (nat \<times> int) list \<Rightarrow> nat option list \<Rightarrow> bool" where
  "assigned canonical pre column \<longleftrightarrow>
     (distinct (map fst pre) \<longrightarrow>
       (\<forall>(f, sa) \<in> set pre. f < length column \<and> map_of canonical sa \<noteq> None \<and>
          column ! f = map_of canonical sa))"

lemma assigned_step:
  assumes inv: "assigned canonical pre column"
    and step: "assignNativeSymbol canonical column e = Inr column'"
  shows "assigned canonical (pre @ [e]) column'"
  unfolding assigned_def
proof (intro impI ballI)
  fix x assume d: "distinct (map fst (pre @ [e]))" and x: "x \<in> set (pre @ [e])"
  obtain f sa where e: "e = (f, sa)" by (cases e)
  from step e obtain i where i: "map_of canonical sa = Some i"
    and st: "store_at column f (Some i) = Inr column'"
    by (auto simp: assignNativeSymbol_def split: option.splits)
  from st have col': "(f < length column \<and> column' = column[f := Some i]) \<or>
      (f = length column \<and> column' = column @ [Some i])"
    by (simp add: store_at_Inr)
  show "case x of (g, sb) \<Rightarrow> g < length column' \<and> map_of canonical sb \<noteq> None \<and>
          column' ! g = map_of canonical sb"
  proof (cases "x = e")
    case True
    with e i col' show ?thesis by auto
  next
    case False
    with x have xin: "x \<in> set pre" by simp
    obtain g sb where xg: "x = (g, sb)" by (cases x)
    from d xin xg e have "g \<noteq> f" by force
    moreover from inv d xin xg have "g < length column \<and> map_of canonical sb \<noteq> None \<and>
          column ! g = map_of canonical sb"
      by (auto simp: assigned_def)
    ultimately show ?thesis using col' xg by (auto simp: nth_append)
  qed
qed

lemma assigned_all:
  assumes "for_of (assignNativeSymbol canonical) es column = Inr column'"
    and "distinct (map fst es)"
  shows "\<forall>(f, sa) \<in> set es. f < length column' \<and> map_of canonical sa \<noteq> None \<and>
          column' ! f = map_of canonical sa"
proof -
  have "assigned canonical [] column" by (simp add: assigned_def)
  from for_of_prefix_invariant[where P = "assigned canonical", OF assms(1) this]
  have "assigned canonical es column'" using assigned_step by blast
  with assms(2) show ?thesis by (simp add: assigned_def)
qed

lemma for_of_total:
  assumes "\<And>x s. x \<in> set xs \<Longrightarrow> \<exists>s'. body s x = Inr s'"
  shows "\<exists>s'. for_of body xs s = Inr s'"
  using assms
proof (induction xs arbitrary: s)
  case Nil
  show ?case by simp
next
  case (Cons x xs)
  from Cons.prems[of x s] obtain t where t: "body s x = Inr t" by auto
  from Cons.IH[of t] Cons.prems obtain s' where "for_of body xs t = Inr s'" by auto
  with t show ?case by simp
qed

definition stepA_fallback :: "Thread \<Rightarrow> nat \<Rightarrow> AddressResult" where
  "stepA_fallback thread frameIndex =
     (case ft_nativeSymbol (frameTable thread) ! frameIndex of
        Some oldSym \<Rightarrow>
          \<lparr> symbolAddress = ns_address (nativeSymbols thread) ! oldSym,
            ar_name = stringTable thread ! (ns_name (nativeSymbols thread) ! oldSym),
            ar_file = None, ar_line = None \<rparr>
      | None \<Rightarrow>
          \<lparr> symbolAddress = ft_address (frameTable thread) ! frameIndex,
            ar_name = ''0x'' @ number_toString 16 (ft_address (frameTable thread) ! frameIndex),
            ar_file = None, ar_line = None \<rparr>)"

definition stepA_typed :: "Thread \<Rightarrow> ThreadLibSymbolicationInfo \<Rightarrow> bool" where
  "stepA_typed thread info \<longleftrightarrow>
     (\<forall>f \<in> set (allFramesForThisLib info).
        f < length (ft_nativeSymbol (frameTable thread)) \<and>
        f < length (ft_address (frameTable thread)) \<and>
        (\<forall>oldSym. ft_nativeSymbol (frameTable thread) ! f = Some oldSym \<longrightarrow>
           oldSym < length (ns_name (nativeSymbols thread)) \<and>
           oldSym < length (ns_address (nativeSymbols thread)) \<and>
           ns_name (nativeSymbols thread) ! oldSym < length (stringTable thread)))"

lemma read_at_inside: "i < length xs \<Longrightarrow> read_at xs i = Inr (xs ! i)"
  by (simp add: read_at_def js_index_def)

lemma stepA_resolve_typed:
  assumes "stepA_typed thread info" and "f \<in> set (allFramesForThisLib info)"
  shows "stepA_resolve thread R f =
     Inr (ft_nativeSymbol (frameTable thread) ! f,
          case R (ft_address (frameTable thread) ! f) of
            Some addressResult \<Rightarrow> addressResult
          | None \<Rightarrow> stepA_fallback thread f)"
  using assms unfolding stepA_typed_def stepA_resolve_def stepA_fallback_def
  by (auto simp: read_at_inside getString_def split: option.splits)

lemma stepA_frame_total:
  assumes "stepA_resolve thread R f = Inr x"
  shows "\<exists>st'. stepA_frame thread R st f = Inr st'"
  using assms unfolding stepA_frame_def by (cases x) (simp add: Let_def)


section \<open>Fallback resolution\<close>

definition fallback_thread :: Thread where
  "fallback_thread = \<lparr> libs = [\<lparr> debugName = ''firefox.pdb'', breakpadId = ''00'' \<rparr>],
     frameTable = \<lparr> ft_address = [4, 26], ft_func = [0, 1], ft_nativeSymbol = [Some 0, None],
       ft_line = [None, None], ft_length = 2 \<rparr>,
     funcTable = \<lparr> fn_name = [0, 1], fn_fileName = [None, None], fn_resource = [0, 0],
       fn_isJS = [False, False], fn_relevantForJS = [False, False],
       fn_lineNumber = [None, None], fn_columnNumber = [None, None], fn_length = 2 \<rparr>,
     nativeSymbols = \<lparr> ns_libIndex = [0], ns_address = [0], ns_name = [0], ns_length = 1 \<rparr>,
     resourceTable = \<lparr> rt_type = [library], rt_lib = [Some 0], rt_length = 1 \<rparr>,
     stringTable = [''first symbol'', ''0x1a''] \<rparr>"

definition fallback_info :: ThreadLibSymbolicationInfo where
  "fallback_info = \<lparr> resourceIndex = 0, libIndex = 0, allFuncsForThisLib = [0, 1],
     allNativeSymbolsForThisLib = [0], allFramesForThisLib = [0, 1],
     frameAddresses = [Some 4, Some 26] \<rparr>"

text \<open>
  C4. For a thread whose frames of the library, their old native symbols and the names of
  those are inside the tables, the first loop completes; a frame whose address has no
  entry in \<open>resultsForLib\<close> resolves to the address and name of its old native symbol
  when it has one, and otherwise to its own address and the name \<open>0x\<close> followed by
  the address in hex; and every frame of the library ends the loop with a symbol address
  in \<open>frameToSymbolAddressMap\<close> and a name for it in \<open>symbolAddressToNameMap\<close>.
\<close>

theorem fallback_resolution:
  assumes typed: "stepA_typed thread info"
  shows "\<exists>stA. stepA thread info R = Inr stA \<and>
     (\<forall>f \<in> set (allFramesForThisLib info).
        (R (ft_address (frameTable thread) ! f) = None \<longrightarrow>
           stepA_resolve thread R f =
             Inr (ft_nativeSymbol (frameTable thread) ! f, stepA_fallback thread f)) \<and>
        (\<exists>old addressResult. stepA_resolve thread R f = Inr (old, addressResult) \<and>
           map_of (frameToSymbolAddressMap stA) f = Some (symbolAddress addressResult) \<and>
           map_of (symbolAddressToNameMap stA) (symbolAddress addressResult) \<noteq> None))"
proof -
  have "\<exists>st'. stepA_frame thread R st f = Inr st'"
    if "f \<in> set (allFramesForThisLib info)" for f st
    using stepA_resolve_typed[OF typed that] by (rule stepA_frame_total)
  then obtain stA where A: "stepA thread info R = Inr stA"
    unfolding stepA_def using for_of_total[of "allFramesForThisLib info" "stepA_frame thread R"]
    by blast
  note cov = stepA_covers_all[OF A, unfolded stepA_covers_def]
  have "\<forall>f \<in> set (allFramesForThisLib info).
        (R (ft_address (frameTable thread) ! f) = None \<longrightarrow>
           stepA_resolve thread R f =
             Inr (ft_nativeSymbol (frameTable thread) ! f, stepA_fallback thread f)) \<and>
        (\<exists>old addressResult. stepA_resolve thread R f = Inr (old, addressResult) \<and>
           map_of (frameToSymbolAddressMap stA) f = Some (symbolAddress addressResult) \<and>
           map_of (symbolAddressToNameMap stA) (symbolAddress addressResult) \<noteq> None)"
  proof
    fix f assume f: "f \<in> set (allFramesForThisLib info)"
    from stepA_resolve_typed[OF typed f, of R]
    have "R (ft_address (frameTable thread) ! f) = None \<longrightarrow>
           stepA_resolve thread R f =
             Inr (ft_nativeSymbol (frameTable thread) ! f, stepA_fallback thread f)"
      by simp
    moreover from cov f have "\<exists>old addressResult. stepA_resolve thread R f = Inr (old, addressResult) \<and>
           map_of (frameToSymbolAddressMap stA) f = Some (symbolAddress addressResult) \<and>
           map_of (symbolAddressToNameMap stA) (symbolAddress addressResult) \<noteq> None"
      by blast
    ultimately show "(R (ft_address (frameTable thread) ! f) = None \<longrightarrow>
           stepA_resolve thread R f =
             Inr (ft_nativeSymbol (frameTable thread) ! f, stepA_fallback thread f)) \<and>
        (\<exists>old addressResult. stepA_resolve thread R f = Inr (old, addressResult) \<and>
           map_of (frameToSymbolAddressMap stA) f = Some (symbolAddress addressResult) \<and>
           map_of (symbolAddressToNameMap stA) (symbolAddress addressResult) \<noteq> None)"
      by blast
  qed
  with A show ?thesis by blast
qed

theorem fallback_resolution_witness:
  "stepA_typed fallback_thread fallback_info \<and>
   stepA_resolve fallback_thread Map.empty 0 =
     Inr (Some 0, \<lparr> symbolAddress = 0, ar_name = ''first symbol'', ar_file = None, ar_line = None \<rparr>) \<and>
   stepA_resolve fallback_thread Map.empty 1 =
     Inr (None, \<lparr> symbolAddress = 26, ar_name = ''0x1a'', ar_file = None, ar_line = None \<rparr>)"
proof -
  have typed: "stepA_typed fallback_thread fallback_info"
    by (simp add: stepA_typed_def fallback_thread_def fallback_info_def)
  from fallback_resolution[OF typed, of Map.empty]
  have "\<forall>f \<in> set (allFramesForThisLib fallback_info).
      stepA_resolve fallback_thread Map.empty f =
        Inr (ft_nativeSymbol (frameTable fallback_thread) ! f, stepA_fallback fallback_thread f)"
    by auto
  then have "stepA_resolve fallback_thread Map.empty 0 =
        Inr (ft_nativeSymbol (frameTable fallback_thread) ! 0, stepA_fallback fallback_thread 0)"
    and "stepA_resolve fallback_thread Map.empty 1 =
        Inr (ft_nativeSymbol (frameTable fallback_thread) ! 1, stepA_fallback fallback_thread 1)"
    by (simp_all add: fallback_info_def)
  moreover have "stepA_fallback fallback_thread 0 =
      \<lparr> symbolAddress = 0, ar_name = ''first symbol'', ar_file = None, ar_line = None \<rparr>"
    by code_simp
  moreover have "stepA_fallback fallback_thread 1 =
      \<lparr> symbolAddress = 26, ar_name = ''0x1a'', ar_file = None, ar_line = None \<rparr>"
    by code_simp
  ultimately show ?thesis using typed by (simp add: fallback_thread_def)
qed

section \<open>Merge correctness\<close>

definition resolvedSymbolAddress :: "Thread \<Rightarrow> (int \<rightharpoonup> AddressResult) \<Rightarrow> nat \<Rightarrow> int option" where
  "resolvedSymbolAddress thread resultsForLib frameIndex =
     (case stepA_resolve thread resultsForLib frameIndex of
        Inl _ \<Rightarrow> None
      | Inr (_, addressResult) \<Rightarrow> Some (symbolAddress addressResult))"

definition scenario_results :: "int \<rightharpoonup> AddressResult" where
  "scenario_results = map_of
     [(0, \<lparr> symbolAddress = 0, ar_name = ''first symbol'', ar_file = None, ar_line = None \<rparr>),
      (10, \<lparr> symbolAddress = 0, ar_name = ''first symbol'', ar_file = None, ar_line = None \<rparr>)]"

definition scenario_thread' :: Thread where
  "scenario_thread' = scenario_thread
     \<lparr> frameTable := (frameTable scenario_thread)
         \<lparr> ft_func := [0, 0], ft_nativeSymbol := [Some 0, Some 0] \<rparr>,
       funcTable := (funcTable scenario_thread) \<lparr> fn_name := [2, 1] \<rparr>,
       nativeSymbols := \<lparr> ns_libIndex = [0], ns_address = [0], ns_name = [2], ns_length = 1 \<rparr>,
       stringTable := [''0x0'', ''0xa'', ''first symbol''] \<rparr>"

text \<open>
  C1. When the step returns, two frames of the library with the same resolved symbol
  address (the one of \<open>resultsForLib\<close>, or the fallback of the first loop) have the
  same entry in the new \<open>nativeSymbol\<close> column, and every frame of the library has a
  resolved symbol address and an entry other than \<open>null\<close>.
\<close>

theorem merge_correctness:
  assumes run: "applySymbolicationStep thread info R m0 = Inr (thread', m')"
  shows "(\<forall>f \<in> set (allFramesForThisLib info). \<forall>g \<in> set (allFramesForThisLib info).
            resolvedSymbolAddress thread R f = resolvedSymbolAddress thread R g \<longrightarrow>
            ft_nativeSymbol (frameTable thread') ! f = ft_nativeSymbol (frameTable thread') ! g) \<and>
         (\<forall>f \<in> set (allFramesForThisLib info).
            resolvedSymbolAddress thread R f \<noteq> None \<and>
            ft_nativeSymbol (frameTable thread') ! f \<noteq> None)"
proof -
  from run obtain stA stB column stC where
    A: "stepA thread info R = Inr stA"
    and B: "stepB thread info stA = Inr stB"
    and asg: "for_of (assignNativeSymbol (b_canonical stB)) (frameToSymbolAddressMap stA)
       (ft_nativeSymbol (frameTable thread)) = Inr column"
    and C: "stepC thread info R stB column (allFramesForThisLib info) = Inr stC"
    and t': "thread' = thread
              \<lparr> frameTable := (frameTable thread)
                  \<lparr> ft_func := c_newFrameTableFuncColumn stC,
                    ft_nativeSymbol := column,
                    ft_line := c_newFrameTableLineColumn stC \<rparr>,
                funcTable := c_funcTable stC,
                nativeSymbols := b_nativeSymbols stB,
                stringTable := c_stringTable stC \<rparr>"
    and "m' = mergeInto (makeConsensusMap (c_oldFuncToNewFuncEntries stC)) m0"
    by (rule applySymbolicationStep_InrE)
  have col: "ft_nativeSymbol (frameTable thread') = column" by (simp add: t')
  note cov = stepA_covers_all[OF A, unfolded stepA_covers_def]
  from cov have d: "distinct (map fst (frameToSymbolAddressMap stA))" by simp
  note asgd = assigned_all[OF asg d]
  have key: "resolvedSymbolAddress thread R f \<noteq> None \<and>
     column ! f \<noteq> None \<and>
     column ! f = map_of (b_canonical stB) (the (resolvedSymbolAddress thread R f))"
    if f: "f \<in> set (allFramesForThisLib info)" for f
  proof -
    from cov f obtain old r where res: "stepA_resolve thread R f = Inr (old, r)"
      and get: "map_of (frameToSymbolAddressMap stA) f = Some (symbolAddress r)"
      by blast
    from get have "(f, symbolAddress r) \<in> set (frameToSymbolAddressMap stA)"
      by (rule map_of_SomeD)
    with asgd have "map_of (b_canonical stB) (symbolAddress r) \<noteq> None"
      "column ! f = map_of (b_canonical stB) (symbolAddress r)" by auto
    with res show ?thesis by (simp add: resolvedSymbolAddress_def)
  qed
  show ?thesis
  proof (intro conjI ballI impI)
    fix f g assume "f \<in> set (allFramesForThisLib info)" "g \<in> set (allFramesForThisLib info)"
      "resolvedSymbolAddress thread R f = resolvedSymbolAddress thread R g"
    with key[of f] key[of g]
    show "ft_nativeSymbol (frameTable thread') ! f = ft_nativeSymbol (frameTable thread') ! g"
      by (simp add: col)
  next
    fix f assume "f \<in> set (allFramesForThisLib info)"
    with key[of f] show "resolvedSymbolAddress thread R f \<noteq> None" by simp
  next
    fix f assume "f \<in> set (allFramesForThisLib info)"
    with key[of f] show "ft_nativeSymbol (frameTable thread') ! f \<noteq> None" unfolding col by blast
  qed
qed
theorem merge_correctness_witness:
  "applySymbolicationStep scenario_thread scenario_info scenario_results [] =
     Inr (scenario_thread', [(0, 0), (1, 0)]) \<and>
   resolvedSymbolAddress scenario_thread scenario_results 0 = Some 0 \<and>
   resolvedSymbolAddress scenario_thread scenario_results 1 = Some 0 \<and>
   ft_nativeSymbol (frameTable scenario_thread') ! 0 = ft_nativeSymbol (frameTable scenario_thread') ! 1 \<and>
   ft_nativeSymbol (frameTable scenario_thread') ! 0 \<noteq> None"
proof -
  have run: "applySymbolicationStep scenario_thread scenario_info scenario_results [] =
     Inr (scenario_thread', [(0, 0), (1, 0)])"
    by code_simp
  have r0: "resolvedSymbolAddress scenario_thread scenario_results 0 = Some 0"
    and r1: "resolvedSymbolAddress scenario_thread scenario_results 1 = Some 0"
    by code_simp+
  have frames: "0 \<in> set (allFramesForThisLib scenario_info)" "1 \<in> set (allFramesForThisLib scenario_info)"
    by (simp_all add: scenario_info_def)
  from merge_correctness[OF run] frames r0 r1
  have "ft_nativeSymbol (frameTable scenario_thread') ! 0 = ft_nativeSymbol (frameTable scenario_thread') ! 1"
    by metis
  moreover from merge_correctness[OF run] frames(1)
  have "ft_nativeSymbol (frameTable scenario_thread') ! 0 \<noteq> None"
    by blast
  ultimately show ?thesis using run r0 r1 by blast
qed

section \<open>Func keys\<close>

subsection \<open>The func key determines the two string indices\<close>


definition digit_alphabet :: string where
  "digit_alphabet = ''0123456789abcdefghijklmnopqrstuvwxyz''"

lemma index_of_nth: "distinct xs \<Longrightarrow> i < length xs \<Longrightarrow> index_of (xs ! i) xs = i"
proof (induction xs arbitrary: i)
  case Nil
  then show ?case by simp
next
  case (Cons x xs)
  then show ?case by (cases i) auto
qed

lemma digit_char_value: "d < 36 \<Longrightarrow> index_of (digit_char d) digit_alphabet = d"
proof -
  have "distinct digit_alphabet" by (simp add: digit_alphabet_def)
  moreover have "length digit_alphabet = 36" by (simp add: digit_alphabet_def)
  ultimately show "d < 36 \<Longrightarrow> index_of (digit_char d) digit_alphabet = d"
    using index_of_nth[of digit_alphabet d] by (simp add: digit_char_def digit_alphabet_def)
qed

definition from_digits :: "nat \<Rightarrow> string \<Rightarrow> nat" where
  "from_digits radix ds = foldl (\<lambda>a c. a * radix + index_of c digit_alphabet) 0 ds"

lemma from_digits_digits_of:
  "2 \<le> radix \<Longrightarrow> radix \<le> 36 \<Longrightarrow> from_digits radix (digits_of radix n) = n"
proof (induction radix n rule: digits_of.induct)
  case (1 radix n)
  show ?case
  proof (cases "n < radix")
    case True
    with "1.prems" have "n < 36" by simp
    with True show ?thesis
      by (subst digits_of.simps) (simp add: from_digits_def digit_char_value)
  next
    case False
    with "1.prems" have nr: "\<not> (n < radix \<or> radix < 2)" by simp
    have "n mod radix < radix" using "1.prems" by simp
    with "1.prems" have m: "n mod radix < 36" by linarith
    from "1.IH"[OF nr "1.prems"] have "from_digits radix (digits_of radix (n div radix)) = n div radix" .
    with nr m show ?thesis
      by (subst digits_of.simps) (simp add: from_digits_def digit_char_value)
  qed
qed

lemma digits_of_inj:
  assumes "digits_of 10 m = digits_of 10 n"
  shows "m = n"
proof -
  have "m = from_digits 10 (digits_of 10 m)" by (simp add: from_digits_digits_of)
  also have "\<dots> = from_digits 10 (digits_of 10 n)" by (simp only: assms)
  also have "\<dots> = n" by (simp add: from_digits_digits_of)
  finally show ?thesis .
qed

lemma takeWhile_upto_separator:
  "c \<notin> set xs \<Longrightarrow> takeWhile (\<lambda>x. x \<noteq> c) (xs @ c # t) = xs"
  by (induction xs) auto

lemma digits_of_nonempty [simp]: "digits_of radix n \<noteq> []" "[] \<noteq> digits_of radix n"
  by (subst digits_of.simps, simp)+

lemma digit_char_decimal: "d < 10 \<Longrightarrow> CHR '':'' \<noteq> digit_char d"
proof -
  assume "d < 10"
  then have "d \<in> {0, 1, 2, 3, 4, 5, 6, 7, 8, 9}" by auto
  then show ?thesis by (auto simp: digit_char_def)
qed

lemma digits_of_no_colon: "CHR '':'' \<notin> set (digits_of 10 n)"
proof (induction "10 :: nat" n rule: digits_of.induct)
  case (1 n)
  show ?case
  proof (cases "n < 10")
    case True
    then show ?thesis by (subst digits_of.simps) (simp add: digit_char_decimal)
  next
    case False
    then have "\<not> (n < 10 \<or> (10 :: nat) < 2)" by simp
    from "1.hyps"[OF this] False show ?thesis
      by (subst digits_of.simps) (simp add: digit_char_decimal)
  qed
qed

lemma funcKey_inj:
  assumes "funcKey a b = funcKey a' b'"
  shows "a = a' \<and> b = b'"
proof -
  let ?D = "digits_of 10"
  let ?T = "\<lambda>b. case b of None \<Rightarrow> [] | Some i \<Rightarrow> ?D i"
  have eq: "?D a @ CHR '':'' # ?T b = ?D a' @ CHR '':'' # ?T b'"
    using assms by (simp add: funcKey_def number_toString_def cong: option.case_cong)
  have tw: "takeWhile (\<lambda>c. c \<noteq> CHR '':'') (?D x @ CHR '':'' # t) = ?D x" for x t
    using digits_of_no_colon[of x] by (rule takeWhile_upto_separator)
  from eq have "takeWhile (\<lambda>c. c \<noteq> CHR '':'') (?D a @ CHR '':'' # ?T b) =
      takeWhile (\<lambda>c. c \<noteq> CHR '':'') (?D a' @ CHR '':'' # ?T b')" by simp
  then have D: "?D a = ?D a'" by (simp only: tw)
  then have a: "a = a'" by (rule digits_of_inj)
  from eq D have "?T b = ?T b'" by simp
  then have "b = b'"
  proof (cases b)
    case None
    with \<open>?T b = ?T b'\<close> show ?thesis
      using digits_of_nonempty by (cases b') (auto simp: eq_commute[of "[]"])
  next
    case (Some i)
    show ?thesis
    proof (cases b')
      case None
      with Some \<open>?T b = ?T b'\<close> show ?thesis using digits_of_nonempty[of 10 i] by simp
    next
      case (Some i')
      with \<open>b = Some i\<close> \<open>?T b = ?T b'\<close> have "?D i = ?D i'" by simp
      then have "i = i'" by (rule digits_of_inj)
      with Some \<open>b = Some i\<close> show ?thesis by simp
    qed
  qed
  with a show ?thesis by simp
qed


section \<open>Func grouping\<close>

subsection \<open>The string table only grows\<close>

lemma index_of_less: "x \<in> set xs \<Longrightarrow> index_of x xs < length xs"
  by (induction xs) auto

lemma nth_index_of: "x \<in> set xs \<Longrightarrow> xs ! index_of x xs = x"
  by (induction xs) auto

lemma index_of_absent: "x \<notin> set xs \<Longrightarrow> index_of x xs = length xs"
  by (induction xs) auto

lemma index_of_snoc: "x \<notin> set xs \<Longrightarrow> index_of x (xs @ x # ys) = length xs"
  by (induction xs) auto

lemma index_of_append: "x \<in> set xs \<Longrightarrow> index_of x (xs @ ys) = index_of x xs"
  by (induction xs) auto

lemma index_of_prefix: "prefix xs zs \<Longrightarrow> x \<in> set xs \<Longrightarrow> index_of x zs = index_of x xs"
  by (auto simp: prefix_def index_of_append)


lemma indexForString_props:
  assumes "indexForString strings s = (i, strings')"
  shows "prefix strings strings'" and "s \<in> set strings'" and "i = index_of s strings'"
  using assms
  by (auto simp: indexForString_def index_of_snoc split: if_splits)

definition pairKey :: "string list \<Rightarrow> string \<times> string option \<Rightarrow> string" where
  "pairKey strings p =
     funcKey (index_of (fst p) strings) (map_option (\<lambda>f. index_of f strings) (snd p))"

definition interned :: "string list \<Rightarrow> string \<times> string option \<Rightarrow> bool" where
  "interned strings p \<longleftrightarrow> fst p \<in> set strings \<and> (\<forall>f. snd p = Some f \<longrightarrow> f \<in> set strings)"

lemma internNames_props:
  assumes "internNames strings r = (fi, fli, strings')"
  shows "prefix strings strings'"
    and "interned strings' (ar_name r, ar_file r)"
    and "funcKey fi fli = pairKey strings' (ar_name r, ar_file r)"
proof -
  obtain i s1 where one: "indexForString strings (ar_name r) = (i, s1)"
    by (cases "indexForString strings (ar_name r)")
  note p1 = indexForString_props[OF one]
  show "prefix strings strings'" "interned strings' (ar_name r, ar_file r)"
    "funcKey fi fli = pairKey strings' (ar_name r, ar_file r)"
  proof (atomize (full), cases "ar_file r")
    case None
    with assms one p1 show "prefix strings strings' \<and> interned strings' (ar_name r, ar_file r) \<and>
      funcKey fi fli = pairKey strings' (ar_name r, ar_file r)"
      by (auto simp: internNames_def interned_def pairKey_def)
  next
    case (Some f)
    obtain j s2 where two: "indexForString s1 f = (j, s2)" by (cases "indexForString s1 f")
    note p2 = indexForString_props[OF two]
    from assms one two Some have eq: "fi = i" "fli = Some j" "strings' = s2"
      by (simp_all add: internNames_def)
    have "index_of (ar_name r) s2 = index_of (ar_name r) s1"
      using p2(1) p1(2) by (rule index_of_prefix)
    with p1 p2 eq Some show "prefix strings strings' \<and> interned strings' (ar_name r, ar_file r) \<and>
      funcKey fi fli = pairKey strings' (ar_name r, ar_file r)"
      by (auto simp: interned_def pairKey_def dest: prefix_order.trans set_mono_prefix)
  qed
qed

lemma pairKey_prefix:
  "prefix strings strings' \<Longrightarrow> interned strings p \<Longrightarrow> pairKey strings' p = pairKey strings p"
  by (cases p, cases "snd p") (auto simp: pairKey_def interned_def index_of_prefix)

lemma interned_prefix: "prefix strings strings' \<Longrightarrow> interned strings p \<Longrightarrow> interned strings' p"
  by (auto simp: interned_def dest: set_mono_prefix)


lemma alist_update_fresh: "k \<notin> fst ` set al \<Longrightarrow> AList.update k v al = al @ [(k, v)]"
  by (induction al) auto

lemma takeFunc_InrE:
  assumes "takeFunc rix st = Inr (funcIndex, st1)"
  obtains (reuse) rest where
      "c_availableFuncIter st = funcIndex # rest" "c_availableFuncIter st1 = rest"
      "c_funcTable st1 = c_funcTable st"
    | (fresh) "c_availableFuncIter st = []" "c_availableFuncIter st1 = []"
      "funcIndex = fn_length (c_funcTable st)"
      "fn_length (c_funcTable st1) = fn_length (c_funcTable st) + 1"
  using assms unfolding takeFunc_def
  by (auto simp: Let_def sbind_eq_Inr split: list.splits)

lemma funcForKey_InrE:
  assumes "funcForKey rix st fi fli = Inr (funcIndex, st1)"
  obtains (known) "map_of (c_funcKeyToFuncMap st) (funcKey fi fli) = Some funcIndex" "st1 = st"
    | (reuse) rest where
      "map_of (c_funcKeyToFuncMap st) (funcKey fi fli) = None"
      "c_availableFuncIter st = funcIndex # rest" "c_availableFuncIter st1 = rest"
      "fn_length (c_funcTable st1) = fn_length (c_funcTable st)"
      "c_funcKeyToFuncMap st1 = AList.update (funcKey fi fli) funcIndex (c_funcKeyToFuncMap st)"
    | (fresh)
      "map_of (c_funcKeyToFuncMap st) (funcKey fi fli) = None"
      "c_availableFuncIter st = []" "c_availableFuncIter st1 = []"
      "funcIndex = fn_length (c_funcTable st)"
      "fn_length (c_funcTable st1) = fn_length (c_funcTable st) + 1"
      "c_funcKeyToFuncMap st1 = AList.update (funcKey fi fli) funcIndex (c_funcKeyToFuncMap st)"
proof (cases "map_of (c_funcKeyToFuncMap st) (funcKey fi fli)")
  case (Some v)
  with assms have "v = funcIndex" "st1 = st" by (simp_all add: funcForKey_def)
  with Some show ?thesis by (auto intro: known)
next
  case None
  with assms obtain st0 nc fc where tf: "takeFunc rix st = Inr (funcIndex, st0)"
    and st1: "st1 = st0 \<lparr> c_funcTable := (c_funcTable st0) \<lparr> fn_name := nc, fn_fileName := fc \<rparr>,
                       c_funcKeyToFuncMap := AList.update (funcKey fi fli) funcIndex (c_funcKeyToFuncMap st0) \<rparr>"
    by (auto simp: funcForKey_def sbind_eq_Inr)
  from takeFunc_frame(5)[OF tf] have km: "c_funcKeyToFuncMap st0 = c_funcKeyToFuncMap st" .
  from tf show ?thesis
  proof (cases rule: takeFunc_InrE)
    case (reuse rest)
    with None st1 km show ?thesis by (intro that(2)[of rest]) simp_all
  next
    case fresh
    with None st1 km show ?thesis by (intro that(3)) simp_all
  qed
qed

definition km_ok :: "stepC_state \<Rightarrow> bool" where
  "km_ok st \<longleftrightarrow>
     distinct (map fst (c_funcKeyToFuncMap st)) \<and>
     distinct (map snd (c_funcKeyToFuncMap st)) \<and>
     distinct (c_availableFuncIter st) \<and>
     (\<forall>v \<in> snd ` set (c_funcKeyToFuncMap st).
        v < fn_length (c_funcTable st) \<and> v \<notin> set (c_availableFuncIter st)) \<and>
     (\<forall>x \<in> set (c_availableFuncIter st). x < fn_length (c_funcTable st))"

lemma km_ok_extend:
  assumes ok: "km_ok st"
    and km: "c_funcKeyToFuncMap st1 = c_funcKeyToFuncMap st @ [(key, funcIndex)]"
    and nk: "key \<notin> fst ` set (c_funcKeyToFuncMap st)"
    and nv: "funcIndex \<notin> snd ` set (c_funcKeyToFuncMap st)"
    and it: "set (c_availableFuncIter st1) \<subseteq> set (c_availableFuncIter st)"
      "distinct (c_availableFuncIter st1)" "funcIndex \<notin> set (c_availableFuncIter st1)"
    and len: "fn_length (c_funcTable st) \<le> fn_length (c_funcTable st1)"
      "funcIndex < fn_length (c_funcTable st1)"
  shows "km_ok st1"
proof -
  have d1: "distinct (map fst (c_funcKeyToFuncMap st1))"
    using ok nk by (simp add: km km_ok_def)
  have d2: "distinct (map snd (c_funcKeyToFuncMap st1))"
    using ok nv by (simp add: km km_ok_def)
  have vals: "v < fn_length (c_funcTable st1) \<and> v \<notin> set (c_availableFuncIter st1)"
    if "v \<in> snd ` set (c_funcKeyToFuncMap st1)" for v
  proof -
    from that have "v = funcIndex \<or> v \<in> snd ` set (c_funcKeyToFuncMap st)" by (auto simp: km)
    then show ?thesis
    proof
      assume "v = funcIndex"
      with it(3) len(2) show ?thesis by simp
    next
      assume "v \<in> snd ` set (c_funcKeyToFuncMap st)"
      with ok have "v < fn_length (c_funcTable st)" "v \<notin> set (c_availableFuncIter st)"
        by (auto simp: km_ok_def)
      with it(1) len(1) show ?thesis by auto
    qed
  qed
  have iter: "x < fn_length (c_funcTable st1)" if "x \<in> set (c_availableFuncIter st1)" for x
  proof -
    from that it(1) have "x \<in> set (c_availableFuncIter st)" by auto
    with ok have "x < fn_length (c_funcTable st)" by (simp add: km_ok_def)
    with len(1) show ?thesis by simp
  qed
  from d1 d2 it(2) vals iter show ?thesis unfolding km_ok_def by blast
qed

lemma km_ok_funcForKey:
  assumes ok: "km_ok st" and ffk: "funcForKey rix st fi fli = Inr (funcIndex, st1)"
  shows "km_ok st1"
  using ffk
proof (cases rule: funcForKey_InrE)
  case known
  with ok show ?thesis by simp
next
  case (reuse rest)
  from reuse(1) have nk: "funcKey fi fli \<notin> fst ` set (c_funcKeyToFuncMap st)"
    by (simp add: map_of_eq_None_iff)
  have km: "c_funcKeyToFuncMap st1 = c_funcKeyToFuncMap st @ [(funcKey fi fli, funcIndex)]"
    using reuse(5) alist_update_fresh[OF nk] by simp
  from ok reuse(2) have nv: "funcIndex \<notin> snd ` set (c_funcKeyToFuncMap st)"
    and d: "distinct (funcIndex # rest)" and lt: "funcIndex < fn_length (c_funcTable st)"
    by (auto simp: km_ok_def)
  show ?thesis
  proof (rule km_ok_extend[OF ok km nk nv])
    show "set (c_availableFuncIter st1) \<subseteq> set (c_availableFuncIter st)"
      by (auto simp: reuse(2,3))
    show "distinct (c_availableFuncIter st1)" using d by (simp add: reuse(3))
    show "funcIndex \<notin> set (c_availableFuncIter st1)" using d by (simp add: reuse(3))
    show "fn_length (c_funcTable st) \<le> fn_length (c_funcTable st1)" by (simp add: reuse(4))
    show "funcIndex < fn_length (c_funcTable st1)" using lt by (simp add: reuse(4))
  qed
next
  case fresh
  from fresh(1) have nk: "funcKey fi fli \<notin> fst ` set (c_funcKeyToFuncMap st)"
    by (simp add: map_of_eq_None_iff)
  have km: "c_funcKeyToFuncMap st1 = c_funcKeyToFuncMap st @ [(funcKey fi fli, funcIndex)]"
    using fresh(6) alist_update_fresh[OF nk] by simp
  from ok fresh(4) have nv: "funcIndex \<notin> snd ` set (c_funcKeyToFuncMap st)"
    by (auto simp: km_ok_def)
  show ?thesis
  proof (rule km_ok_extend[OF ok km nk nv])
    show "set (c_availableFuncIter st1) \<subseteq> set (c_availableFuncIter st)"
      by (simp add: fresh(3))
    show "distinct (c_availableFuncIter st1)" by (simp add: fresh(3))
    show "funcIndex \<notin> set (c_availableFuncIter st1)" by (simp add: fresh(3))
    show "fn_length (c_funcTable st) \<le> fn_length (c_funcTable st1)" by (simp add: fresh(5))
    show "funcIndex < fn_length (c_funcTable st1)" by (simp add: fresh(4,5))
  qed
qed

lemma funcForKey_lookup:
  assumes ffk: "funcForKey rix st fi fli = Inr (funcIndex, st1)"
  shows "map_of (c_funcKeyToFuncMap st1) (funcKey fi fli) = Some funcIndex"
    and "map_of (c_funcKeyToFuncMap st) k = Some v \<Longrightarrow> map_of (c_funcKeyToFuncMap st1) k = Some v"
proof -
  show "map_of (c_funcKeyToFuncMap st1) (funcKey fi fli) = Some funcIndex"
    using ffk
  proof (cases rule: funcForKey_InrE)
    case known
    then show ?thesis by simp
  next
    case (reuse rest)
    then show ?thesis by (simp only: update_conv') simp
  next
    case fresh
    then show ?thesis by (simp only: update_conv') simp
  qed
  show "map_of (c_funcKeyToFuncMap st1) k = Some v" if old: "map_of (c_funcKeyToFuncMap st) k = Some v"
    using ffk
  proof (cases rule: funcForKey_InrE)
    case known
    with old show ?thesis by simp
  next
    case (reuse rest)
    with old have "k \<noteq> funcKey fi fli" by auto
    with old reuse(5) show ?thesis by (simp add: update_conv')
  next
    case fresh
    with old have "k \<noteq> funcKey fi fli" by auto
    with old fresh(6) show ?thesis by (simp add: update_conv')
  qed
qed

lemma distinct_snd_inj:
  assumes "distinct (map snd al)" "map_of al k = Some v" "map_of al k' = Some v"
  shows "k = k'"
proof -
  from assms(2,3) have "(k, v) \<in> set al" "(k', v) \<in> set al" by (auto dest: map_of_SomeD)
  moreover from assms(1) have "inj_on snd (set al)" by (simp add: distinct_map)
  ultimately have "(k, v) = (k', v)" using inj_onD[of snd "set al" "(k, v)" "(k', v)"] by simp
  then show ?thesis by simp
qed


definition grouped ::
  "Thread \<Rightarrow> (int \<rightharpoonup> AddressResult) \<Rightarrow> NativeSymbolTable \<Rightarrow> nat option list \<Rightarrow>
   (stepC_state \<Rightarrow> nat \<Rightarrow> step_error + stepC_state) \<Rightarrow> stepC_state \<Rightarrow>
   nat list \<Rightarrow> stepC_state \<Rightarrow> bool" where
  "grouped thread R syms column body st0 pre st \<longleftrightarrow>
     (distinct pre \<longrightarrow>
        for_of body pre st0 = Inr st \<and>
        km_ok st \<and>
        length (c_newFrameTableFuncColumn st) = length (ft_func (frameTable thread)) \<and>
        (\<forall>k < length pre. \<exists>t old r.
           for_of body (take k pre) st0 = Inr t \<and>
           stepC_resolve thread R syms column t (pre ! k) = Inr (old, r) \<and>
           interned (c_stringTable st) (ar_name r, ar_file r) \<and>
           map_of (c_funcKeyToFuncMap st) (pairKey (c_stringTable st) (ar_name r, ar_file r)) =
             Some (c_newFrameTableFuncColumn st ! (pre ! k))))"

lemma grouped_step:
  assumes inv: "grouped thread R syms column (stepC_frame thread R rix syms column) st0 pre st"
    and step: "stepC_frame thread R rix syms column st f = Inr st'"
  shows "grouped thread R syms column (stepC_frame thread R rix syms column) st0 (pre @ [f]) st'"
  unfolding grouped_def
proof (intro impI)
  let ?body = "stepC_frame thread R rix syms column"
  assume d: "distinct (pre @ [f])"
  then have dp: "distinct pre" and fresh: "f \<notin> set pre" by simp_all
  from inv dp have run: "for_of ?body pre st0 = Inr st" and ok: "km_ok st"
    and len: "length (c_newFrameTableFuncColumn st) = length (ft_func (frameTable thread))"
    and rec: "\<forall>k < length pre. \<exists>t old r.
           for_of ?body (take k pre) st0 = Inr t \<and>
           stepC_resolve thread R syms column t (pre ! k) = Inr (old, r) \<and>
           interned (c_stringTable st) (ar_name r, ar_file r) \<and>
           map_of (c_funcKeyToFuncMap st) (pairKey (c_stringTable st) (ar_name r, ar_file r)) =
             Some (c_newFrameTableFuncColumn st ! (pre ! k))"
    by (simp_all add: grouped_def)
  from step obtain oldFunc r fi fli strings funcIndex st1 fc lc where
    res: "stepC_resolve thread R syms column st f = Inr (oldFunc, r)"
    and inn: "internNames (c_stringTable st) r = (fi, fli, strings)"
    and ffk: "funcForKey rix (st \<lparr> c_stringTable := strings \<rparr>) fi fli = Inr (funcIndex, st1)"
    and fc: "store_at (c_newFrameTableFuncColumn st) f funcIndex = Inr fc"
    and st': "st' = st1 \<lparr> c_newFrameTableFuncColumn := fc, c_newFrameTableLineColumn := lc,
                  c_oldFuncToNewFuncEntries := c_oldFuncToNewFuncEntries st @ [(oldFunc, funcIndex)] \<rparr>"
    by (rule stepC_frame_InrE)
  note ip = internNames_props[OF inn]
  let ?st = "st \<lparr> c_stringTable := strings \<rparr>"
  have ok0: "km_ok ?st" using ok by (simp add: km_ok_def)
  from km_ok_funcForKey[OF ok0 ffk] have ok1: "km_ok st1" .
  have ok': "km_ok st'" using ok1 by (simp add: km_ok_def st')
  have S': "c_stringTable st' = strings" using funcForKey_frame(4)[OF ffk] by (simp add: st')
  have km': "c_funcKeyToFuncMap st' = c_funcKeyToFuncMap st1" by (simp add: st')
  from stepC_resolve_oldFunc[OF res] have flt: "f < length (ft_func (frameTable thread))" by simp
  with fc len have fc_eq: "fc = (c_newFrameTableFuncColumn st)[f := funcIndex]"
    by (auto simp: store_at_Inr)
  have col': "c_newFrameTableFuncColumn st' = (c_newFrameTableFuncColumn st)[f := funcIndex]"
    by (simp add: st' fc_eq)
  have run': "for_of ?body (pre @ [f]) st0 = Inr st'"
    using run step by (simp add: for_of_snoc)
  have len': "length (c_newFrameTableFuncColumn st') = length (ft_func (frameTable thread))"
    by (simp add: col' len)
  have rec': "\<exists>t old r.
           for_of ?body (take k (pre @ [f])) st0 = Inr t \<and>
           stepC_resolve thread R syms column t ((pre @ [f]) ! k) = Inr (old, r) \<and>
           interned (c_stringTable st') (ar_name r, ar_file r) \<and>
           map_of (c_funcKeyToFuncMap st') (pairKey (c_stringTable st') (ar_name r, ar_file r)) =
             Some (c_newFrameTableFuncColumn st' ! ((pre @ [f]) ! k))"
    if k: "k < length (pre @ [f])" for k
  proof (cases "k < length pre")
    case True
    with rec obtain t old r' where
      t: "for_of ?body (take k pre) st0 = Inr t"
      and r': "stepC_resolve thread R syms column t (pre ! k) = Inr (old, r')"
      and i': "interned (c_stringTable st) (ar_name r', ar_file r')"
      and m': "map_of (c_funcKeyToFuncMap st) (pairKey (c_stringTable st) (ar_name r', ar_file r')) =
             Some (c_newFrameTableFuncColumn st ! (pre ! k))"
      by blast
    from True fresh have ne: "pre ! k \<noteq> f" by (metis nth_mem)
    have "pairKey strings (ar_name r', ar_file r') = pairKey (c_stringTable st) (ar_name r', ar_file r')"
      using ip(1) i' by (rule pairKey_prefix)
    with funcForKey_lookup(2)[OF ffk, of "pairKey (c_stringTable st) (ar_name r', ar_file r')"] m'
    have "map_of (c_funcKeyToFuncMap st1) (pairKey strings (ar_name r', ar_file r')) =
        Some (c_newFrameTableFuncColumn st ! (pre ! k))"
      by simp
    moreover have "interned strings (ar_name r', ar_file r')"
      using ip(1) i' by (rule interned_prefix)
    ultimately show ?thesis
      using True t r' ne by (auto simp: S' km' col' nth_append)
  next
    case False
    with k have keq: "k = length pre" by simp
    have "map_of (c_funcKeyToFuncMap st1) (pairKey strings (ar_name r, ar_file r)) = Some funcIndex"
      using funcForKey_lookup(1)[OF ffk] ip(3) by simp
    moreover have "c_newFrameTableFuncColumn st' ! f = funcIndex"
      using flt len by (simp add: col')
    ultimately show ?thesis
      using keq run res ip(2) by (auto simp: S' km')
  qed
  from run' ok' len' rec' show "for_of ?body (pre @ [f]) st0 = Inr st' \<and>
        km_ok st' \<and>
        length (c_newFrameTableFuncColumn st') = length (ft_func (frameTable thread)) \<and>
        (\<forall>k < length (pre @ [f]). \<exists>t old r.
           for_of ?body (take k (pre @ [f])) st0 = Inr t \<and>
           stepC_resolve thread R syms column t ((pre @ [f]) ! k) = Inr (old, r) \<and>
           interned (c_stringTable st') (ar_name r, ar_file r) \<and>
           map_of (c_funcKeyToFuncMap st') (pairKey (c_stringTable st') (ar_name r, ar_file r)) =
             Some (c_newFrameTableFuncColumn st' ! ((pre @ [f]) ! k)))"
    by blast
qed

lemma set_new_Set: "set (new_Set xs) = set xs"
  by (simp add: new_Set_def set_fold_set_add)

lemma distinct_new_Set: "distinct (new_Set xs)"
  by (simp add: new_Set_def distinct_fold_set_add)

lemma grouped_all:
  assumes run: "stepC thread info R stB column frames = Inr stC"
    and funcs: "\<forall>x \<in> set (allFuncsForThisLib info). x < fn_length (funcTable thread)"
  shows "grouped thread R (b_nativeSymbols stB) column
     (stepC_frame thread R (resourceIndex info) (b_nativeSymbols stB) column)
     (stepC_init thread info (b_stringTable stB)) frames stC"
proof -
  let ?body = "stepC_frame thread R (resourceIndex info) (b_nativeSymbols stB) column"
  let ?st0 = "stepC_init thread info (b_stringTable stB)"
  have "km_ok ?st0"
    using funcs by (simp add: km_ok_def stepC_init_def set_new_Set distinct_new_Set)
  then have init: "grouped thread R (b_nativeSymbols stB) column ?body ?st0 [] ?st0"
    by (simp add: grouped_def stepC_init_def)
  from for_of_prefix_invariant[where P = "grouped thread R (b_nativeSymbols stB) column ?body ?st0",
      OF run[unfolded stepC_def] init]
  show ?thesis using grouped_step by blast
qed




section \<open>Provider failures\<close>

lemma length_collectAll: "collectAll ts = Inr infos \<Longrightarrow> length infos = length ts"
  by (induction ts arbitrary: infos) (auto simp: sbind_eq_Inr)

definition stepCallsFor ::
  "ThreadSymbolicationInfo list \<Rightarrow> (int \<rightharpoonup> AddressResult) \<Rightarrow> LibKey \<Rightarrow>
   (nat \<times> SymbolicationStepInfo) list" where
  "stepCallsFor symbolicationInfo results libKey =
     concat (map (\<lambda>threadIndex.
       case map_of (symbolicationInfo ! threadIndex) libKey of
         None \<Rightarrow> []
       | Some info \<Rightarrow> [(threadIndex, \<lparr> si_threadLibSymbolicationInfo = info, si_resultsForLib = results \<rparr>)])
       [0 ..< length symbolicationInfo])"

lemma finish_prefix:
  assumes "n \<le> length infos"
  shows "for_of (finishSymbolicationForLib_thread infos results libKey) [0 ..< n] calls =
     Inr (calls @ concat (map (\<lambda>threadIndex.
       case map_of (infos ! threadIndex) libKey of
         None \<Rightarrow> []
       | Some info \<Rightarrow> [(threadIndex, \<lparr> si_threadLibSymbolicationInfo = info, si_resultsForLib = results \<rparr>)])
       [0 ..< n]))"
  using assms
proof (induction n)
  case 0
  show ?case by simp
next
  case (Suc n)
  then have IH: "for_of (finishSymbolicationForLib_thread infos results libKey) [0 ..< n] calls =
     Inr (calls @ concat (map (\<lambda>threadIndex.
       case map_of (infos ! threadIndex) libKey of
         None \<Rightarrow> []
       | Some info \<Rightarrow> [(threadIndex, \<lparr> si_threadLibSymbolicationInfo = info, si_resultsForLib = results \<rparr>)])
       [0 ..< n]))" and n: "n < length infos" by simp_all
  let ?body = "finishSymbolicationForLib_thread infos results libKey"
  have "for_of ?body [0 ..< Suc n] calls = sbind (for_of ?body [0 ..< n] calls) (for_of ?body [n])"
    by (simp add: for_of_append)
  also have "\<dots> = for_of ?body [n] (calls @ concat (map (\<lambda>threadIndex.
       case map_of (infos ! threadIndex) libKey of
         None \<Rightarrow> []
       | Some info \<Rightarrow> [(threadIndex, \<lparr> si_threadLibSymbolicationInfo = info, si_resultsForLib = results \<rparr>)])
       [0 ..< n]))"
    by (simp only: IH sbind_Inr)
  also have "\<dots> = Inr (calls @ concat (map (\<lambda>threadIndex.
       case map_of (infos ! threadIndex) libKey of
         None \<Rightarrow> []
       | Some info \<Rightarrow> [(threadIndex, \<lparr> si_threadLibSymbolicationInfo = info, si_resultsForLib = results \<rparr>)])
       [0 ..< Suc n]))"
    using n by (simp add: finishSymbolicationForLib_thread_def js_index_def split: option.splits)
  finally show ?case .
qed

lemma finishSymbolicationForLib_eq:
  assumes "length infos = length (threads profile)"
  shows "finishSymbolicationForLib profile infos results libKey calls =
     Inr (calls @ stepCallsFor infos results libKey)"
  unfolding finishSymbolicationForLib_def stepCallsFor_def
  using finish_prefix[of "length infos" infos results libKey calls] assms by simp

definition not_found :: "provider_error \<Rightarrow> bool" where
  "not_found error = (case error of SymbolsNotFoundError _ \<Rightarrow> True | Other_error _ \<Rightarrow> False)"

text \<open>The step callbacks and the warnings of a list of events none of which rethrows.\<close>

definition eventCalls :: "ThreadSymbolicationInfo list \<Rightarrow> provider_event \<Rightarrow> (nat \<times> SymbolicationStepInfo) list" where
  "eventCalls infos event =
     (case event of
        Symbols_found request results \<Rightarrow> stepCallsFor infos results (requestLibKey (lib request))
      | Symbols_failed request error \<Rightarrow> [])"

definition eventWarnings :: "provider_event \<Rightarrow> provider_error list" where
  "eventWarnings event =
     (case event of Symbols_found request results \<Rightarrow> [] | Symbols_failed request error \<Rightarrow> [error])"

definition recoverable :: "provider_event \<Rightarrow> bool" where
  "recoverable event =
     (case event of Symbols_found request results \<Rightarrow> True | Symbols_failed request error \<Rightarrow> not_found error)"

lemma fire_recoverable:
  assumes "length infos = length (threads profile)" and "recoverable event"
  shows "fire profile infos log event =
     Inr (log \<lparr> stepCalls := stepCalls log @ eventCalls infos event,
               warnings := warnings log @ eventWarnings event \<rparr>)"
  using assms(2)
  by (cases event)
     (auto simp: fire_def recoverable_def not_found_def eventCalls_def eventWarnings_def
        finishSymbolicationForLib_eq[OF assms(1)] split: provider_error.splits)

lemma fire_all_recoverable:
  assumes "length infos = length (threads profile)" and "\<forall>e \<in> set events. recoverable e"
  shows "for_of (fire profile infos) events log =
     Inr (log \<lparr> stepCalls := stepCalls log @ concat (map (eventCalls infos) events),
               warnings := warnings log @ concat (map eventWarnings events) \<rparr>)"
  using assms(2)
proof (induction events arbitrary: log)
  case Nil
  show ?case by simp
next
  case (Cons e events)
  then show ?case by (simp add: fire_recoverable[OF assms(1)])
qed

lemma fire_rethrows: "\<not> not_found error \<Longrightarrow> fire profile infos log (Symbols_failed request error) = Inl (Rethrown error)"
  by (cases error) (simp_all add: fire_def not_found_def)

definition scenario_profile :: Profile where
  "scenario_profile = \<lparr> threads = [scenario_thread] \<rparr>"

definition missing_store :: symbol_store where
  "missing_store requests =
     map (\<lambda>request. Symbols_failed request (SymbolsNotFoundError ''no symbols'')) requests"

definition broken_store :: symbol_store where
  "broken_store requests =
     map (\<lambda>request. Symbols_failed request (Other_error ''programming error'')) requests"

text \<open>
  C7. Let the collector succeed on every thread. When every failure that the store
  reports is a \<open>SymbolsNotFoundError\<close>, the run returns normally: each failure is
  logged and causes no call of the step callback, so the step calls are those of the
  successful libraries alone. When the store reports a failure with another error, after
  callbacks none of which threw, the run ends with that error rethrown; nothing is
  retried, the callbacks being run once.
\<close>

theorem provider_failures:
  assumes collected: "collectAll (threads profile) = Inr infos"
    and events: "getSymbols (buildLibSymbolicationRequestsForAllThreads infos) = events"
  shows "((\<forall>e \<in> set events. recoverable e) \<longrightarrow>
            symbolicateProfile profile getSymbols =
              Inr \<lparr> stepCalls = concat (map (eventCalls infos) events),
                    warnings = concat (map eventWarnings events) \<rparr>) \<and>
         (\<forall>before request error after.
            events = before @ [Symbols_failed request error] @ after \<and>
            (\<forall>e \<in> set before. recoverable e) \<and> \<not> not_found error \<longrightarrow>
            symbolicateProfile profile getSymbols = Inl (Rethrown error)) \<and>
         (\<forall>request error. eventCalls infos (Symbols_failed request error) = [])"
proof -
  note len = length_collectAll[OF collected]
  have run: "symbolicateProfile profile getSymbols =
      for_of (fire profile infos) events \<lparr> stepCalls = [], warnings = [] \<rparr>"
    by (simp add: symbolicateProfile_def collected events)
  have A: "(\<forall>e \<in> set events. recoverable e) \<longrightarrow>
            symbolicateProfile profile getSymbols =
              Inr \<lparr> stepCalls = concat (map (eventCalls infos) events),
                    warnings = concat (map eventWarnings events) \<rparr>"
    by (simp add: run fire_all_recoverable[OF len])
  have B: "symbolicateProfile profile getSymbols = Inl (Rethrown error)"
    if "events = before @ [Symbols_failed request error] @ after"
      "\<forall>e \<in> set before. recoverable e" "\<not> not_found error"
    for before request error after
    using that by (simp add: run for_of_append fire_all_recoverable[OF len] fire_rethrows)
  have C: "\<forall>request error. eventCalls infos (Symbols_failed request error) = []"
    by (simp add: eventCalls_def)
  from A B C show ?thesis by blast
qed
theorem provider_failures_witness:
  "collectAll (threads scenario_profile) = Inr [[(''firefox.pdb/00'', scenario_info)]] \<and>
   symbolicateProfile scenario_profile missing_store =
     Inr \<lparr> stepCalls = [], warnings = [SymbolsNotFoundError ''no symbols''] \<rparr> \<and>
   symbolicateProfile scenario_profile broken_store = Inl (Rethrown (Other_error ''programming error''))"
proof -
  let ?infos = "[[(''firefox.pdb/00'', scenario_info)]]"
  let ?request = "\<lparr> lib = \<lparr> rl_debugName = ''firefox.pdb'', rl_breakpadId = Some ''00'' \<rparr>,
                    addresses = [Some 0, Some 10] \<rparr>"
  have c: "collectAll (threads scenario_profile) = Inr ?infos"
    by code_simp
  have requests: "buildLibSymbolicationRequestsForAllThreads ?infos = [?request]"
    by code_simp
  have m: "missing_store (buildLibSymbolicationRequestsForAllThreads ?infos) =
      [Symbols_failed ?request (SymbolsNotFoundError ''no symbols'')]"
    by (simp add: requests missing_store_def)
  have b: "broken_store (buildLibSymbolicationRequestsForAllThreads ?infos) =
      [] @ [Symbols_failed ?request (Other_error ''programming error'')] @ []"
    by (simp add: requests broken_store_def)
  have "\<forall>e \<in> set [Symbols_failed ?request (SymbolsNotFoundError ''no symbols'')]. recoverable e"
    by (simp add: recoverable_def not_found_def)
  with provider_failures[where getSymbols = missing_store, OF c m]
  have one: "symbolicateProfile scenario_profile missing_store =
     Inr \<lparr> stepCalls = [], warnings = [SymbolsNotFoundError ''no symbols''] \<rparr>"
    by (simp add: eventCalls_def eventWarnings_def)
  have "\<not> not_found (Other_error ''programming error'')" by (simp add: not_found_def)
  with provider_failures[where getSymbols = broken_store, OF c b]
  have two: "symbolicateProfile scenario_profile broken_store =
      Inl (Rethrown (Other_error ''programming error''))"
    by (metis b empty_iff list.set(1))
  from c one two show ?thesis by blast
qed


section \<open>What the step leaves untouched\<close>

definition cell_fresh :: "nat \<Rightarrow> cell \<Rightarrow> bool" where
  "cell_fresh n c =
     (case c of
        NativeSymbolsObj sy \<Rightarrow> n \<le> sy_libIndex sy \<and> n \<le> sy_address sy \<and> n \<le> sy_name sy
      | FuncTableObj fu \<Rightarrow>
          n \<le> fu_name fu \<and> n \<le> fu_fileName fu \<and> n \<le> fu_resource fu \<and> n \<le> fu_isJS fu \<and>
          n \<le> fu_relevantForJS fu \<and> n \<le> fu_lineNumber fu \<and> n \<le> fu_columnNumber fu
      | _ \<Rightarrow> True)"

text \<open>
  \<open>kept h0 stringRef h\<close>: the store \<open>h\<close> has every object of \<open>h0\<close> as it was,
  the string table apart, which has only gained strings; and the clones among the objects
  that are new since \<open>h0\<close> have new columns.
\<close>

definition kept :: "store \<Rightarrow> ref \<Rightarrow> store \<Rightarrow> bool" where
  "kept h0 stringRef h \<longleftrightarrow>
     length h0 \<le> length h \<and>
     (\<forall>r < length h0. r \<noteq> stringRef \<longrightarrow> h ! r = h0 ! r) \<and>
     (\<exists>S0 S. get_strings h0 stringRef = Inr S0 \<and> get_strings h stringRef = Inr S \<and> prefix S0 S) \<and>
     (\<forall>r. length h0 \<le> r \<longrightarrow> r < length h \<longrightarrow> cell_fresh (length h0) (h ! r))"

lemma get_strings_Inr: "get_strings h r = Inr S \<longleftrightarrow> r < length h \<and> h ! r = StringTable S"
  by (auto simp: get_strings_def js_index_def split: cell.splits)

lemma get_nativeSymbols_Inr:
  "get_nativeSymbols h r = Inr sy \<longleftrightarrow> r < length h \<and> h ! r = NativeSymbolsObj sy"
  by (auto simp: get_nativeSymbols_def js_index_def split: cell.splits)

lemma get_funcTable_Inr:
  "get_funcTable h r = Inr fu \<longleftrightarrow> r < length h \<and> h ! r = FuncTableObj fu"
  by (auto simp: get_funcTable_def js_index_def split: cell.splits)

lemma get_frameTable_Inr:
  "get_frameTable h r = Inr fr \<longleftrightarrow> r < length h \<and> h ! r = FrameTableObj fr"
  by (auto simp: get_frameTable_def js_index_def split: cell.splits)

lemma get_thread_Inr:
  "get_thread h r = Inr tr \<longleftrightarrow> r < length h \<and> h ! r = ThreadObj tr"
  by (auto simp: get_thread_def js_index_def split: cell.splits)

lemma kept_refl: "get_strings h stringRef = Inr S \<Longrightarrow> kept h stringRef h"
  by (auto simp: kept_def)

lemma kept_alloc:
  assumes "kept h0 stringRef h" and "cell_fresh (length h0) c" and "alloc h c = (h', r)"
  shows "kept h0 stringRef h'" and "length h0 \<le> r" and "r < length h'" and "h' ! r = c"
proof -
  from assms(3) have h': "h' = h @ [c]" and r: "r = length h" by (auto simp: alloc_def)
  from assms(1) have len: "length h0 \<le> length h" by (simp add: kept_def)
  from assms(1) obtain S0 S where S: "get_strings h0 stringRef = Inr S0"
    "get_strings h stringRef = Inr S" "prefix S0 S"
    by (auto simp: kept_def)
  then have "get_strings h' stringRef = Inr S"
    by (auto simp: get_strings_Inr h' nth_append)
  with S assms(1,2) len show "kept h0 stringRef h'"
    unfolding kept_def h' by (auto simp: nth_append less_Suc_eq)
  from len show "length h0 \<le> r" "r < length h'" "h' ! r = c" by (simp_all add: r h')
qed

lemma kept_put_fresh:
  assumes "kept h0 stringRef h" and "length h0 \<le> r" and "cell_fresh (length h0) c"
  shows "kept h0 stringRef (put h r c)"
proof -
  from assms(1) obtain S0 S where S: "get_strings h0 stringRef = Inr S0"
    "get_strings h stringRef = Inr S" "prefix S0 S"
    by (auto simp: kept_def)
  from S(1) assms(2) have ne: "stringRef \<noteq> r" by (auto simp: get_strings_Inr)
  with S have "get_strings (put h r c) stringRef = Inr S"
    by (auto simp: get_strings_Inr put_def)
  moreover have "cell_fresh (length h0) (put h r c ! ra)"
    if "length h0 \<le> ra" "ra < length h" for ra
    using that assms by (cases "ra = r") (auto simp: put_def kept_def)
  moreover have "put h r c ! ra = h0 ! ra" if "ra < length h0" "ra \<noteq> stringRef" for ra
    using that assms by (auto simp: put_def kept_def)
  moreover have "length h0 \<le> length (put h r c)" using assms(1) by (simp add: put_def kept_def)
  ultimately show ?thesis
    using S unfolding kept_def by (auto simp: put_def)
qed

lemma kept_put_strings:
  assumes "kept h0 stringRef h" and "get_strings h stringRef = Inr S" and "prefix S S'"
  shows "kept h0 stringRef (put h stringRef (StringTable S'))"
proof -
  from assms(1) obtain S0 where S0: "get_strings h0 stringRef = Inr S0"
    "get_strings h stringRef = Inr S" "prefix S0 S"
    using assms(2) by (auto simp: kept_def)
  from S0(3) assms(3) have "prefix S0 S'" by (rule prefix_order.trans)
  moreover from S0(2) have "get_strings (put h stringRef (StringTable S')) stringRef = Inr S'"
    by (auto simp: get_strings_Inr put_def)
  moreover from S0(1) have "stringRef < length h0" by (simp add: get_strings_Inr)
  ultimately show ?thesis
    using assms(1) S0(1) unfolding kept_def put_def
    by (auto simp: nth_list_update cell_fresh_def)
qed

lemma kept_fresh_at:
  assumes "kept h0 stringRef h" and "length h0 \<le> r" and "r < length h"
  shows "cell_fresh (length h0) (h ! r)"
  using assms by (simp add: kept_def)

lemma kept_save_nativeSymbols:
  assumes k: "kept h0 stringRef h" and r: "length h0 \<le> r"
    and s: "save_nativeSymbols h r syms = Inr h'"
  shows "kept h0 stringRef h'"
proof -
  from s obtain sy where sy: "get_nativeSymbols h r = Inr sy"
    and h': "h' = put (put (put (put h (sy_libIndex sy) (Nats (ns_libIndex syms)))
                   (sy_address sy) (Ints (ns_address syms)))
                   (sy_name sy) (Nats (ns_name syms)))
              r (NativeSymbolsObj (sy \<lparr> sy_length := ns_length syms \<rparr>))"
    by (auto simp: save_nativeSymbols_def sbind_eq_Inr)
  from sy have "r < length h" "h ! r = NativeSymbolsObj sy" by (simp_all add: get_nativeSymbols_Inr)
  with kept_fresh_at[OF k r] have f: "length h0 \<le> sy_libIndex sy" "length h0 \<le> sy_address sy"
    "length h0 \<le> sy_name sy"
    by (simp_all add: cell_fresh_def)
  show ?thesis
    unfolding h' using f r
    by (intro kept_put_fresh k) (simp_all add: cell_fresh_def)
qed

lemma kept_save_funcTable:
  assumes k: "kept h0 stringRef h" and r: "length h0 \<le> r"
    and s: "save_funcTable h r funcs = Inr h'"
  shows "kept h0 stringRef h'"
proof -
  from s obtain fu where fu: "get_funcTable h r = Inr fu"
    and h': "h' = put (put (put (put (put (put (put (put h
              (fu_name fu) (Nats (fn_name funcs)))
              (fu_fileName fu) (NatOpts (fn_fileName funcs)))
              (fu_resource fu) (Ints (fn_resource funcs)))
              (fu_isJS fu) (Bools (fn_isJS funcs)))
              (fu_relevantForJS fu) (Bools (fn_relevantForJS funcs)))
              (fu_lineNumber fu) (IntOpts (fn_lineNumber funcs)))
              (fu_columnNumber fu) (IntOpts (fn_columnNumber funcs)))
              r (FuncTableObj (fu \<lparr> fu_length := fn_length funcs \<rparr>))"
    by (auto simp: save_funcTable_def sbind_eq_Inr)
  from fu have "r < length h" "h ! r = FuncTableObj fu" by (simp_all add: get_funcTable_Inr)
  with kept_fresh_at[OF k r] have f: "length h0 \<le> fu_name fu" "length h0 \<le> fu_fileName fu"
    "length h0 \<le> fu_resource fu" "length h0 \<le> fu_isJS fu" "length h0 \<le> fu_relevantForJS fu"
    "length h0 \<le> fu_lineNumber fu" "length h0 \<le> fu_columnNumber fu"
    by (simp_all add: cell_fresh_def)
  show ?thesis
    unfolding h' using f r
    by (intro kept_put_fresh k) (simp_all add: cell_fresh_def)
qed

lemma stepB_entry_strings:
  assumes "stepB_entry lix st entry = Inr st'"
  shows "prefix (b_stringTable st) (b_stringTable st')"
proof -
  obtain i strings where ifs: "indexForString (b_stringTable st) (snd entry) = (i, strings)"
    by (cases "indexForString (b_stringTable st) (snd entry)")
  from assms have "b_stringTable st' = strings"
    unfolding stepB_entry_def Let_def ifs
    by (auto simp: sbind_eq_Inr split: option.splits list.splits)
  with indexForString_props(1)[OF ifs] show ?thesis by simp
qed

lemma stepC_frame_strings:
  assumes "stepC_frame thread R rix syms col st f = Inr st'"
  shows "prefix (c_stringTable st) (c_stringTable st')"
proof -
  from assms obtain oldFunc r fi fli strings funcIndex st1 fc lc where
    inn: "internNames (c_stringTable st) r = (fi, fli, strings)"
    and ffk: "funcForKey rix (st \<lparr> c_stringTable := strings \<rparr>) fi fli = Inr (funcIndex, st1)"
    and st': "st' = st1 \<lparr> c_newFrameTableFuncColumn := fc, c_newFrameTableLineColumn := lc,
                  c_oldFuncToNewFuncEntries := c_oldFuncToNewFuncEntries st @ [(oldFunc, funcIndex)] \<rparr>"
    by (rule stepC_frame_InrE)
  from funcForKey_frame(4)[OF ffk] st' have "c_stringTable st' = strings" by simp
  with internNames_props(1)[OF inn] show ?thesis by simp
qed

lemma kept_stepB_entry_store:
  assumes k: "kept h0 stringRef h" and r: "length h0 \<le> symbolsRef"
    and s: "stepB_entry_store lix stringRef symbolsRef (h, canonical, iterator) entry =
              Inr (h', canonical', iterator')"
  shows "kept h0 stringRef h'"
proof -
  from s obtain syms strings st' where
    strings: "get_strings h stringRef = Inr strings"
    and b: "stepB_entry lix
              \<lparr> b_nativeSymbols = syms, b_stringTable = strings, b_canonical = canonical,
                b_availableNativeSymbolIterator = iterator \<rparr> entry = Inr st'"
    and save: "save_nativeSymbols (put h stringRef (StringTable (b_stringTable st'))) symbolsRef
              (b_nativeSymbols st') = Inr h'"
    by (auto simp: stepB_entry_store_def sbind_eq_Inr)
  from stepB_entry_strings[OF b] have "prefix strings (b_stringTable st')" by simp
  from kept_put_strings[OF k strings this]
  have "kept h0 stringRef (put h stringRef (StringTable (b_stringTable st')))" .
  from kept_save_nativeSymbols[OF this r save] show ?thesis .
qed

lemma kept_stepB_store:
  assumes k: "kept h0 stringRef h" and r: "length h0 \<le> symbolsRef"
    and s: "for_of (stepB_entry_store lix stringRef symbolsRef) entries (h, canonical, iterator) =
              Inr (h', canonical', iterator')"
  shows "kept h0 stringRef h'"
proof -
  have "kept h0 stringRef (fst (h', canonical', iterator'))"
  proof (rule for_of_invariant[where P = "\<lambda>st. kept h0 stringRef (fst st)", OF s])
    show "kept h0 stringRef (fst (h, canonical, iterator))" using k by simp
  next
    fix x t t'
    assume "kept h0 stringRef (fst t)" "stepB_entry_store lix stringRef symbolsRef t x = Inr t'"
    then show "kept h0 stringRef (fst t')"
      using kept_stepB_entry_store[OF _ r, of stringRef "fst t" lix "fst (snd t)" "snd (snd t)" x
          "fst t'" "fst (snd t')" "snd (snd t')"]
      by simp
  qed
  then show ?thesis by simp
qed

lemma kept_assign_store:
  assumes k: "kept h0 stringRef h" and r: "length h0 \<le> columnRef"
    and s: "for_of (assignNativeSymbol_store canonical columnRef) entries h = Inr h'"
  shows "kept h0 stringRef h'"
proof (rule for_of_invariant[where P = "kept h0 stringRef", OF s k])
  fix x t t'
  assume t: "kept h0 stringRef t" and "assignNativeSymbol_store canonical columnRef t x = Inr t'"
  then obtain column' where "t' = put t columnRef (NatOpts column')"
    by (auto simp: assignNativeSymbol_store_def sbind_eq_Inr)
  with kept_put_fresh[OF t r] show "kept h0 stringRef t'" by (simp add: cell_fresh_def)
qed

lemma kept_stepC_frame_store:
  assumes k: "kept h0 stringRef h"
    and r: "length h0 \<le> funcsRef" "length h0 \<le> funcColumnRef" "length h0 \<le> lineColumnRef"
    and s: "stepC_frame_store threadRef stringRef R rix symbolsRef symbolColumnRef funcsRef
              funcColumnRef lineColumnRef (h, locals) f = Inr (h', locals')"
  shows "kept h0 stringRef h'"
proof -
  from s obtain thread syms symbolColumn funcs funcColumn lineColumn strings st' h1 where
    strings: "get_strings h stringRef = Inr strings"
    and c: "stepC_frame thread R rix syms symbolColumn
              \<lparr> c_funcTable = funcs, c_stringTable = strings,
                c_availableFuncIter = l_availableFuncIter locals,
                c_funcKeyToFuncMap = l_funcKeyToFuncMap locals,
                c_oldFuncToNewFuncEntries = l_oldFuncToNewFuncEntries locals,
                c_newFrameTableFuncColumn = funcColumn,
                c_newFrameTableLineColumn = lineColumn \<rparr> f = Inr st'"
    and save: "save_funcTable (put h stringRef (StringTable (c_stringTable st')))
              funcsRef (c_funcTable st') = Inr h1"
    and h': "h' = put (put h1 funcColumnRef (Nats (c_newFrameTableFuncColumn st')))
                 lineColumnRef (IntOpts (c_newFrameTableLineColumn st'))"
    by (auto simp: stepC_frame_store_def sbind_eq_Inr)
  from stepC_frame_strings[OF c] have "prefix strings (c_stringTable st')" by simp
  from kept_put_strings[OF k strings this]
  have "kept h0 stringRef (put h stringRef (StringTable (c_stringTable st')))" .
  from kept_save_funcTable[OF this r(1) save] have "kept h0 stringRef h1" .
  then show ?thesis unfolding h'
    by (intro kept_put_fresh r) (simp_all add: cell_fresh_def)
qed

lemma kept_stepC_store:
  assumes k: "kept h0 stringRef h"
    and r: "length h0 \<le> funcsRef" "length h0 \<le> funcColumnRef" "length h0 \<le> lineColumnRef"
    and s: "for_of (stepC_frame_store threadRef stringRef R rix symbolsRef symbolColumnRef funcsRef
              funcColumnRef lineColumnRef) frames (h, locals) = Inr (h', locals')"
  shows "kept h0 stringRef h'"
proof -
  have "kept h0 stringRef (fst (h', locals'))"
  proof (rule for_of_invariant[where P = "\<lambda>st. kept h0 stringRef (fst st)", OF s])
    show "kept h0 stringRef (fst (h, locals))" using k by simp
  next
    fix x t t'
    assume "kept h0 stringRef (fst t)"
      "stepC_frame_store threadRef stringRef R rix symbolsRef symbolColumnRef funcsRef
              funcColumnRef lineColumnRef t x = Inr t'"
    then show "kept h0 stringRef (fst t')"
      using kept_stepC_frame_store[OF _ r, of stringRef "fst t" threadRef R rix symbolsRef
          symbolColumnRef "snd t" x "fst t'" "snd t'"]
      by simp
  qed
  then show ?thesis by simp
qed

lemma kept_append:
  assumes "kept h0 stringRef h" and "\<forall>c \<in> set cs. cell_fresh (length h0) c"
  shows "kept h0 stringRef (h @ cs)"
proof -
  from assms(1) obtain S0 S where S: "get_strings h0 stringRef = Inr S0"
    "get_strings h stringRef = Inr S" "prefix S0 S"
    by (auto simp: kept_def)
  then have "get_strings (h @ cs) stringRef = Inr S"
    by (auto simp: get_strings_Inr nth_append)
  moreover have "cell_fresh (length h0) ((h @ cs) ! r)" if "length h0 \<le> r" "r < length (h @ cs)" for r
    using that assms by (cases "r < length h") (auto simp: nth_append kept_def)
  moreover have "(h @ cs) ! r = h0 ! r" if "r < length h0" "r \<noteq> stringRef" for r
    using that assms(1) by (auto simp: nth_append kept_def)
  moreover have "length h0 \<le> length (h @ cs)" using assms(1) by (simp add: kept_def)
  ultimately show ?thesis using S unfolding kept_def by blast
qed

lemma kept_clone_nativeSymbols:
  assumes k: "kept h0 stringRef h" and c: "shallowCloneNativeSymbolTable h r = Inr (h', r')"
  shows "kept h0 stringRef h'" and "length h0 \<le> r'"
proof -
  from k have len: "length h0 \<le> length h" by (simp add: kept_def)
  from c[unfolded shallowCloneNativeSymbolTable_def sbind_eq_Inr Let_def]
  obtain syms where "load_nativeSymbols h r = Inr syms" and eq: "(Inr (h @ [Nats (ns_libIndex syms), Ints (ns_address syms),
      Nats (ns_name syms),
      NativeSymbolsObj \<lparr> sy_libIndex = length h, sy_address = length h + 1,
        sy_name = length h + 2, sy_length = ns_length syms \<rparr>], length h + 3)
      :: step_error + store \<times> ref) = Inr (h', r')"
    by (elim exE conjE)
  then have h': "h' = h @ [Nats (ns_libIndex syms), Ints (ns_address syms),
      Nats (ns_name syms),
      NativeSymbolsObj \<lparr> sy_libIndex = length h, sy_address = length h + 1,
        sy_name = length h + 2, sy_length = ns_length syms \<rparr>]"
    and r': "r' = length h + 3"
    by simp_all
  show "kept h0 stringRef h'" unfolding h'
    using len by (intro kept_append k) (simp add: cell_fresh_def)
  show "length h0 \<le> r'" using len r' by simp
qed

lemma kept_clone_funcTable:
  assumes k: "kept h0 stringRef h" and c: "shallowCloneFuncTable h r = Inr (h', r')"
  shows "kept h0 stringRef h'" and "length h0 \<le> r'"
proof -
  from k have len: "length h0 \<le> length h" by (simp add: kept_def)
  from c[unfolded shallowCloneFuncTable_def sbind_eq_Inr Let_def]
  obtain funcs where "load_funcTable h r = Inr funcs" and eq: "(Inr (h @ [Nats (fn_name funcs), NatOpts (fn_fileName funcs),
      Ints (fn_resource funcs), Bools (fn_isJS funcs), Bools (fn_relevantForJS funcs),
      IntOpts (fn_lineNumber funcs), IntOpts (fn_columnNumber funcs),
      FuncTableObj \<lparr> fu_name = length h, fu_fileName = length h + 1, fu_resource = length h + 2,
        fu_isJS = length h + 3, fu_relevantForJS = length h + 4, fu_lineNumber = length h + 5,
        fu_columnNumber = length h + 6, fu_length = fn_length funcs \<rparr>], length h + 7)
      :: step_error + store \<times> ref) = Inr (h', r')"
    by (elim exE conjE)
  then have h': "h' = h @ [Nats (fn_name funcs), NatOpts (fn_fileName funcs),
      Ints (fn_resource funcs), Bools (fn_isJS funcs), Bools (fn_relevantForJS funcs),
      IntOpts (fn_lineNumber funcs), IntOpts (fn_columnNumber funcs),
      FuncTableObj \<lparr> fu_name = length h, fu_fileName = length h + 1, fu_resource = length h + 2,
        fu_isJS = length h + 3, fu_relevantForJS = length h + 4, fu_lineNumber = length h + 5,
        fu_columnNumber = length h + 6, fu_length = fn_length funcs \<rparr>]"
    and r': "r' = length h + 7"
    by simp_all
  show "kept h0 stringRef h'" unfolding h'
    using len by (intro kept_append k) (simp add: cell_fresh_def)
  show "length h0 \<le> r'" using len r' by simp
qed

lemma applySymbolicationStep_store_InrE:
  assumes "applySymbolicationStep_store h threadRef info R m0 = Inr (h', threadRef', m')"
  obtains tr oldFrameTable thread stA h1 symbolsRef h2 canonical iterator oldSymbolColumn h4 h5
    funcsRef oldFuncColumn oldLineColumn h8 locals where
    "get_thread h threadRef = Inr tr"
    "get_frameTable h (tr_frameTable tr) = Inr oldFrameTable"
    "load_thread h threadRef = Inr thread"
    "stepA thread info R = Inr stA"
    "shallowCloneNativeSymbolTable h (tr_nativeSymbols tr) = Inr (h1, symbolsRef)"
    "for_of (stepB_entry_store (libIndex info) (tr_stringTable tr) symbolsRef)
              (symbolAddressToNameMap stA)
              (h1, symbolAddressToCanonicalSymbolIndexMap stA, availableNativeSymbols stA)
       = Inr (h2, canonical, iterator)"
    "get_natOpts h2 (fr_nativeSymbol oldFrameTable) = Inr oldSymbolColumn"
    "for_of (assignNativeSymbol_store canonical (length h2))
              (frameToSymbolAddressMap stA) (h2 @ [NatOpts oldSymbolColumn]) = Inr h4"
    "shallowCloneFuncTable h4 (tr_funcTable tr) = Inr (h5, funcsRef)"
    "get_nats h5 (fr_func oldFrameTable) = Inr oldFuncColumn"
    "get_intOpts h5 (fr_line oldFrameTable) = Inr oldLineColumn"
    "for_of (stepC_frame_store threadRef (tr_stringTable tr) R (resourceIndex info)
                      symbolsRef (length h2) funcsRef (length h5) (Suc (length h5)))
              (allFramesForThisLib info)
              (h5 @ [Nats oldFuncColumn, IntOpts oldLineColumn],
               \<lparr> l_availableFuncIter = new_Set (allFuncsForThisLib info),
                     l_funcKeyToFuncMap = [], l_oldFuncToNewFuncEntries = [] \<rparr>)
       = Inr (h8, locals)"
    "h' = h8 @ [FrameTableObj (oldFrameTable
            \<lparr> fr_func := length h5, fr_nativeSymbol := length h2, fr_line := Suc (length h5) \<rparr>),
          ThreadObj (tr \<lparr> tr_frameTable := length h8, tr_funcTable := funcsRef,
              tr_nativeSymbols := symbolsRef \<rparr>)]"
    "threadRef' = Suc (length h8)"
    "m' = mergeInto (makeConsensusMap (l_oldFuncToNewFuncEntries locals)) m0"
  using assms unfolding applySymbolicationStep_store_def
  by (auto simp: sbind_eq_Inr alloc_def split: prod.splits)

lemma load_thread_strings:
  assumes "load_thread h threadRef = Inr thread" and "get_thread h threadRef = Inr tr"
  shows "get_strings h (tr_stringTable tr) = Inr (stringTable thread)"
  using assms by (auto simp: load_thread_def sbind_eq_Inr)

lemma kept_length: "kept h0 stringRef h \<Longrightarrow> length h0 \<le> length h"
  by (simp add: kept_def)


text \<open>The thread of the scenario in a store, and the store after the step.\<close>

definition scenario_store :: store where
  "scenario_store =
     [Ints [0, 10], Nats [0, 1], NatOpts [None, None], IntOpts [None, None], OtherColumn,
      FrameTableObj \<lparr> fr_address = 0, fr_func = 1, fr_nativeSymbol = 2, fr_line = 3,
        fr_others = [4], fr_length = 2 \<rparr>,
      Nats [0, 1], NatOpts [None, None], Ints [0, 0], Bools [False, False], Bools [False, False],
      IntOpts [None, None], IntOpts [None, None],
      FuncTableObj \<lparr> fu_name = 6, fu_fileName = 7, fu_resource = 8, fu_isJS = 9,
        fu_relevantForJS = 10, fu_lineNumber = 11, fu_columnNumber = 12, fu_length = 2 \<rparr>,
      Nats [], Ints [], Nats [],
      NativeSymbolsObj \<lparr> sy_libIndex = 14, sy_address = 15, sy_name = 16, sy_length = 0 \<rparr>,
      StringTable [''0x0'', ''0xa''],
      ThreadObj \<lparr> tr_frameTable = 5, tr_funcTable = 13, tr_nativeSymbols = 17, tr_stringTable = 18,
        tr_libs = libs scenario_thread, tr_resourceTable = resourceTable scenario_thread \<rparr>]"

definition scenario_store' :: store where
  "scenario_store' =
     scenario_store[18 := StringTable [''0x0'', ''0xa'', ''first symbol'']] @
     [Nats [0], Ints [0], Nats [2],
      NativeSymbolsObj \<lparr> sy_libIndex = 20, sy_address = 21, sy_name = 22, sy_length = 1 \<rparr>,
      NatOpts [Some 0, Some 0],
      Nats [2, 1], NatOpts [None, None], Ints [0, 0], Bools [False, False], Bools [False, False],
      IntOpts [None, None], IntOpts [None, None],
      FuncTableObj \<lparr> fu_name = 25, fu_fileName = 26, fu_resource = 27, fu_isJS = 28,
        fu_relevantForJS = 29, fu_lineNumber = 30, fu_columnNumber = 31, fu_length = 2 \<rparr>,
      Nats [0, 0], IntOpts [None, None],
      FrameTableObj \<lparr> fr_address = 0, fr_func = 33, fr_nativeSymbol = 24, fr_line = 34,
        fr_others = [4], fr_length = 2 \<rparr>,
      ThreadObj \<lparr> tr_frameTable = 35, tr_funcTable = 32, tr_nativeSymbols = 23,
        tr_stringTable = 18,
        tr_libs = libs scenario_thread, tr_resourceTable = resourceTable scenario_thread \<rparr>]"


text \<open>
  C6, as the code has it. The step writes to no object of the store it was given, the
  string table apart: every other cell of the old store is the same afterwards, and the
  string table of the input thread, which the new thread shares, has only gained strings
  at its end. The new thread and its frame table are new objects; the func table, the
  native symbol table and the \<open>func\<close>, \<open>nativeSymbol\<close> and \<open>line\<close> columns of the new
  frame table are new too, and every table object made by the step has columns made by the
  step; the other columns of the frame table are the old ones, by reference.
\<close>

theorem non_destructive_update:
  assumes run: "applySymbolicationStep_store h threadRef info R m0 = Inr (h', threadRef', m')"
  shows "\<exists>tr fr tr' fr' S S'.
     get_thread h threadRef = Inr tr \<and> get_frameTable h (tr_frameTable tr) = Inr fr \<and>
     get_thread h' threadRef' = Inr tr' \<and> get_frameTable h' (tr_frameTable tr') = Inr fr' \<and>
     length h \<le> length h' \<and>
     (\<forall>r < length h. r \<noteq> tr_stringTable tr \<longrightarrow> h' ! r = h ! r) \<and>
     get_strings h (tr_stringTable tr) = Inr S \<and> get_strings h' (tr_stringTable tr) = Inr S' \<and>
     prefix S S' \<and>
     tr_stringTable tr' = tr_stringTable tr \<and>
     length h \<le> threadRef' \<and>
     length h \<le> tr_frameTable tr' \<and> length h \<le> tr_funcTable tr' \<and>
     length h \<le> tr_nativeSymbols tr' \<and>
     length h \<le> fr_func fr' \<and> length h \<le> fr_nativeSymbol fr' \<and> length h \<le> fr_line fr' \<and>
     fr_address fr' = fr_address fr \<and> fr_others fr' = fr_others fr \<and>
     (\<forall>r. length h \<le> r \<longrightarrow> r < length h' \<longrightarrow> cell_fresh (length h) (h' ! r))"
proof -
  from run obtain tr oldFrameTable thread stA h1 symbolsRef h2 canonical iterator oldSymbolColumn
    h4 h5 funcsRef oldFuncColumn oldLineColumn h8 locals where
    tr: "get_thread h threadRef = Inr tr"
    and fr: "get_frameTable h (tr_frameTable tr) = Inr oldFrameTable"
    and load: "load_thread h threadRef = Inr thread"
    and a: "stepA thread info R = Inr stA"
    and cloneS: "shallowCloneNativeSymbolTable h (tr_nativeSymbols tr) = Inr (h1, symbolsRef)"
    and b: "for_of (stepB_entry_store (libIndex info) (tr_stringTable tr) symbolsRef)
              (symbolAddressToNameMap stA)
              (h1, symbolAddressToCanonicalSymbolIndexMap stA, availableNativeSymbols stA)
       = Inr (h2, canonical, iterator)"
    and col: "get_natOpts h2 (fr_nativeSymbol oldFrameTable) = Inr oldSymbolColumn"
    and asg: "for_of (assignNativeSymbol_store canonical (length h2))
              (frameToSymbolAddressMap stA) (h2 @ [NatOpts oldSymbolColumn]) = Inr h4"
    and cloneF: "shallowCloneFuncTable h4 (tr_funcTable tr) = Inr (h5, funcsRef)"
    and fcol: "get_nats h5 (fr_func oldFrameTable) = Inr oldFuncColumn"
    and lcol: "get_intOpts h5 (fr_line oldFrameTable) = Inr oldLineColumn"
    and c: "for_of (stepC_frame_store threadRef (tr_stringTable tr) R (resourceIndex info)
                      symbolsRef (length h2) funcsRef (length h5) (Suc (length h5)))
              (allFramesForThisLib info)
              (h5 @ [Nats oldFuncColumn, IntOpts oldLineColumn],
               \<lparr> l_availableFuncIter = new_Set (allFuncsForThisLib info),
                     l_funcKeyToFuncMap = [], l_oldFuncToNewFuncEntries = [] \<rparr>)
       = Inr (h8, locals)"
    and h': "h' = h8 @ [FrameTableObj (oldFrameTable
            \<lparr> fr_func := length h5, fr_nativeSymbol := length h2, fr_line := Suc (length h5) \<rparr>),
          ThreadObj (tr \<lparr> tr_frameTable := length h8, tr_funcTable := funcsRef,
              tr_nativeSymbols := symbolsRef \<rparr>)]"
    and t': "threadRef' = Suc (length h8)"
    and m': "m' = mergeInto (makeConsensusMap (l_oldFuncToNewFuncEntries locals)) m0"
    by (rule applySymbolicationStep_store_InrE)
  let ?s = "tr_stringTable tr"
  from load_thread_strings[OF load tr] have k0: "kept h ?s h" by (rule kept_refl)
  note k1 = kept_clone_nativeSymbols[OF k0 cloneS]
  note k2 = kept_stepB_store[OF k1(1) k1(2) b]
  from k2 have l2: "length h \<le> length h2" by (rule kept_length)
  from k2 have k3: "kept h ?s (h2 @ [NatOpts oldSymbolColumn])"
    by (rule kept_append) (simp add: cell_fresh_def)
  note k4 = kept_assign_store[OF k3 l2 asg]
  note k5 = kept_clone_funcTable[OF k4 cloneF]
  from k5(1) have l5: "length h \<le> length h5" by (rule kept_length)
  from k5(1) have k7: "kept h ?s (h5 @ [Nats oldFuncColumn, IntOpts oldLineColumn])"
    by (rule kept_append) (simp add: cell_fresh_def)
  from l5 have l5': "length h \<le> Suc (length h5)" by simp
  note k8 = kept_stepC_store[OF k7 k5(2) l5 l5' c]
  from k8 have l8: "length h \<le> length h8" by (rule kept_length)
  from k8 have k10: "kept h ?s h'" unfolding h'
    by (rule kept_append) (simp add: cell_fresh_def)
  from k10 obtain S S' where S: "get_strings h ?s = Inr S" "get_strings h' ?s = Inr S'" "prefix S S'"
    by (auto simp: kept_def)
  let ?fr' = "oldFrameTable
            \<lparr> fr_func := length h5, fr_nativeSymbol := length h2, fr_line := Suc (length h5) \<rparr>"
  let ?tr' = "tr \<lparr> tr_frameTable := length h8, tr_funcTable := funcsRef,
              tr_nativeSymbols := symbolsRef \<rparr>"
  have gt: "get_thread h' threadRef' = Inr ?tr'"
    by (simp add: get_thread_Inr h' t' nth_append)
  have gf: "get_frameTable h' (tr_frameTable ?tr') = Inr ?fr'"
    by (simp add: get_frameTable_Inr h' nth_append)
  from k10 have unchanged: "\<forall>r < length h. r \<noteq> ?s \<longrightarrow> h' ! r = h ! r"
    and fresh: "\<forall>r. length h \<le> r \<longrightarrow> r < length h' \<longrightarrow> cell_fresh (length h) (h' ! r)"
    and len: "length h \<le> length h'"
    by (simp_all add: kept_def)
  from l8 t' have lt: "length h \<le> threadRef'" by simp
  show ?thesis
    apply (rule exI[of _ tr], rule exI[of _ oldFrameTable], rule exI[of _ ?tr'],
        rule exI[of _ ?fr'], rule exI[of _ S], rule exI[of _ S'])
    using tr fr gt gf len unchanged S lt l8 k5(2) k1(2) l5 l2 l5' fresh
    by simp
qed

theorem non_destructive_update_witness:
  "applySymbolicationStep_store scenario_store 19 scenario_info scenario_results [] =
     Inr (scenario_store', 36, [(0, 0), (1, 0)]) \<and>
   load_thread scenario_store 19 = Inr scenario_thread \<and>
   load_thread scenario_store' 36 = Inr scenario_thread' \<and>
   scenario_store' ! 5 = scenario_store ! 5 \<and>
   scenario_store' ! 13 = scenario_store ! 13 \<and>
   scenario_store' ! 17 = scenario_store ! 17 \<and>
   scenario_store' ! 19 = scenario_store ! 19"
proof -
  have run: "applySymbolicationStep_store scenario_store 19 scenario_info scenario_results [] =
     Inr (scenario_store', 36, [(0, 0), (1, 0)])"
    by code_simp
  have l: "load_thread scenario_store 19 = Inr scenario_thread"
    and l': "load_thread scenario_store' 36 = Inr scenario_thread'"
    by code_simp+
  have len: "length scenario_store = 20" by (simp add: scenario_store_def)
  have tr: "get_thread scenario_store 19 = Inr \<lparr> tr_frameTable = 5, tr_funcTable = 13,
        tr_nativeSymbols = 17, tr_stringTable = 18,
        tr_libs = libs scenario_thread, tr_resourceTable = resourceTable scenario_thread \<rparr>"
    by (simp add: scenario_store_def get_thread_def js_index_def)
  from non_destructive_update[OF run] tr len
  have same: "\<forall>r < 20. r \<noteq> 18 \<longrightarrow> scenario_store' ! r = scenario_store ! r"
    by auto
  from same have "scenario_store' ! 5 = scenario_store ! 5" "scenario_store' ! 13 = scenario_store ! 13"
    "scenario_store' ! 17 = scenario_store ! 17" "scenario_store' ! 19 = scenario_store ! 19"
    by simp_all
  with run l l' show ?thesis by blast
qed


text \<open>
  The string table is written in place: after the step on the thread of the scenario, the
  string table that the input thread refers to holds the name of the new symbol, so the
  input thread read from the store afterwards is not the thread that was put in.
\<close>

theorem non_destructive_update_counterexample:
  "applySymbolicationStep_store scenario_store 19 scenario_info scenario_results [] =
     Inr (scenario_store', 36, [(0, 0), (1, 0)]) \<and>
   load_thread scenario_store 19 = Inr scenario_thread \<and>
   load_thread scenario_store' 19 \<noteq> Inr scenario_thread \<and>
   get_strings scenario_store 18 = Inr [''0x0'', ''0xa''] \<and>
   get_strings scenario_store' 18 = Inr [''0x0'', ''0xa'', ''first symbol'']"
  by code_simp


section \<open>Applying the step twice\<close>

text \<open>The invariants of the tables: every column has as many entries as the table's \<open>length\<close>, and every frame has a func of the func table.\<close>

definition nativeSymbols_wf :: "NativeSymbolTable \<Rightarrow> bool" where
  "nativeSymbols_wf syms \<longleftrightarrow>
     length (ns_libIndex syms) = ns_length syms \<and>
     length (ns_address syms) = ns_length syms \<and>
     length (ns_name syms) = ns_length syms"

definition funcTable_wf :: "FuncTable \<Rightarrow> bool" where
  "funcTable_wf funcs \<longleftrightarrow>
     length (fn_name funcs) = fn_length funcs \<and>
     length (fn_fileName funcs) = fn_length funcs \<and>
     length (fn_resource funcs) = fn_length funcs \<and>
     length (fn_isJS funcs) = fn_length funcs \<and>
     length (fn_relevantForJS funcs) = fn_length funcs \<and>
     length (fn_lineNumber funcs) = fn_length funcs \<and>
     length (fn_columnNumber funcs) = fn_length funcs"

definition wellFormed :: "Thread \<Rightarrow> bool" where
  "wellFormed thread \<longleftrightarrow>
     length (ft_address (frameTable thread)) = ft_length (frameTable thread) \<and>
     length (ft_func (frameTable thread)) = ft_length (frameTable thread) \<and>
     length (ft_nativeSymbol (frameTable thread)) = ft_length (frameTable thread) \<and>
     length (ft_line (frameTable thread)) = ft_length (frameTable thread) \<and>
     (\<forall>g \<in> set (ft_func (frameTable thread)). g < fn_length (funcTable thread)) \<and>
     funcTable_wf (funcTable thread) \<and>
     nativeSymbols_wf (nativeSymbols thread)"

definition canon_ok :: "nat \<Rightarrow> NativeSymbolTable \<Rightarrow> (int, nat) js_map \<Rightarrow> nat list \<Rightarrow> bool" where
  "canon_ok lix syms canon avail \<longleftrightarrow>
     nativeSymbols_wf syms \<and> distinct (map snd canon) \<and> distinct avail \<and>
     snd ` set canon \<inter> set avail = {} \<and>
     (\<forall>s \<in> snd ` set canon \<union> set avail. s < ns_length syms \<and> ns_libIndex syms ! s = lix)"

lemma stepA_frame_cases:
  assumes "stepA_frame thread R st f = Inr st'"
  obtains (claim) old r s where
      "stepA_resolve thread R f = Inr (old, r)"
      "frameToSymbolAddressMap st' = AList.update f (symbolAddress r) (frameToSymbolAddressMap st)"
      "symbolAddressToNameMap st' = AList.update (symbolAddress r) (ar_name r) (symbolAddressToNameMap st)"
      "old = Some s"
      "map_of (symbolAddressToCanonicalSymbolIndexMap st) (symbolAddress r) = None"
      "s \<in> set (availableNativeSymbols st)"
      "symbolAddressToCanonicalSymbolIndexMap st' =
         AList.update (symbolAddress r) s (symbolAddressToCanonicalSymbolIndexMap st)"
      "availableNativeSymbols st' = set_delete (availableNativeSymbols st) s"
    | (keep) old r where
      "stepA_resolve thread R f = Inr (old, r)"
      "frameToSymbolAddressMap st' = AList.update f (symbolAddress r) (frameToSymbolAddressMap st)"
      "symbolAddressToNameMap st' = AList.update (symbolAddress r) (ar_name r) (symbolAddressToNameMap st)"
      "old = None \<or> map_of (symbolAddressToCanonicalSymbolIndexMap st) (symbolAddress r) \<noteq> None \<or>
        (\<exists>s. old = Some s \<and> s \<notin> set (availableNativeSymbols st))"
      "symbolAddressToCanonicalSymbolIndexMap st' = symbolAddressToCanonicalSymbolIndexMap st"
      "availableNativeSymbols st' = availableNativeSymbols st"
proof -
  let ?c = "symbolAddressToCanonicalSymbolIndexMap"
  from assms obtain x where "stepA_resolve thread R f = Inr x"
    by (cases "stepA_resolve thread R f") (simp_all add: stepA_frame_def)
  then obtain old r where res: "stepA_resolve thread R f = Inr (old, r)" by (cases x) auto
  show ?thesis
  proof (cases old)
    case None
    with res assms show ?thesis by (intro keep[of old r]) (auto simp: stepA_frame_def Let_def)
  next
    case (Some s)
    show ?thesis
    proof (cases "map_of (?c st) (symbolAddress r) \<noteq> None")
      case True
      with res assms Some show ?thesis by (intro keep[of old r]) (auto simp: stepA_frame_def Let_def)
    next
      case False
      then have n: "map_of (?c st) (symbolAddress r) = None" by simp
      show ?thesis
      proof (cases "s \<in> set (availableNativeSymbols st)")
        case True
        with res assms Some n show ?thesis
          by (intro claim[of old r s]) (auto simp: stepA_frame_def Let_def)
      next
        case False
        with res assms Some n show ?thesis
          by (intro keep[of old r]) (auto simp: stepA_frame_def Let_def)
      qed
    qed
  qed
qed

lemma canon_ok_claim:
  assumes ok: "canon_ok lix syms canon avail" and s: "s \<in> set avail" and n: "map_of canon sa = None"
  shows "canon_ok lix syms (AList.update sa s canon) (set_delete avail s)"
proof -
  from n have "sa \<notin> fst ` set canon" by (simp add: map_of_eq_None_iff)
  then have u: "AList.update sa s canon = canon @ [(sa, s)]" by (rule alist_update_fresh)
  from ok s have "s \<notin> snd ` set canon" by (auto simp: canon_ok_def)
  with ok s show ?thesis unfolding u canon_ok_def set_delete_def
    by (auto simp: distinct_removeAll)
qed

definition stepA_inv :: "nat \<Rightarrow> NativeSymbolTable \<Rightarrow> stepA_state \<Rightarrow> bool" where
  "stepA_inv lix syms st \<longleftrightarrow>
     canon_ok lix syms (symbolAddressToCanonicalSymbolIndexMap st) (availableNativeSymbols st) \<and>
     distinct (map fst (symbolAddressToNameMap st)) \<and>
     fst ` set (symbolAddressToCanonicalSymbolIndexMap st) \<subseteq> fst ` set (symbolAddressToNameMap st)"

lemma stepA_inv_step:
  assumes inv: "stepA_inv lix syms st" and step: "stepA_frame thread R st f = Inr st'"
  shows "stepA_inv lix syms st'"
  using step
proof (cases rule: stepA_frame_cases)
  case (claim old r s)
  from inv have ok: "canon_ok lix syms (symbolAddressToCanonicalSymbolIndexMap st) (availableNativeSymbols st)"
    by (simp add: stepA_inv_def)
  from canon_ok_claim[OF ok claim(6) claim(5)] inv show ?thesis
    unfolding stepA_inv_def claim(3,7,8) by (auto simp: dom_update distinct_update)
next
  case (keep old r)
  with inv show ?thesis
    unfolding stepA_inv_def keep(3,5,6) by (auto simp: dom_update distinct_update)
qed

lemma collectNativeSymbols_iff:
  "nativeSymbols_wf syms \<Longrightarrow>
   s \<in> set (collectNativeSymbols syms lix) \<longleftrightarrow> s < ns_length syms \<and> ns_libIndex syms ! s = lix"
  by (auto simp: collectNativeSymbols_def js_index_def nativeSymbols_wf_def)

lemma distinct_collectNativeSymbols: "distinct (collectNativeSymbols syms lix)"
  by (simp add: collectNativeSymbols_def)

lemma new_Set_distinct_id: "distinct xs \<Longrightarrow> new_Set xs = xs"
proof (induction xs rule: rev_induct)
  case Nil
  show ?case by (simp add: new_Set_def)
next
  case (snoc x xs)
  then show ?case by (simp add: new_Set_def set_add_def)
qed

lemma stepA_inv_all:
  assumes run: "stepA thread (collectInfo thread rix lix) R = Inr stA"
    and wf: "nativeSymbols_wf (nativeSymbols thread)"
  shows "stepA_inv lix (nativeSymbols thread) stA"
proof -
  have "stepA_inv lix (nativeSymbols thread) (stepA_init (collectInfo thread rix lix))"
    using wf
    by (simp add: stepA_inv_def stepA_init_def canon_ok_def collectInfo_def Let_def
        new_Set_distinct_id distinct_collectNativeSymbols collectNativeSymbols_iff)
  from for_of_invariant[where P = "stepA_inv lix (nativeSymbols thread)", OF run[unfolded stepA_def] this]
  show ?thesis using stepA_inv_step by blast
qed


lemma stepB_entry_cases:
  assumes "stepB_entry lix st (sa, nm) = Inr st'"
  obtains (known) s where
      "map_of (b_canonical st) sa = Some s"
      "b_canonical st' = b_canonical st"
      "b_availableNativeSymbolIterator st' = b_availableNativeSymbolIterator st"
      "ns_length (b_nativeSymbols st') = ns_length (b_nativeSymbols st)"
      "ns_libIndex (b_nativeSymbols st') = ns_libIndex (b_nativeSymbols st)"
      "b_stringTable st' = snd (indexForString (b_stringTable st) nm)"
      "store_at (ns_address (b_nativeSymbols st)) s sa = Inr (ns_address (b_nativeSymbols st'))"
      "store_at (ns_name (b_nativeSymbols st)) s (fst (indexForString (b_stringTable st) nm)) =
         Inr (ns_name (b_nativeSymbols st'))"
    | (reuse) s where
      "map_of (b_canonical st) sa = None"
      "b_canonical st' = AList.update sa s (b_canonical st)"
      "b_availableNativeSymbolIterator st = s # b_availableNativeSymbolIterator st'"
      "ns_length (b_nativeSymbols st') = ns_length (b_nativeSymbols st)"
      "ns_libIndex (b_nativeSymbols st') = ns_libIndex (b_nativeSymbols st)"
      "b_stringTable st' = snd (indexForString (b_stringTable st) nm)"
      "store_at (ns_address (b_nativeSymbols st)) s sa = Inr (ns_address (b_nativeSymbols st'))"
      "store_at (ns_name (b_nativeSymbols st)) s (fst (indexForString (b_stringTable st) nm)) =
         Inr (ns_name (b_nativeSymbols st'))"
    | (fresh) s where
      "map_of (b_canonical st) sa = None"
      "b_canonical st' = AList.update sa s (b_canonical st)"
      "b_availableNativeSymbolIterator st = []" "b_availableNativeSymbolIterator st' = []"
      "s = ns_length (b_nativeSymbols st)"
      "ns_length (b_nativeSymbols st') = ns_length (b_nativeSymbols st) + 1"
      "store_at (ns_libIndex (b_nativeSymbols st)) s lix = Inr (ns_libIndex (b_nativeSymbols st'))"
      "b_stringTable st' = snd (indexForString (b_stringTable st) nm)"
      "store_at (ns_address (b_nativeSymbols st)) s sa = Inr (ns_address (b_nativeSymbols st'))"
      "store_at (ns_name (b_nativeSymbols st)) s (fst (indexForString (b_stringTable st) nm)) =
         Inr (ns_name (b_nativeSymbols st'))"
proof -
  obtain i strings where ifs: "indexForString (b_stringTable st) nm = (i, strings)"
    by (cases "indexForString (b_stringTable st) nm")
  show ?thesis
  proof (cases "map_of (b_canonical st) sa")
    case (Some s)
    with assms ifs show ?thesis
      by (intro known[of s]) (auto simp: stepB_entry_def Let_def sbind_eq_Inr)
  next
    case None
    show ?thesis
    proof (cases "b_availableNativeSymbolIterator st")
      case (Cons s rest)
      with assms ifs None show ?thesis
        by (intro reuse[of s]) (auto simp: stepB_entry_def Let_def sbind_eq_Inr)
    next
      case Nil
      with assms ifs None show ?thesis
        by (intro fresh[of "ns_length (b_nativeSymbols st)"])
           (auto simp: stepB_entry_def Let_def sbind_eq_Inr)
    qed
  qed
qed

lemma store_at_nth:
  assumes "store_at xs i v = Inr ys"
  shows "i < length ys" and "ys ! i = v" and "\<And>t. t < length xs \<Longrightarrow> t \<noteq> i \<Longrightarrow> ys ! t = xs ! t"
    and "i < length xs \<Longrightarrow> length ys = length xs"
    and "i = length xs \<Longrightarrow> length ys = length xs + 1"
    and "i \<le> length xs"
  using assms by (auto simp: store_at_Inr nth_append)

text \<open>
  After the loop over the symbol addresses, every address has its canonical symbol, a
  symbol of the library that carries the address and the index of the name.
\<close>

definition stepB_inv :: "nat \<Rightarrow> (int \<times> string) list \<Rightarrow> stepB_state \<Rightarrow> bool" where
  "stepB_inv lix pre st \<longleftrightarrow>
     (distinct (map fst pre) \<longrightarrow>
       canon_ok lix (b_nativeSymbols st) (b_canonical st) (b_availableNativeSymbolIterator st) \<and>
       (\<forall>(sa, nm) \<in> set pre. \<exists>s. map_of (b_canonical st) sa = Some s \<and>
          ns_address (b_nativeSymbols st) ! s = sa \<and>
          nm \<in> set (b_stringTable st) \<and>
          ns_name (b_nativeSymbols st) ! s = index_of nm (b_stringTable st)))"

lemma canon_ok_lt:
  "canon_ok lix syms canon avail \<Longrightarrow> map_of canon k = Some v \<Longrightarrow> v < ns_length syms"
  by (force simp: canon_ok_def dest: map_of_SomeD)

lemma stepB_entry_facts:
  assumes ok: "canon_ok lix (b_nativeSymbols st) (b_canonical st) (b_availableNativeSymbolIterator st)"
    and step: "stepB_entry lix st (sa, nm) = Inr st'"
  shows "\<exists>s. map_of (b_canonical st') sa = Some s \<and>
      (\<forall>k v. map_of (b_canonical st) k = Some v \<longrightarrow> k \<noteq> sa \<longrightarrow>
          map_of (b_canonical st') k = Some v \<and> v \<noteq> s) \<and>
      canon_ok lix (b_nativeSymbols st') (b_canonical st') (b_availableNativeSymbolIterator st') \<and>
      s < ns_length (b_nativeSymbols st') \<and>
      ns_address (b_nativeSymbols st') ! s = sa \<and>
      ns_name (b_nativeSymbols st') ! s = fst (indexForString (b_stringTable st) nm) \<and>
      (\<forall>t < ns_length (b_nativeSymbols st). t \<noteq> s \<longrightarrow>
         ns_address (b_nativeSymbols st') ! t = ns_address (b_nativeSymbols st) ! t \<and>
         ns_name (b_nativeSymbols st') ! t = ns_name (b_nativeSymbols st) ! t) \<and>
      b_stringTable st' = snd (indexForString (b_stringTable st) nm)"
proof -
  let ?syms = "b_nativeSymbols st" and ?syms' = "b_nativeSymbols st'"
  from ok have wf: "length (ns_libIndex ?syms) = ns_length ?syms"
    "length (ns_address ?syms) = ns_length ?syms" "length (ns_name ?syms) = ns_length ?syms"
    by (simp_all add: canon_ok_def nativeSymbols_wf_def)
  from ok have dsnd: "distinct (map snd (b_canonical st))" by (simp add: canon_ok_def)
  show ?thesis using step
  proof (cases rule: stepB_entry_cases)
    case (known s)
    from canon_ok_lt[OF ok known(1)] have lt: "s < ns_length ?syms" .
    note a = store_at_nth[OF known(7)] and n = store_at_nth[OF known(8)]
    have inj: "v \<noteq> s" if "map_of (b_canonical st) k = Some v" "k \<noteq> sa" for k v
      using distinct_snd_inj[OF dsnd that(1), of sa] known(1) that(2) by auto
    have wf': "nativeSymbols_wf ?syms'"
      using wf lt a(4) n(4) known(4,5) by (simp add: nativeSymbols_wf_def)
    have ok': "canon_ok lix ?syms' (b_canonical st') (b_availableNativeSymbolIterator st')"
      using ok wf' unfolding canon_ok_def known(2,3,4,5) by simp
    show ?thesis
      apply (rule exI[of _ s])
      using known(1,2,4,6) inj ok' lt a(2,3) n(2,3) wf by simp
  next
    case (reuse s)
    from ok reuse(3) have sl: "s < ns_length ?syms" "ns_libIndex ?syms ! s = lix"
      and ns: "s \<notin> snd ` set (b_canonical st)"
      and rest: "distinct (b_availableNativeSymbolIterator st')" "s \<notin> set (b_availableNativeSymbolIterator st')"
        "snd ` set (b_canonical st) \<inter> set (b_availableNativeSymbolIterator st') = {}"
        "\<forall>x \<in> set (b_availableNativeSymbolIterator st'). x < ns_length ?syms \<and> ns_libIndex ?syms ! x = lix"
      by (auto simp: canon_ok_def)
    from reuse(1) have nk: "sa \<notin> fst ` set (b_canonical st)" by (simp add: map_of_eq_None_iff)
    have u: "b_canonical st' = b_canonical st @ [(sa, s)]"
      using reuse(2) alist_update_fresh[OF nk] by simp
    note a = store_at_nth[OF reuse(7)] and n = store_at_nth[OF reuse(8)]
    have wf': "nativeSymbols_wf ?syms'"
      using wf sl a(4) n(4) reuse(4,5) by (simp add: nativeSymbols_wf_def)
    have ok': "canon_ok lix ?syms' (b_canonical st') (b_availableNativeSymbolIterator st')"
      unfolding canon_ok_def u reuse(4,5)
      using ok wf' ns rest sl by (auto simp: canon_ok_def)
    have keep: "map_of (b_canonical st') k = Some v \<and> v \<noteq> s"
      if "map_of (b_canonical st) k = Some v" for k v
    proof -
      from that have "(k, v) \<in> set (b_canonical st)" by (rule map_of_SomeD)
      with ns have "v \<noteq> s" by force
      with that reuse(1) show ?thesis by (auto simp: reuse(2) update_conv')
    qed
    have s: "map_of (b_canonical st') sa = Some s" by (simp add: reuse(2) update_conv')
    show ?thesis
      apply (rule exI[of _ s])
      using s keep ok' sl reuse(4,6) a(2,3) n(2,3) wf by simp
  next
    case (fresh s)
    from fresh(1) have nk: "sa \<notin> fst ` set (b_canonical st)" by (simp add: map_of_eq_None_iff)
    have u: "b_canonical st' = b_canonical st @ [(sa, s)]"
      using fresh(2) alist_update_fresh[OF nk] by simp
    from ok fresh(5) have ns: "s \<notin> snd ` set (b_canonical st)" by (auto simp: canon_ok_def)
    note l = store_at_nth[OF fresh(7)] and a = store_at_nth[OF fresh(9)] and n = store_at_nth[OF fresh(10)]
    have wf': "nativeSymbols_wf ?syms'"
      using wf l(5) a(5) n(5) fresh(5,6) by (simp add: nativeSymbols_wf_def)
    have lib: "ns_libIndex ?syms' ! t = ns_libIndex ?syms ! t" if "t < ns_length ?syms" for t
      using l(3)[of t] that wf fresh(5) by simp
    have ok': "canon_ok lix ?syms' (b_canonical st') (b_availableNativeSymbolIterator st')"
      unfolding canon_ok_def u fresh(4,6)
      using ok wf' ns l(2) lib fresh(3,5) by (auto simp: canon_ok_def)
    have keep: "map_of (b_canonical st') k = Some v \<and> v \<noteq> s"
      if "map_of (b_canonical st) k = Some v" for k v
    proof -
      from that have "(k, v) \<in> set (b_canonical st)" by (rule map_of_SomeD)
      with ns have "v \<noteq> s" by force
      with that fresh(1) show ?thesis by (auto simp: fresh(2) update_conv')
    qed
    have s: "map_of (b_canonical st') sa = Some s" by (simp add: fresh(2) update_conv')
    show ?thesis
      apply (rule exI[of _ s])
      using s keep ok' fresh(5,6,8) a(2,3) n(2,3) wf by simp
  qed
qed


lemma stepB_inv_step:
  assumes inv: "stepB_inv lix pre st" and step: "stepB_entry lix st e = Inr st'"
  shows "stepB_inv lix (pre @ [e]) st'"
  unfolding stepB_inv_def
proof (intro impI)
  assume d: "distinct (map fst (pre @ [e]))"
  obtain sa nm where e: "e = (sa, nm)" by (cases e)
  from d e have dp: "distinct (map fst pre)" and fresh_sa: "sa \<notin> fst ` set pre" by auto
  let ?syms = "b_nativeSymbols st" and ?syms' = "b_nativeSymbols st'"
  from inv dp have ok: "canon_ok lix ?syms (b_canonical st) (b_availableNativeSymbolIterator st)"
    and old: "\<forall>(sb, nb) \<in> set pre. \<exists>s. map_of (b_canonical st) sb = Some s \<and>
          ns_address ?syms ! s = sb \<and> nb \<in> set (b_stringTable st) \<and>
          ns_name ?syms ! s = index_of nb (b_stringTable st)"
    by (simp_all add: stepB_inv_def)
  obtain i strings where ifs: "indexForString (b_stringTable st) nm = (i, strings)"
    by (cases "indexForString (b_stringTable st) nm")
  note sp = indexForString_props[OF ifs]
  from stepB_entry_facts[OF ok step[unfolded e]] obtain s where
    s: "map_of (b_canonical st') sa = Some s"
    and keep: "\<forall>k v. map_of (b_canonical st) k = Some v \<longrightarrow> k \<noteq> sa \<longrightarrow>
          map_of (b_canonical st') k = Some v \<and> v \<noteq> s"
    and ok': "canon_ok lix ?syms' (b_canonical st') (b_availableNativeSymbolIterator st')"
    and here: "ns_address ?syms' ! s = sa" "ns_name ?syms' ! s = i"
    and others: "\<forall>t < ns_length ?syms. t \<noteq> s \<longrightarrow>
         ns_address ?syms' ! t = ns_address ?syms ! t \<and> ns_name ?syms' ! t = ns_name ?syms ! t"
    and str: "b_stringTable st' = strings"
    by (auto simp: ifs)
  have new: "\<exists>s. map_of (b_canonical st') sa = Some s \<and> ns_address ?syms' ! s = sa \<and>
          nm \<in> set (b_stringTable st') \<and> ns_name ?syms' ! s = index_of nm (b_stringTable st')"
    using s here sp str by (intro exI[of _ s]) simp
  have olds: "\<exists>s. map_of (b_canonical st') sb = Some s \<and> ns_address ?syms' ! s = sb \<and>
          nb \<in> set (b_stringTable st') \<and> ns_name ?syms' ! s = index_of nb (b_stringTable st')"
    if "(sb, nb) \<in> set pre" for sb nb
  proof -
    from that old obtain t where t: "map_of (b_canonical st) sb = Some t"
      "ns_address ?syms ! t = sb" "nb \<in> set (b_stringTable st)"
      "ns_name ?syms ! t = index_of nb (b_stringTable st)" by blast
    from that fresh_sa have "sb \<noteq> sa" by force
    with keep t(1) have t': "map_of (b_canonical st') sb = Some t" "t \<noteq> s" by auto
    from canon_ok_lt[OF ok t(1)] have "t < ns_length ?syms" .
    with others t' have same: "ns_address ?syms' ! t = ns_address ?syms ! t"
      "ns_name ?syms' ! t = ns_name ?syms ! t" by auto
    from sp(1) t(3) have "nb \<in> set strings" "index_of nb strings = index_of nb (b_stringTable st)"
      by (auto simp: index_of_prefix dest: set_mono_prefix)
    with t' t same str show ?thesis by (intro exI[of _ t]) simp
  qed
  show "canon_ok lix ?syms' (b_canonical st') (b_availableNativeSymbolIterator st') \<and>
       (\<forall>(sa, nm) \<in> set (pre @ [e]). \<exists>s. map_of (b_canonical st') sa = Some s \<and>
          ns_address ?syms' ! s = sa \<and> nm \<in> set (b_stringTable st') \<and>
          ns_name ?syms' ! s = index_of nm (b_stringTable st'))"
    using ok' new olds e by auto
qed

lemma stepB_inv_all:
  assumes a: "stepA_inv lix (nativeSymbols thread) stA"
    and b: "stepB thread info stA = Inr stB" and lix: "libIndex info = lix"
  shows "canon_ok lix (b_nativeSymbols stB) (b_canonical stB) (b_availableNativeSymbolIterator stB)"
    and "\<forall>(sa, nm) \<in> set (symbolAddressToNameMap stA).
          \<exists>s. map_of (b_canonical stB) sa = Some s \<and>
          ns_address (b_nativeSymbols stB) ! s = sa \<and> nm \<in> set (b_stringTable stB) \<and>
          ns_name (b_nativeSymbols stB) ! s = index_of nm (b_stringTable stB)"
proof -
  let ?init = "\<lparr> b_nativeSymbols = nativeSymbols thread,
         b_stringTable = stringTable thread,
         b_canonical = symbolAddressToCanonicalSymbolIndexMap stA,
         b_availableNativeSymbolIterator = availableNativeSymbols stA \<rparr>"
  from a have "stepB_inv lix [] ?init" by (simp add: stepB_inv_def stepA_inv_def)
  from for_of_prefix_invariant[where P = "stepB_inv lix", OF b[unfolded stepB_def lix] this]
  have "stepB_inv lix (symbolAddressToNameMap stA) stB" using stepB_inv_step by blast
  moreover from a have "distinct (map fst (symbolAddressToNameMap stA))" by (simp add: stepA_inv_def)
  ultimately show
    "canon_ok lix (b_nativeSymbols stB) (b_canonical stB) (b_availableNativeSymbolIterator stB)"
    "\<forall>(sa, nm) \<in> set (symbolAddressToNameMap stA).
          \<exists>s. map_of (b_canonical stB) sa = Some s \<and>
          ns_address (b_nativeSymbols stB) ! s = sa \<and> nm \<in> set (b_stringTable stB) \<and>
          ns_name (b_nativeSymbols stB) ! s = index_of nm (b_stringTable stB)"
    by (simp_all add: stepB_inv_def)
qed

lemma funcForKey_cases:
  assumes ffk: "funcForKey rix st fi fli = Inr (g, st1)"
    and wf: "funcTable_wf (c_funcTable st)"
  obtains (known) "map_of (c_funcKeyToFuncMap st) (funcKey fi fli) = Some g" "st1 = st"
    | (reuse) rest nc fc where
      "map_of (c_funcKeyToFuncMap st) (funcKey fi fli) = None"
      "c_availableFuncIter st = g # rest" "c_availableFuncIter st1 = rest"
      "c_funcKeyToFuncMap st1 = AList.update (funcKey fi fli) g (c_funcKeyToFuncMap st)"
      "c_funcTable st1 = (c_funcTable st) \<lparr> fn_name := nc, fn_fileName := fc \<rparr>"
      "store_at (fn_name (c_funcTable st)) g fi = Inr nc"
      "store_at (fn_fileName (c_funcTable st)) g fli = Inr fc"
    | (fresh)
      "map_of (c_funcKeyToFuncMap st) (funcKey fi fli) = None"
      "c_availableFuncIter st = []" "c_availableFuncIter st1 = []"
      "c_funcKeyToFuncMap st1 = AList.update (funcKey fi fli) g (c_funcKeyToFuncMap st)"
      "g = fn_length (c_funcTable st)"
      "c_funcTable st1 =
         \<lparr> fn_name = fn_name (c_funcTable st) @ [fi],
           fn_fileName = fn_fileName (c_funcTable st) @ [fli],
           fn_resource = fn_resource (c_funcTable st) @ [int rix],
           fn_isJS = fn_isJS (c_funcTable st) @ [False],
           fn_relevantForJS = fn_relevantForJS (c_funcTable st) @ [False],
           fn_lineNumber = fn_lineNumber (c_funcTable st) @ [None],
           fn_columnNumber = fn_columnNumber (c_funcTable st) @ [None],
           fn_length = fn_length (c_funcTable st) + 1 \<rparr>"
proof (cases "map_of (c_funcKeyToFuncMap st) (funcKey fi fli)")
  case (Some v)
  with ffk have "v = g" "st1 = st" by (simp_all add: funcForKey_def)
  with Some show ?thesis by (auto intro: known)
next
  case None
  show ?thesis
  proof (cases "c_availableFuncIter st")
    case (Cons a rest)
    with ffk None obtain nc fc where nc: "store_at (fn_name (c_funcTable st)) a fi = Inr nc"
      and fc: "store_at (fn_fileName (c_funcTable st)) a fli = Inr fc"
      and g: "g = a"
      and st1: "st1 = st \<lparr> c_availableFuncIter := rest,
          c_funcTable := (c_funcTable st) \<lparr> fn_name := nc, fn_fileName := fc \<rparr>,
          c_funcKeyToFuncMap := AList.update (funcKey fi fli) a (c_funcKeyToFuncMap st) \<rparr>"
      by (auto simp: funcForKey_def takeFunc_def sbind_eq_Inr)
    with None Cons show ?thesis
      by (intro reuse[where rest = rest and nc = nc and fc = fc]) simp_all
  next
    case Nil
    with ffk None wf show ?thesis
      by (intro fresh) (auto simp: funcForKey_def takeFunc_def sbind_eq_Inr Let_def store_at_Inr
          funcTable_wf_def)
  qed
qed


text \<open>
  The second loop over the frames hands out the funcs of the library in the order of their
  indices and then new rows, one for every new key; the row of a key carries the two
  string indices of the key.
\<close>

definition funcs_inv :: "FuncTable \<Rightarrow> nat \<Rightarrow> stepC_state \<Rightarrow> bool" where
  "funcs_inv funcs0 rix st \<longleftrightarrow>
     funcTable_wf (c_funcTable st) \<and>
     fn_length funcs0 \<le> fn_length (c_funcTable st) \<and>
     fn_resource (c_funcTable st) =
       fn_resource funcs0 @ replicate (fn_length (c_funcTable st) - fn_length funcs0) (int rix) \<and>
     map snd (c_funcKeyToFuncMap st) @ c_availableFuncIter st =
       collectFuncs funcs0 rix @ [fn_length funcs0 ..< fn_length (c_funcTable st)] \<and>
     (\<forall>(k, g) \<in> set (c_funcKeyToFuncMap st).
        k = funcKey (fn_name (c_funcTable st) ! g) (fn_fileName (c_funcTable st) ! g))"

lemma collectFuncs_lt: "g \<in> set (collectFuncs funcs rix) \<Longrightarrow> g < fn_length funcs"
  by (simp add: collectFuncs_def)

lemma distinct_collectFuncs: "distinct (collectFuncs funcs rix)"
  by (simp add: collectFuncs_def)

lemma funcs_inv_alloc:
  assumes "funcs_inv funcs0 rix st"
  shows "distinct (map snd (c_funcKeyToFuncMap st) @ c_availableFuncIter st)"
    and "\<forall>g \<in> set (map snd (c_funcKeyToFuncMap st) @ c_availableFuncIter st).
           g < fn_length (c_funcTable st)"
proof -
  from assms have eq: "map snd (c_funcKeyToFuncMap st) @ c_availableFuncIter st =
       collectFuncs funcs0 rix @ [fn_length funcs0 ..< fn_length (c_funcTable st)]"
    and le: "fn_length funcs0 \<le> fn_length (c_funcTable st)"
    by (simp_all add: funcs_inv_def)
  show "distinct (map snd (c_funcKeyToFuncMap st) @ c_availableFuncIter st)"
    unfolding eq by (auto simp: distinct_collectFuncs dest!: collectFuncs_lt)
  show "\<forall>g \<in> set (map snd (c_funcKeyToFuncMap st) @ c_availableFuncIter st).
           g < fn_length (c_funcTable st)"
    unfolding eq using le by (auto dest!: collectFuncs_lt)
qed

lemma funcs_inv_funcForKey:
  assumes inv: "funcs_inv funcs0 rix st" and ffk: "funcForKey rix st fi fli = Inr (g, st1)"
  shows "funcs_inv funcs0 rix st1"
proof -
  from inv have wf: "funcTable_wf (c_funcTable st)" by (simp add: funcs_inv_def)
  note al = funcs_inv_alloc[OF inv]
  from inv have rows: "\<forall>(k, g) \<in> set (c_funcKeyToFuncMap st).
        k = funcKey (fn_name (c_funcTable st) ! g) (fn_fileName (c_funcTable st) ! g)"
    and eq: "map snd (c_funcKeyToFuncMap st) @ c_availableFuncIter st =
       collectFuncs funcs0 rix @ [fn_length funcs0 ..< fn_length (c_funcTable st)]"
    and res: "fn_resource (c_funcTable st) =
       fn_resource funcs0 @ replicate (fn_length (c_funcTable st) - fn_length funcs0) (int rix)"
    and le: "fn_length funcs0 \<le> fn_length (c_funcTable st)"
    by (simp_all add: funcs_inv_def)
  from ffk wf show ?thesis
  proof (cases rule: funcForKey_cases)
    case known
    with inv show ?thesis by simp
  next
    case (reuse rest nc fc)
    from reuse(1) have nk: "funcKey fi fli \<notin> fst ` set (c_funcKeyToFuncMap st)"
      by (simp add: map_of_eq_None_iff)
    have km: "c_funcKeyToFuncMap st1 = c_funcKeyToFuncMap st @ [(funcKey fi fli, g)]"
      using reuse(4) alist_update_fresh[OF nk] by simp
    from al reuse(2) have lt: "g < fn_length (c_funcTable st)"
      and ng: "g \<notin> snd ` set (c_funcKeyToFuncMap st)" by auto
    from reuse(6,7) lt wf have cols: "nc = (fn_name (c_funcTable st))[g := fi]"
      "fc = (fn_fileName (c_funcTable st))[g := fli]"
      by (auto simp: store_at_Inr funcTable_wf_def)
    have rows': "k = funcKey (nc ! v) (fc ! v)" if "(k, v) \<in> set (c_funcKeyToFuncMap st)" for k v
    proof -
      from that ng have "v \<noteq> g" by force
      with that rows show ?thesis by (auto simp: cols)
    qed
    show ?thesis
      unfolding funcs_inv_def km reuse(3,5)
      using wf le res eq reuse(2) rows' lt cols
      by (auto simp: funcTable_wf_def)
  next
    case fresh
    from fresh(1) have nk: "funcKey fi fli \<notin> fst ` set (c_funcKeyToFuncMap st)"
      by (simp add: map_of_eq_None_iff)
    have km: "c_funcKeyToFuncMap st1 = c_funcKeyToFuncMap st @ [(funcKey fi fli, g)]"
      using fresh(4) alist_update_fresh[OF nk] by simp
    from al have lts: "\<forall>v \<in> snd ` set (c_funcKeyToFuncMap st). v < fn_length (c_funcTable st)"
      by auto
    have rows': "k = funcKey ((fn_name (c_funcTable st) @ [fi]) ! v) ((fn_fileName (c_funcTable st) @ [fli]) ! v)"
      if "(k, v) \<in> set (c_funcKeyToFuncMap st)" for k v
    proof -
      from that lts have "v < fn_length (c_funcTable st)" by force
      with that rows wf show ?thesis by (auto simp: nth_append funcTable_wf_def)
    qed
    have rep: "replicate (Suc (fn_length (c_funcTable st)) - fn_length funcs0) (int rix) =
        replicate (fn_length (c_funcTable st) - fn_length funcs0) (int rix) @ [int rix]"
      using le by (simp add: Suc_diff_le replicate_append_same)
    have here: "(fn_name (c_funcTable st) @ [fi]) ! g = fi" "(fn_fileName (c_funcTable st) @ [fli]) ! g = fli"
      using wf fresh(5) by (simp_all add: funcTable_wf_def nth_append)
    show ?thesis
      unfolding funcs_inv_def km fresh(3,6)
      using wf le res eq fresh(2) rows' rep here fresh(5)[symmetric]
      by (auto simp: funcTable_wf_def)
  qed
qed


lemma funcs_inv_fields [simp]:
  "funcs_inv funcs0 rix (st \<lparr> c_stringTable := x \<rparr>) = funcs_inv funcs0 rix st"
  "funcs_inv funcs0 rix (st \<lparr> c_newFrameTableFuncColumn := y \<rparr>) = funcs_inv funcs0 rix st"
  "funcs_inv funcs0 rix (st \<lparr> c_newFrameTableLineColumn := z \<rparr>) = funcs_inv funcs0 rix st"
  "funcs_inv funcs0 rix (st \<lparr> c_oldFuncToNewFuncEntries := w \<rparr>) = funcs_inv funcs0 rix st"
  by (simp_all add: funcs_inv_def)

lemma funcForKey_km:
  assumes "funcForKey rix st fi fli = Inr (g, st1)"
  shows "prefix (c_funcKeyToFuncMap st) (c_funcKeyToFuncMap st1)"
    and "g \<in> snd ` set (c_funcKeyToFuncMap st1)"
    and "fn_length (c_funcTable st) \<le> fn_length (c_funcTable st1)"
proof -
  have "prefix (c_funcKeyToFuncMap st) (c_funcKeyToFuncMap st1) \<and>
    g \<in> snd ` set (c_funcKeyToFuncMap st1) \<and> fn_length (c_funcTable st) \<le> fn_length (c_funcTable st1)"
    using assms
  proof (cases rule: funcForKey_InrE)
    case known
    from known(1) have "(funcKey fi fli, g) \<in> set (c_funcKeyToFuncMap st)" by (rule map_of_SomeD)
    with known(2) show ?thesis by force
  next
    case (reuse rest)
    from reuse(1) have "funcKey fi fli \<notin> fst ` set (c_funcKeyToFuncMap st)"
      by (simp add: map_of_eq_None_iff)
    from alist_update_fresh[OF this] reuse(4,5) show ?thesis by (simp add: image_Un)
  next
    case fresh
    from fresh(1) have "funcKey fi fli \<notin> fst ` set (c_funcKeyToFuncMap st)"
      by (simp add: map_of_eq_None_iff)
    from alist_update_fresh[OF this] fresh(5,6) show ?thesis by (simp add: image_Un)
  qed
  then show "prefix (c_funcKeyToFuncMap st) (c_funcKeyToFuncMap st1)"
    "g \<in> snd ` set (c_funcKeyToFuncMap st1)"
    "fn_length (c_funcTable st) \<le> fn_length (c_funcTable st1)" by simp_all
qed

definition stepC_inv :: "Thread \<Rightarrow> nat \<Rightarrow> nat list \<Rightarrow> stepC_state \<Rightarrow> bool" where
  "stepC_inv thread rix pre st \<longleftrightarrow>
     funcs_inv (funcTable thread) rix st \<and>
     length (c_newFrameTableFuncColumn st) = length (ft_func (frameTable thread)) \<and>
     (\<forall>f. f \<notin> set pre \<longrightarrow> c_newFrameTableFuncColumn st ! f = ft_func (frameTable thread) ! f) \<and>
     (\<forall>f \<in> set pre. c_newFrameTableFuncColumn st ! f \<in> snd ` set (c_funcKeyToFuncMap st))"

lemma stepC_inv_step:
  assumes inv: "stepC_inv thread rix pre st"
    and step: "stepC_frame thread R rix syms col st f = Inr st'"
  shows "stepC_inv thread rix (pre @ [f]) st'"
proof -
  from step obtain oldFunc r fi fli strings funcIndex st1 fc lc where
    res: "stepC_resolve thread R syms col st f = Inr (oldFunc, r)"
    and ffk: "funcForKey rix (st \<lparr> c_stringTable := strings \<rparr>) fi fli = Inr (funcIndex, st1)"
    and fc: "store_at (c_newFrameTableFuncColumn st) f funcIndex = Inr fc"
    and st': "st' = st1 \<lparr> c_newFrameTableFuncColumn := fc, c_newFrameTableLineColumn := lc,
                  c_oldFuncToNewFuncEntries := c_oldFuncToNewFuncEntries st @ [(oldFunc, funcIndex)] \<rparr>"
    by (rule stepC_frame_InrE)
  from inv have fi: "funcs_inv (funcTable thread) rix (st \<lparr> c_stringTable := strings \<rparr>)"
    and len: "length (c_newFrameTableFuncColumn st) = length (ft_func (frameTable thread))"
    and out: "\<forall>f. f \<notin> set pre \<longrightarrow> c_newFrameTableFuncColumn st ! f = ft_func (frameTable thread) ! f"
    and ins: "\<forall>f \<in> set pre. c_newFrameTableFuncColumn st ! f \<in> snd ` set (c_funcKeyToFuncMap st)"
    by (simp_all add: stepC_inv_def)
  from funcs_inv_funcForKey[OF fi ffk] have fi1: "funcs_inv (funcTable thread) rix st1" .
  note km = funcForKey_km[OF ffk]
  from km(1) have sub: "set (c_funcKeyToFuncMap st) \<subseteq> set (c_funcKeyToFuncMap st1)"
    by (auto dest: set_mono_prefix)
  from stepC_resolve_oldFunc(1)[OF res] len have flt: "f < length (c_newFrameTableFuncColumn st)"
    by simp
  with fc have fc_eq: "fc = (c_newFrameTableFuncColumn st)[f := funcIndex]"
    by (auto simp: store_at_Inr)
  have ins': "c_newFrameTableFuncColumn st' ! g \<in> snd ` set (c_funcKeyToFuncMap st')"
    if "g \<in> set (pre @ [f])" for g
  proof (cases "g = f")
    case True
    with km(2) flt show ?thesis by (simp add: st' fc_eq)
  next
    case False
    with that ins have "c_newFrameTableFuncColumn st ! g \<in> snd ` set (c_funcKeyToFuncMap st)" by simp
    with sub False show ?thesis by (auto simp: st' fc_eq)
  qed
  show ?thesis
    unfolding stepC_inv_def using fi1 len out ins' by (simp add: st' fc_eq)
qed

lemma stepC_inv_all:
  assumes run: "stepC thread (collectInfo thread rix lix) R stB col frames = Inr stC"
    and wf: "funcTable_wf (funcTable thread)"
  shows "stepC_inv thread rix frames stC"
proof -
  let ?st0 = "stepC_init thread (collectInfo thread rix lix) (b_stringTable stB)"
  have "funcs_inv (funcTable thread) rix ?st0"
    using wf by (simp add: funcs_inv_def stepC_init_def collectInfo_def Let_def
        new_Set_distinct_id distinct_collectFuncs)
  then have "stepC_inv thread rix [] ?st0"
    by (simp add: stepC_inv_def stepC_init_def)
  from for_of_prefix_invariant[where P = "stepC_inv thread rix", OF run[unfolded stepC_def] this]
  show ?thesis using stepC_inv_step[where rix = rix] by (simp add: collectInfo_def Let_def)
qed

lemma funcs_inv_resource:
  assumes inv: "funcs_inv funcs0 rix st" and wf: "funcTable_wf funcs0"
    and g: "g < fn_length (c_funcTable st)"
  shows "js_index (fn_resource (c_funcTable st)) g = Some (int rix) \<longleftrightarrow>
     js_index (fn_resource funcs0) g = Some (int rix) \<or> fn_length funcs0 \<le> g"
proof -
  from inv have res: "fn_resource (c_funcTable st) =
       fn_resource funcs0 @ replicate (fn_length (c_funcTable st) - fn_length funcs0) (int rix)"
    and le: "fn_length funcs0 \<le> fn_length (c_funcTable st)"
    by (simp_all add: funcs_inv_def)
  from wf have len: "length (fn_resource funcs0) = fn_length funcs0" by (simp add: funcTable_wf_def)
  show ?thesis
    unfolding res using len le g by (auto simp: js_index_def nth_append)
qed

lemma funcs_inv_collectFuncs:
  assumes inv: "funcs_inv funcs0 rix st" and wf: "funcTable_wf funcs0"
  shows "collectFuncs (c_funcTable st) rix =
     collectFuncs funcs0 rix @ [fn_length funcs0 ..< fn_length (c_funcTable st)]"
proof -
  let ?l0 = "fn_length funcs0" and ?l1 = "fn_length (c_funcTable st)"
  let ?P = "\<lambda>g. js_index (fn_resource (c_funcTable st)) g = Some (int rix)"
  from inv have le: "?l0 \<le> ?l1" by (simp add: funcs_inv_def)
  from wf have len: "length (fn_resource funcs0) = ?l0" by (simp add: funcTable_wf_def)
  from le have split: "[0 ..< ?l1] = [0 ..< ?l0] @ [?l0 ..< ?l1]"
    by (metis le_add_diff_inverse upt_add_eq_append zero_le)
  have one: "filter ?P [0 ..< ?l0] = collectFuncs funcs0 rix"
    unfolding collectFuncs_def
  proof (rule filter_cong[OF refl])
    fix g assume "g \<in> set [0 ..< ?l0]"
    then have "g < ?l0" by simp
    with funcs_inv_resource[OF inv wf, of g] le
    show "?P g = (js_index (fn_resource funcs0) g = Some (int rix))" by simp
  qed
  have two: "filter ?P [?l0 ..< ?l1] = [?l0 ..< ?l1]"
    using funcs_inv_resource[OF inv wf] by (simp add: filter_id_conv)
  show ?thesis
    unfolding collectFuncs_def[of "c_funcTable st"] split filter_append one two ..
qed

lemma funcs_inv_member:
  assumes inv: "funcs_inv funcs0 rix st" and wf: "funcTable_wf funcs0"
    and g: "g \<in> snd ` set (c_funcKeyToFuncMap st)"
  shows "g < fn_length (c_funcTable st)"
    and "js_index (fn_resource (c_funcTable st)) g = Some (int rix)"
proof -
  from funcs_inv_alloc(2)[OF inv] g show lt: "g < fn_length (c_funcTable st)" by auto
  from inv have "map snd (c_funcKeyToFuncMap st) @ c_availableFuncIter st =
       collectFuncs funcs0 rix @ [fn_length funcs0 ..< fn_length (c_funcTable st)]"
    by (simp add: funcs_inv_def)
  then have "set (map snd (c_funcKeyToFuncMap st)) \<subseteq>
      set (collectFuncs funcs0 rix) \<union> {fn_length funcs0 ..< fn_length (c_funcTable st)}"
    by (metis Un_iff set_append set_upt subsetI)
  with g have "g \<in> set (collectFuncs funcs0 rix) \<or> fn_length funcs0 \<le> g" by auto
  then have "js_index (fn_resource funcs0) g = Some (int rix) \<or> fn_length funcs0 \<le> g"
    by (auto simp: collectFuncs_def)
  with funcs_inv_resource[OF inv wf lt]
  show "js_index (fn_resource (c_funcTable st)) g = Some (int rix)" by simp
qed

text \<open>The parts of a run of the step on the slice of a library collected from the thread.\<close>

definition step_run ::
  "Thread \<Rightarrow> nat \<Rightarrow> nat \<Rightarrow> (int \<rightharpoonup> AddressResult) \<Rightarrow> stepA_state \<Rightarrow> stepB_state \<Rightarrow>
   nat option list \<Rightarrow> stepC_state \<Rightarrow> Thread \<Rightarrow> bool" where
  "step_run thread rix lix R stA stB column stC thread' \<longleftrightarrow>
     stepA thread (collectInfo thread rix lix) R = Inr stA \<and>
     stepB thread (collectInfo thread rix lix) stA = Inr stB \<and>
     for_of (assignNativeSymbol (b_canonical stB)) (frameToSymbolAddressMap stA)
       (ft_nativeSymbol (frameTable thread)) = Inr column \<and>
     stepC thread (collectInfo thread rix lix) R stB column
       (collectFrames (frameTable thread) (funcTable thread) rix) = Inr stC \<and>
     thread' = thread
              \<lparr> frameTable := (frameTable thread)
                  \<lparr> ft_func := c_newFrameTableFuncColumn stC,
                    ft_nativeSymbol := column,
                    ft_line := c_newFrameTableLineColumn stC \<rparr>,
                funcTable := c_funcTable stC,
                nativeSymbols := b_nativeSymbols stB,
                stringTable := c_stringTable stC \<rparr>"

lemma step_runI:
  assumes "applySymbolicationStep thread (collectInfo thread rix lix) R m0 = Inr (thread', m')"
  obtains stA stB column stC where "step_run thread rix lix R stA stB column stC thread'"
proof -
  from assms obtain stA stB column stC where
    "stepA thread (collectInfo thread rix lix) R = Inr stA"
    "stepB thread (collectInfo thread rix lix) stA = Inr stB"
    "for_of (assignNativeSymbol (b_canonical stB)) (frameToSymbolAddressMap stA)
       (ft_nativeSymbol (frameTable thread)) = Inr column"
    "stepC thread (collectInfo thread rix lix) R stB column
       (allFramesForThisLib (collectInfo thread rix lix)) = Inr stC"
    "thread' = thread
              \<lparr> frameTable := (frameTable thread)
                  \<lparr> ft_func := c_newFrameTableFuncColumn stC,
                    ft_nativeSymbol := column,
                    ft_line := c_newFrameTableLineColumn stC \<rparr>,
                funcTable := c_funcTable stC,
                nativeSymbols := b_nativeSymbols stB,
                stringTable := c_stringTable stC \<rparr>"
    "m' = mergeInto (makeConsensusMap (c_oldFuncToNewFuncEntries stC)) m0"
    by (rule applySymbolicationStep_InrE)
  then have "step_run thread rix lix R stA stB column stC thread'"
    by (simp add: step_run_def collectInfo_def Let_def)
  then show ?thesis by (rule that)
qed

lemma collectFrames_iff:
  "f \<in> set (collectFrames frames funcs rix) \<longleftrightarrow> f < ft_length frames \<and> frameBelongs frames funcs rix f"
  by (auto simp: collectFrames_def)

lemma step_run_funcs:
  assumes run: "step_run thread rix lix R stA stB column stC thread'" and wf: "wellFormed thread"
  shows "funcs_inv (funcTable thread) rix stC"
    and "collectFuncs (funcTable thread') rix =
       collectFuncs (funcTable thread) rix @ [fn_length (funcTable thread) ..< fn_length (funcTable thread')]"
    and "collectFrames (frameTable thread') (funcTable thread') rix =
       collectFrames (frameTable thread) (funcTable thread) rix"
    and "funcTable_wf (funcTable thread')"
proof -
  let ?F = "collectFrames (frameTable thread) (funcTable thread) rix"
  from wf have fwf: "funcTable_wf (funcTable thread)" by (simp add: wellFormed_def)
  from run have c: "stepC thread (collectInfo thread rix lix) R stB column ?F = Inr stC"
    and t': "funcTable thread' = c_funcTable stC"
      "ft_func (frameTable thread') = c_newFrameTableFuncColumn stC"
      "ft_length (frameTable thread') = ft_length (frameTable thread)"
    by (simp_all add: step_run_def)
  from stepC_inv_all[OF c fwf] have inv: "funcs_inv (funcTable thread) rix stC"
    and len: "length (c_newFrameTableFuncColumn stC) = length (ft_func (frameTable thread))"
    and out: "\<forall>f. f \<notin> set ?F \<longrightarrow> c_newFrameTableFuncColumn stC ! f = ft_func (frameTable thread) ! f"
    and ins: "\<forall>f \<in> set ?F. c_newFrameTableFuncColumn stC ! f \<in> snd ` set (c_funcKeyToFuncMap stC)"
    by (simp_all add: stepC_inv_def)
  show "funcs_inv (funcTable thread) rix stC" by (rule inv)
  from inv show "funcTable_wf (funcTable thread')" by (simp add: t' funcs_inv_def)
  show "collectFuncs (funcTable thread') rix =
       collectFuncs (funcTable thread) rix @ [fn_length (funcTable thread) ..< fn_length (funcTable thread')]"
    unfolding t' by (rule funcs_inv_collectFuncs[OF inv fwf])
  from wf have flen: "length (ft_func (frameTable thread)) = ft_length (frameTable thread)"
    and live: "\<forall>g \<in> set (ft_func (frameTable thread)). g < fn_length (funcTable thread)"
    by (simp_all add: wellFormed_def)
  from inv have le: "fn_length (funcTable thread) \<le> fn_length (c_funcTable stC)"
    by (simp add: funcs_inv_def)
  have "frameBelongs (frameTable thread') (funcTable thread') rix f =
        frameBelongs (frameTable thread) (funcTable thread) rix f"
    if f: "f < ft_length (frameTable thread)" for f
  proof (cases "f \<in> set ?F")
    case True
    with ins have "c_newFrameTableFuncColumn stC ! f \<in> snd ` set (c_funcKeyToFuncMap stC)" by simp
    from funcs_inv_member(2)[OF inv fwf this] True f len flen show ?thesis
      by (simp add: frameBelongs_def t' js_index_def collectFrames_iff)
  next
    case False
    with out have same: "c_newFrameTableFuncColumn stC ! f = ft_func (frameTable thread) ! f" by simp
    from live f flen have lt: "ft_func (frameTable thread) ! f < fn_length (funcTable thread)" by simp
    with le have "ft_func (frameTable thread) ! f < fn_length (c_funcTable stC)" by simp
    from funcs_inv_resource[OF inv fwf this] lt False f len flen same show ?thesis
      by (simp add: frameBelongs_def t' js_index_def collectFrames_iff)
  qed
  then show "collectFrames (frameTable thread') (funcTable thread') rix = ?F"
    unfolding collectFrames_def t' by (intro filter_cong) simp_all
qed

lemma for_of_lockstep:
  assumes r1: "for_of b1 xs s1 = Inr t1" and r2: "for_of b2 xs s2 = Inr t2"
    and init: "Rel s1 s2"
    and step: "\<And>pre x rest u1 u2 v1 v2.
      xs = pre @ x # rest \<Longrightarrow> for_of b1 pre s1 = Inr u1 \<Longrightarrow> for_of b2 pre s2 = Inr u2 \<Longrightarrow>
      Rel u1 u2 \<Longrightarrow> b1 u1 x = Inr v1 \<Longrightarrow> b2 u2 x = Inr v2 \<Longrightarrow>
      for_of b1 rest v1 = Inr t1 \<Longrightarrow> for_of b2 rest v2 = Inr t2 \<Longrightarrow> Rel v1 v2"
  shows "Rel t1 t2"
proof -
  have "\<exists>u1 u2. for_of b1 (take n xs) s1 = Inr u1 \<and> for_of b2 (take n xs) s2 = Inr u2 \<and> Rel u1 u2"
    if "n \<le> length xs" for n
    using that
  proof (induction n)
    case 0
    with init show ?case by simp
  next
    case (Suc n)
    then have n: "n < length xs" by simp
    with Suc.IH obtain u1 u2 where u1: "for_of b1 (take n xs) s1 = Inr u1"
      and u2: "for_of b2 (take n xs) s2 = Inr u2" and rel: "Rel u1 u2" by auto
    let ?x = "xs ! n" and ?rest = "drop (Suc n) xs"
    from n have xs: "xs = take n xs @ ?x # ?rest" by (simp add: id_take_nth_drop)
    from r1 have "for_of b1 (take n xs @ ?x # ?rest) s1 = Inr t1" using xs by simp
    then obtain v1 where v1: "b1 u1 ?x = Inr v1" "for_of b1 ?rest v1 = Inr t1"
      unfolding for_of_append by (auto simp: u1 sbind_eq_Inr)
    from r2 have "for_of b2 (take n xs @ ?x # ?rest) s2 = Inr t2" using xs by simp
    then obtain v2 where v2: "b2 u2 ?x = Inr v2" "for_of b2 ?rest v2 = Inr t2"
      unfolding for_of_append by (auto simp: u2 sbind_eq_Inr)
    from step[OF xs u1 u2 rel v1(1) v2(1) v1(2) v2(2)] have "Rel v1 v2" .
    moreover from n have "take (Suc n) xs = take n xs @ [?x]" by (rule take_Suc_conv_app_nth)
    ultimately show ?case using u1 u2 v1(1) v2(1) by (auto simp: for_of_snoc)
  qed
  from this[of "length xs"] r1 r2 show ?thesis by auto
qed

lemma for_of_id:
  assumes "\<And>x. x \<in> set xs \<Longrightarrow> body s x = Inr s"
  shows "for_of body xs s = Inr s"
  using assms by (induction xs) simp_all

lemma stepC_strings:
  assumes "for_of (stepC_frame thread R rix syms col) frames st = Inr st'"
  shows "prefix (c_stringTable st) (c_stringTable st')"
proof (rule for_of_invariant[where P = "\<lambda>t. prefix (c_stringTable st) (c_stringTable t)", OF assms])
  show "prefix (c_stringTable st) (c_stringTable st)" by simp
next
  fix x t t' assume "prefix (c_stringTable st) (c_stringTable t)"
    "stepC_frame thread R rix syms col t x = Inr t'"
  then show "prefix (c_stringTable st) (c_stringTable t')"
    using stepC_frame_strings prefix_order.trans by blast
qed

lemma distinct_collectFrames: "distinct (collectFrames frames funcs rix)"
  by (simp add: collectFrames_def)

text \<open>What a run leaves in the native symbol table and in the \<open>nativeSymbol\<close> column.\<close>

lemma step_run_symbols:
  assumes run: "step_run thread rix lix R stA stB column stC thread'"
    and nwf: "nativeSymbols_wf (nativeSymbols thread)"
  shows "canon_ok lix (nativeSymbols thread') (b_canonical stB) (b_availableNativeSymbolIterator stB)"
    and "\<forall>(sa, nm) \<in> set (symbolAddressToNameMap stA).
          \<exists>s. map_of (b_canonical stB) sa = Some s \<and>
          ns_address (nativeSymbols thread') ! s = sa \<and> nm \<in> set (stringTable thread') \<and>
          ns_name (nativeSymbols thread') ! s = index_of nm (stringTable thread')"
    and "distinct (map fst (symbolAddressToNameMap stA))"
    and "\<forall>f \<in> set (collectFrames (frameTable thread) (funcTable thread) rix).
          \<exists>old r s. stepA_resolve thread R f = Inr (old, r) \<and>
            map_of (symbolAddressToNameMap stA) (symbolAddress r) \<noteq> None \<and>
            map_of (b_canonical stB) (symbolAddress r) = Some s \<and>
            f < length column \<and> column ! f = Some s"
proof -
  let ?F = "collectFrames (frameTable thread) (funcTable thread) rix"
  let ?info = "collectInfo thread rix lix"
  from run have a: "stepA thread ?info R = Inr stA" and b: "stepB thread ?info stA = Inr stB"
    and asg: "for_of (assignNativeSymbol (b_canonical stB)) (frameToSymbolAddressMap stA)
       (ft_nativeSymbol (frameTable thread)) = Inr column"
    and c: "stepC thread ?info R stB column ?F = Inr stC"
    and t': "nativeSymbols thread' = b_nativeSymbols stB" "stringTable thread' = c_stringTable stC"
    by (simp_all add: step_run_def)
  note ai = stepA_inv_all[OF a nwf]
  have lix: "libIndex ?info = lix" by (simp add: collectInfo_def Let_def)
  note bi = stepB_inv_all[OF ai b lix]
  from bi(1) show "canon_ok lix (nativeSymbols thread') (b_canonical stB) (b_availableNativeSymbolIterator stB)"
    by (simp add: t')
  from ai show "distinct (map fst (symbolAddressToNameMap stA))" by (simp add: stepA_inv_def)
  have rix: "resourceIndex ?info = rix" by (simp add: collectInfo_def Let_def)
  from stepC_strings[OF c[unfolded stepC_def rix]]
  have pre: "prefix (b_stringTable stB) (c_stringTable stC)"
    by (simp add: stepC_init_def)
  show "\<forall>(sa, nm) \<in> set (symbolAddressToNameMap stA).
          \<exists>s. map_of (b_canonical stB) sa = Some s \<and>
          ns_address (nativeSymbols thread') ! s = sa \<and> nm \<in> set (stringTable thread') \<and>
          ns_name (nativeSymbols thread') ! s = index_of nm (stringTable thread')"
  proof (intro ballI, clarify)
    fix sa nm assume "(sa, nm) \<in> set (symbolAddressToNameMap stA)"
    with bi(2) obtain s where s: "map_of (b_canonical stB) sa = Some s"
      "ns_address (b_nativeSymbols stB) ! s = sa" "nm \<in> set (b_stringTable stB)"
      "ns_name (b_nativeSymbols stB) ! s = index_of nm (b_stringTable stB)" by blast
    from pre s(3) have "nm \<in> set (c_stringTable stC)"
      "index_of nm (c_stringTable stC) = index_of nm (b_stringTable stB)"
      by (auto simp: index_of_prefix dest: set_mono_prefix)
    with s show "\<exists>s. map_of (b_canonical stB) sa = Some s \<and>
          ns_address (nativeSymbols thread') ! s = sa \<and> nm \<in> set (stringTable thread') \<and>
          ns_name (nativeSymbols thread') ! s = index_of nm (stringTable thread')"
      by (simp add: t')
  qed
  from stepA_covers_all[OF a] have cov: "stepA_covers thread R ?F stA"
    by (simp add: collectInfo_def Let_def)
  then have d: "distinct (map fst (frameToSymbolAddressMap stA))" by (simp add: stepA_covers_def)
  note asgd = assigned_all[OF asg d]
  show "\<forall>f \<in> set ?F. \<exists>old r s. stepA_resolve thread R f = Inr (old, r) \<and>
            map_of (symbolAddressToNameMap stA) (symbolAddress r) \<noteq> None \<and>
            map_of (b_canonical stB) (symbolAddress r) = Some s \<and>
            f < length column \<and> column ! f = Some s"
  proof
    fix f assume "f \<in> set ?F"
    with cov obtain old r where res: "stepA_resolve thread R f = Inr (old, r)"
      and get: "map_of (frameToSymbolAddressMap stA) f = Some (symbolAddress r)"
      and nm: "map_of (symbolAddressToNameMap stA) (symbolAddress r) \<noteq> None"
      unfolding stepA_covers_def by blast
    from get have "(f, symbolAddress r) \<in> set (frameToSymbolAddressMap stA)" by (rule map_of_SomeD)
    with asgd have "f < length column" "map_of (b_canonical stB) (symbolAddress r) \<noteq> None"
      "column ! f = map_of (b_canonical stB) (symbolAddress r)" by auto
    with res nm show "\<exists>old r s. stepA_resolve thread R f = Inr (old, r) \<and>
            map_of (symbolAddressToNameMap stA) (symbolAddress r) \<noteq> None \<and>
            map_of (b_canonical stB) (symbolAddress r) = Some s \<and>
            f < length column \<and> column ! f = Some s"
      by auto
  qed
qed

text \<open>
  The first loop over the frames on the output of a run: every frame of the library
  carries the canonical symbol of its symbol address, and resolves to that address again.
\<close>

lemma stepA_resolve_again:
  assumes run: "step_run thread rix lix R stA stB column stC thread'"
    and wf: "nativeSymbols_wf (nativeSymbols thread)"
    and f: "f \<in> set (collectFrames (frameTable thread) (funcTable thread) rix)"
    and res2: "stepA_resolve thread' R f = Inr (old2, r2)"
  shows "\<exists>old1 r1 s. stepA_resolve thread R f = Inr (old1, r1) \<and> old2 = Some s \<and>
     map_of (b_canonical stB) (symbolAddress r1) = Some s \<and>
     symbolAddress r2 = symbolAddress r1 \<and>
     (ar_name r2 = ar_name r1 \<or>
      map_of (symbolAddressToNameMap stA) (symbolAddress r1) = Some (ar_name r2))"
proof -
  from step_run_symbols(4)[OF run wf] f obtain old1 r1 s where
    res1: "stepA_resolve thread R f = Inr (old1, r1)"
    and nm: "map_of (symbolAddressToNameMap stA) (symbolAddress r1) \<noteq> None"
    and s: "map_of (b_canonical stB) (symbolAddress r1) = Some s"
    and col: "f < length column" "column ! f = Some s"
    by blast
  from run have t': "ft_nativeSymbol (frameTable thread') = column"
    "ft_address (frameTable thread') = ft_address (frameTable thread)"
    by (simp_all add: step_run_def)
  from res1 have alt: "f < length (ft_address (frameTable thread))"
    unfolding stepA_resolve_def by (auto simp: sbind_eq_Inr read_at_Inr)
  show ?thesis
  proof (cases "R (ft_address (frameTable thread) ! f)")
    case (Some ar)
    with res1 alt have "r1 = ar"
      unfolding stepA_resolve_def by (auto simp: sbind_eq_Inr read_at_Inr)
    moreover from res2 Some alt col have "r2 = ar" "old2 = Some s"
      unfolding stepA_resolve_def t' by (auto simp: sbind_eq_Inr read_at_Inr)
    ultimately show ?thesis using res1 s by auto
  next
    case None
    from nm obtain nmF where nmF: "map_of (symbolAddressToNameMap stA) (symbolAddress r1) = Some nmF"
      by auto
    then have "(symbolAddress r1, nmF) \<in> set (symbolAddressToNameMap stA)" by (rule map_of_SomeD)
    with step_run_symbols(2)[OF run wf] s have
      ad: "ns_address (nativeSymbols thread') ! s = symbolAddress r1"
      and inn: "nmF \<in> set (stringTable thread')"
      and ni: "ns_name (nativeSymbols thread') ! s = index_of nmF (stringTable thread')"
      by auto
    from res2 None alt col have old2: "old2 = Some s"
      and r2: "symbolAddress r2 = ns_address (nativeSymbols thread') ! s"
        "getString (stringTable thread') (ns_name (nativeSymbols thread') ! s) = Inr (ar_name r2)"
      unfolding stepA_resolve_def t' by (auto simp: sbind_eq_Inr read_at_Inr)
    from r2(2) ni inn have "ar_name r2 = nmF"
      by (auto simp: getString_def nth_index_of split: if_splits)
    with res1 s old2 r2(1) ad nmF show ?thesis by auto
  qed
qed

definition settledA ::
  "(int, nat) js_map \<Rightarrow> (int, string) js_map \<Rightarrow> stepA_state \<Rightarrow> stepA_state \<Rightarrow> bool" where
  "settledA canon names u1 u2 \<longleftrightarrow>
     (\<forall>sa s. map_of (symbolAddressToCanonicalSymbolIndexMap u2) sa = Some s \<longrightarrow>
        map_of canon sa = Some s) \<and>
     (\<forall>sa s. map_of canon sa = Some s \<longrightarrow>
        map_of (symbolAddressToCanonicalSymbolIndexMap u2) sa = None \<longrightarrow>
        s \<in> set (availableNativeSymbols u2)) \<and>
     fst ` set (symbolAddressToNameMap u2) \<subseteq> fst ` set (symbolAddressToCanonicalSymbolIndexMap u2) \<and>
     (\<forall>sa nm. map_of (symbolAddressToNameMap u2) sa = Some nm \<longrightarrow>
        map_of (symbolAddressToNameMap u1) sa = Some nm \<or> map_of names sa = Some nm)"

lemma settledA_step:
  assumes rel: "settledA canon names u1 u2"
    and inj: "distinct (map snd canon)"
    and s1: "stepA_frame thread R u1 f = Inr v1"
    and s2: "stepA_frame thread' R u2 f = Inr v2"
    and again: "\<And>old2 r2. stepA_resolve thread' R f = Inr (old2, r2) \<Longrightarrow>
       \<exists>old1 r1 s. stepA_resolve thread R f = Inr (old1, r1) \<and> old2 = Some s \<and>
         map_of canon (symbolAddress r1) = Some s \<and>
         symbolAddress r2 = symbolAddress r1 \<and>
         (ar_name r2 = ar_name r1 \<or> map_of names (symbolAddress r1) = Some (ar_name r2))"
  shows "settledA canon names v1 v2"
proof -
  let ?c = symbolAddressToCanonicalSymbolIndexMap and ?n = symbolAddressToNameMap
  from rel have r1: "\<And>sa s. map_of (?c u2) sa = Some s \<Longrightarrow> map_of canon sa = Some s"
    and r2: "\<And>sa s. map_of canon sa = Some s \<Longrightarrow> map_of (?c u2) sa = None \<Longrightarrow>
        s \<in> set (availableNativeSymbols u2)"
    and r3: "fst ` set (?n u2) \<subseteq> fst ` set (?c u2)"
    and r4: "\<And>sa nm. map_of (?n u2) sa = Some nm \<Longrightarrow>
        map_of (?n u1) sa = Some nm \<or> map_of names sa = Some nm"
    by (auto simp: settledA_def)
  from stepA_frame_Inr[OF s1] obtain old1 r1 where
    res1: "stepA_resolve thread R f = Inr (old1, r1)"
    and n1: "?n v1 = AList.update (symbolAddress r1) (ar_name r1) (?n u1)" by blast
  have names': "map_of (?n v1) sa = Some nm \<or> map_of names sa = Some nm"
    if res2: "stepA_resolve thread' R f = Inr (old2, r2)"
      and n2: "?n v2 = AList.update (symbolAddress r2) (ar_name r2) (?n u2)"
      and get: "map_of (?n v2) sa = Some nm" for old2 r2 sa nm
  proof -
    from again[OF res2] res1 have sa: "symbolAddress r2 = symbolAddress r1"
      and nm: "ar_name r2 = ar_name r1 \<or> map_of names (symbolAddress r1) = Some (ar_name r2)"
      by auto
    show ?thesis
    proof (cases "sa = symbolAddress r1")
      case True
      with get n2 sa have "nm = ar_name r2" by (simp add: update_conv')
      with nm True show ?thesis by (auto simp: n1 update_conv')
    next
      case False
      with get n2 sa have "map_of (?n u2) sa = Some nm" by (simp add: update_conv')
      from r4[OF this] False show ?thesis by (simp add: n1 update_conv')
    qed
  qed
  from s2 show ?thesis
  proof (cases rule: stepA_frame_cases)
    case (claim old2 r2 s)
    from again[OF claim(1)] res1 claim(4) have cs: "map_of canon (symbolAddress r2) = Some s" by auto
    have a: "map_of canon sa = Some t" if "map_of (?c v2) sa = Some t" for sa t
      using that r1[of sa t] cs by (auto simp: claim(7) update_conv' split: if_splits)
    have b: "t \<in> set (availableNativeSymbols v2)"
      if "map_of canon sa = Some t" "map_of (?c v2) sa = None" for sa t
    proof -
      from that(2) have ne: "sa \<noteq> symbolAddress r2" and n: "map_of (?c u2) sa = None"
        by (auto simp: claim(7) update_conv' split: if_splits)
      from distinct_snd_inj[OF inj that(1), of "symbolAddress r2"] cs ne have "t \<noteq> s" by auto
      with r2[OF that(1) n] show ?thesis by (simp add: claim(8) set_delete_def)
    qed
    have c: "fst ` set (?n v2) \<subseteq> fst ` set (?c v2)"
      using r3 by (auto simp: claim(3,7) dom_update)
    show ?thesis
      unfolding settledA_def using a b c names'[OF claim(1) claim(3)] by blast
  next
    case (keep old2 r2)
    from again[OF keep(1)] res1 obtain s where old2: "old2 = Some s"
      and cs: "map_of canon (symbolAddress r2) = Some s" by auto
    have "map_of (?c u2) (symbolAddress r2) \<noteq> None"
      using keep(4) old2 r2[OF cs] by auto
    then have "symbolAddress r2 \<in> fst ` set (?c u2)" by (simp add: map_of_eq_None_iff)
    with r3 have c: "fst ` set (?n v2) \<subseteq> fst ` set (?c v2)"
      by (auto simp: keep(3,5) dom_update)
    show ?thesis
      unfolding settledA_def keep(5,6) using r1 r2 c[unfolded keep(5)] names'[OF keep(1) keep(3)]
      by blast
  qed
qed

lemma second_stepA:
  assumes run1: "step_run thread rix lix R stA stB column stC thread'"
    and wf: "wellFormed thread"
    and run2: "step_run thread' rix lix R stA2 stB2 column2 stC2 thread''"
  shows "\<forall>sa s. map_of (symbolAddressToCanonicalSymbolIndexMap stA2) sa = Some s \<longrightarrow>
           map_of (b_canonical stB) sa = Some s"
    and "fst ` set (symbolAddressToNameMap stA2) \<subseteq> fst ` set (symbolAddressToCanonicalSymbolIndexMap stA2)"
    and "\<forall>sa nm. map_of (symbolAddressToNameMap stA2) sa = Some nm \<longrightarrow>
           map_of (symbolAddressToNameMap stA) sa = Some nm"
proof -
  let ?F = "collectFrames (frameTable thread) (funcTable thread) rix"
  from wf have nwf: "nativeSymbols_wf (nativeSymbols thread)" by (simp add: wellFormed_def)
  note sy = step_run_symbols[OF run1 nwf]
  from sy(1) have inj: "distinct (map snd (b_canonical stB))"
    and nwf': "nativeSymbols_wf (nativeSymbols thread')" by (simp_all add: canon_ok_def)
  have F': "collectFrames (frameTable thread') (funcTable thread') rix = ?F"
    by (rule step_run_funcs(3)[OF run1 wf])
  from run1 have a1: "for_of (stepA_frame thread R) ?F (stepA_init (collectInfo thread rix lix)) = Inr stA"
    by (simp add: step_run_def stepA_def collectInfo_def Let_def)
  from run2 have a2: "for_of (stepA_frame thread' R) ?F (stepA_init (collectInfo thread' rix lix)) = Inr stA2"
    by (simp add: step_run_def stepA_def collectInfo_def Let_def F')
  have init: "settledA (b_canonical stB) (symbolAddressToNameMap stA)
      (stepA_init (collectInfo thread rix lix)) (stepA_init (collectInfo thread' rix lix))"
    unfolding settledA_def
  proof (intro conjI allI impI)
    fix sa s assume "map_of (b_canonical stB) sa = Some s"
    then have "(sa, s) \<in> set (b_canonical stB)" by (rule map_of_SomeD)
    with sy(1) have "s < ns_length (nativeSymbols thread') \<and> ns_libIndex (nativeSymbols thread') ! s = lix"
      by (force simp: canon_ok_def)
    then show "s \<in> set (availableNativeSymbols (stepA_init (collectInfo thread' rix lix)))"
      by (simp add: stepA_init_def collectInfo_def Let_def set_new_Set collectNativeSymbols_iff[OF nwf'])
  qed (simp_all add: stepA_init_def)
  have "settledA (b_canonical stB) (symbolAddressToNameMap stA) stA stA2"
  proof (rule for_of_lockstep[where Rel = "settledA (b_canonical stB) (symbolAddressToNameMap stA)",
        OF a1 a2 init])
    fix pre x rest u1 u2 v1 v2
    assume xs: "?F = pre @ x # rest"
      and rel: "settledA (b_canonical stB) (symbolAddressToNameMap stA) u1 u2"
      and s1: "stepA_frame thread R u1 x = Inr v1" and s2: "stepA_frame thread' R u2 x = Inr v2"
    from xs have x: "x \<in> set ?F" by simp
    show "settledA (b_canonical stB) (symbolAddressToNameMap stA) v1 v2"
      by (rule settledA_step[OF rel inj s1 s2]) (rule stepA_resolve_again[OF run1 nwf x])
  qed
  then show "\<forall>sa s. map_of (symbolAddressToCanonicalSymbolIndexMap stA2) sa = Some s \<longrightarrow>
           map_of (b_canonical stB) sa = Some s"
    and "fst ` set (symbolAddressToNameMap stA2) \<subseteq> fst ` set (symbolAddressToCanonicalSymbolIndexMap stA2)"
    and "\<forall>sa nm. map_of (symbolAddressToNameMap stA2) sa = Some nm \<longrightarrow>
           map_of (symbolAddressToNameMap stA) sa = Some nm"
    unfolding settledA_def by blast+
qed

lemma indexForString_known:
  "s \<in> set strings \<Longrightarrow> indexForString strings s = (index_of s strings, strings)"
  by (simp add: indexForString_def)

lemma stepB_entry_settled:
  assumes "map_of (b_canonical st) sa = Some s"
    and "s < ns_length (b_nativeSymbols st)" and "nativeSymbols_wf (b_nativeSymbols st)"
    and "ns_address (b_nativeSymbols st) ! s = sa"
    and "nm \<in> set (b_stringTable st)"
    and "ns_name (b_nativeSymbols st) ! s = index_of nm (b_stringTable st)"
  shows "stepB_entry lix st (sa, nm) = Inr st"
proof -
  have "(ns_address (b_nativeSymbols st))[s := sa] = ns_address (b_nativeSymbols st)"
    "(ns_name (b_nativeSymbols st))[s := index_of nm (b_stringTable st)] = ns_name (b_nativeSymbols st)"
    using assms(4,6) by (metis list_update_id)+
  with assms show ?thesis
    by (simp add: stepB_entry_def indexForString_known store_at_inside nativeSymbols_wf_def)
qed

lemma second_stepB:
  assumes run1: "step_run thread rix lix R stA stB column stC thread'"
    and wf: "wellFormed thread"
    and run2: "step_run thread' rix lix R stA2 stB2 column2 stC2 thread''"
  shows "stB2 = \<lparr> b_nativeSymbols = nativeSymbols thread',
         b_stringTable = stringTable thread',
         b_canonical = symbolAddressToCanonicalSymbolIndexMap stA2,
         b_availableNativeSymbolIterator = availableNativeSymbols stA2 \<rparr>"
proof -
  let ?init = "\<lparr> b_nativeSymbols = nativeSymbols thread',
         b_stringTable = stringTable thread',
         b_canonical = symbolAddressToCanonicalSymbolIndexMap stA2,
         b_availableNativeSymbolIterator = availableNativeSymbols stA2 \<rparr>"
  from wf have nwf: "nativeSymbols_wf (nativeSymbols thread)" by (simp add: wellFormed_def)
  note sy = step_run_symbols[OF run1 nwf]
  note a2 = second_stepA[OF run1 wf run2]
  from sy(1) have nwf': "nativeSymbols_wf (nativeSymbols thread')" by (simp add: canon_ok_def)
  from run2 have b: "for_of (stepB_entry lix) (symbolAddressToNameMap stA2) ?init = Inr stB2"
    by (simp add: step_run_def stepB_def collectInfo_def Let_def)
  from run2 have "stepA thread' (collectInfo thread' rix lix) R = Inr stA2" by (simp add: step_run_def)
  from stepA_inv_all[OF this nwf'] have d2: "distinct (map fst (symbolAddressToNameMap stA2))"
    by (simp add: stepA_inv_def)
  have "for_of (stepB_entry lix) (symbolAddressToNameMap stA2) ?init = Inr ?init"
  proof (rule for_of_id)
    fix e assume e: "e \<in> set (symbolAddressToNameMap stA2)"
    obtain sa nm where sn: "e = (sa, nm)" by (cases e)
    from e sn d2 have get: "map_of (symbolAddressToNameMap stA2) sa = Some nm" by simp
    with a2(3) have "map_of (symbolAddressToNameMap stA) sa = Some nm" by blast
    then have in1: "(sa, nm) \<in> set (symbolAddressToNameMap stA)" by (rule map_of_SomeD)
    from e sn a2(2) have "sa \<in> fst ` set (symbolAddressToCanonicalSymbolIndexMap stA2)" by force
    then obtain s where s2: "map_of (symbolAddressToCanonicalSymbolIndexMap stA2) sa = Some s"
      by (cases "map_of (symbolAddressToCanonicalSymbolIndexMap stA2) sa")
         (auto simp: map_of_eq_None_iff)
    with a2(1) have s1: "map_of (b_canonical stB) sa = Some s" by blast
    from sy(2) in1 s1 have facts: "ns_address (nativeSymbols thread') ! s = sa"
      "nm \<in> set (stringTable thread')"
      "ns_name (nativeSymbols thread') ! s = index_of nm (stringTable thread')" by auto
    from canon_ok_lt[OF sy(1) s1] have "s < ns_length (nativeSymbols thread')" .
    with s2 facts nwf' show "stepB_entry lix ?init e = Inr ?init"
      unfolding sn by (intro stepB_entry_settled) simp_all
  qed
  with b show ?thesis by simp
qed

lemma second_column:
  assumes run1: "step_run thread rix lix R stA stB column stC thread'"
    and wf: "wellFormed thread"
    and run2: "step_run thread' rix lix R stA2 stB2 column2 stC2 thread''"
    and f: "f \<in> set (collectFrames (frameTable thread) (funcTable thread) rix)"
  shows "f < length column2" and "column2 ! f = column ! f"
proof -
  let ?F = "collectFrames (frameTable thread) (funcTable thread) rix"
  from wf have nwf: "nativeSymbols_wf (nativeSymbols thread)" by (simp add: wellFormed_def)
  note sy = step_run_symbols[OF run1 nwf]
  from sy(1) have nwf': "nativeSymbols_wf (nativeSymbols thread')" by (simp add: canon_ok_def)
  have F': "collectFrames (frameTable thread') (funcTable thread') rix = ?F"
    by (rule step_run_funcs(3)[OF run1 wf])
  from step_run_symbols(4)[OF run2 nwf'] f F' obtain old2 r2 s2 where
    res2: "stepA_resolve thread' R f = Inr (old2, r2)"
    and c2: "map_of (b_canonical stB2) (symbolAddress r2) = Some s2"
    and col2: "f < length column2" "column2 ! f = Some s2" by force
  from second_stepB[OF run1 wf run2] have "b_canonical stB2 = symbolAddressToCanonicalSymbolIndexMap stA2"
    by simp
  with c2 second_stepA(1)[OF run1 wf run2] have c1: "map_of (b_canonical stB) (symbolAddress r2) = Some s2"
    by simp
  from stepA_resolve_again[OF run1 nwf f res2] obtain old1 r1 where
    res1: "stepA_resolve thread R f = Inr (old1, r1)" and sa: "symbolAddress r2 = symbolAddress r1"
    by blast
  from sy(4) f obtain old r s where "stepA_resolve thread R f = Inr (old, r)"
    "map_of (b_canonical stB) (symbolAddress r) = Some s" "column ! f = Some s" by blast
  with res1 sa c1 have "column ! f = Some s2" by simp
  with col2 show "f < length column2" "column2 ! f = column ! f" by simp_all
qed

lemma internNames_interned:
  assumes "interned strings (ar_name r, ar_file r)"
  shows "internNames strings r =
    (index_of (ar_name r) strings, map_option (\<lambda>f. index_of f strings) (ar_file r), strings)"
  using assms
  by (cases "ar_file r") (simp_all add: internNames_def interned_def indexForString_known)

lemma prefix_nth: "prefix xs ys \<Longrightarrow> i < length xs \<Longrightarrow> ys ! i = xs ! i"
  by (auto simp: prefix_def nth_append)

text \<open>
  The second loop over the frames on the output of a run finds, for every frame of the
  library, the name and the file of the run before.
\<close>

lemma stepC_resolve_again:
  assumes res1: "stepC_resolve thread R syms column u1 f = Inr (old1, r1)"
    and res2: "stepC_resolve thread' R syms column2 u2 f = Inr (old2, r2)"
    and addr: "ft_address (frameTable thread') = ft_address (frameTable thread)"
    and col: "column2 ! f = column ! f"
    and tbl: "c_funcTable u2 = funcTable thread'"
    and str: "c_stringTable u2 = stringTable thread'"
    and pre: "prefix (c_stringTable u1) (stringTable thread')"
    and inn: "interned (stringTable thread') (ar_name r1, ar_file r1)"
    and row: "fn_fileName (funcTable thread') ! (ft_func (frameTable thread') ! f) =
       map_option (\<lambda>fl. index_of fl (stringTable thread')) (ar_file r1)"
  shows "ar_name r2 = ar_name r1 \<and> ar_file r2 = ar_file r1"
proof -
  from res1 have alt: "f < length (ft_address (frameTable thread))"
    unfolding stepC_resolve_def by (auto simp: sbind_eq_Inr read_at_Inr split: option.splits)
  show ?thesis
  proof (cases "R (ft_address (frameTable thread) ! f)")
    case (Some ar)
    with res1 alt have "r1 = ar"
      unfolding stepC_resolve_def by (auto simp: sbind_eq_Inr read_at_Inr split: option.splits)
    moreover from res2 Some alt have "r2 = ar"
      unfolding stepC_resolve_def addr by (auto simp: sbind_eq_Inr read_at_Inr split: option.splits)
    ultimately show ?thesis by simp
  next
    case None
    from res1 None alt obtain s where s1: "column ! f = Some s"
      and n1: "getString (c_stringTable u1) (ns_name syms ! s) = Inr (ar_name r1)"
      unfolding stepC_resolve_def by (auto simp: sbind_eq_Inr read_at_Inr split: option.splits)
    from res2 None alt obtain s' where s2: "column2 ! f = Some s'"
      and n2: "getString (c_stringTable u2) (ns_name syms ! s') = Inr (ar_name r2)"
      and o2: "old2 = ft_func (frameTable thread') ! f"
      and f2: "(case fn_fileName (c_funcTable u2) ! old2 of
                          None \<Rightarrow> Inr None
                        | Some i \<Rightarrow> sbind (getString (c_stringTable u2) i) (\<lambda>f. Inr (Some f))) =
               Inr (ar_file r2)"
      unfolding stepC_resolve_def addr by (auto simp: sbind_eq_Inr read_at_Inr split: option.splits)
    from s1 s2 col have "s' = s" by simp
    with n1 n2 pre have nameq: "ar_name r2 = ar_name r1"
      by (auto simp: getString_def str prefix_nth split: if_splits)
    have fileq: "ar_file r2 = ar_file r1"
    proof (cases "ar_file r1")
      case None
      with f2 row show ?thesis by (simp add: tbl o2)
    next
      case (Some fl)
      with inn have "fl \<in> set (stringTable thread')" by (simp add: interned_def)
      then have "stringTable thread' ! index_of fl (stringTable thread') = fl"
        "index_of fl (stringTable thread') < length (stringTable thread')"
        by (simp_all add: nth_index_of index_of_less)
      with f2 row Some show ?thesis by (auto simp: tbl o2 str getString_def sbind_eq_Inr)
    qed
    from nameq fileq show ?thesis by simp
  qed
qed

definition settledC :: "FuncTable \<Rightarrow> nat \<Rightarrow> Thread \<Rightarrow> stepC_state \<Rightarrow> stepC_state \<Rightarrow> bool" where
  "settledC funcs0 rix thread' u1 u2 \<longleftrightarrow>
     funcs_inv funcs0 rix u1 \<and>
     c_funcKeyToFuncMap u2 = c_funcKeyToFuncMap u1 \<and>
     c_availableFuncIter u2 =
       c_availableFuncIter u1 @ [fn_length (c_funcTable u1) ..< fn_length (funcTable thread')] \<and>
     c_funcTable u2 = funcTable thread' \<and>
     c_stringTable u2 = stringTable thread'"

lemma settledC_funcForKey:
  assumes rel: "settledC funcs0 rix thread' u1 u2"
    and f1: "funcForKey rix (u1 \<lparr> c_stringTable := str1 \<rparr>) fi fli = Inr (g1, w1)"
    and f2: "funcForKey rix u2 fi fli = Inr (g2, w2)"
    and len: "fn_length (c_funcTable w1) \<le> fn_length (funcTable thread')"
    and rows: "\<forall>(k, g) \<in> set (c_funcKeyToFuncMap w1). g < fn_length (funcTable thread') \<and>
        k = funcKey (fn_name (funcTable thread') ! g) (fn_fileName (funcTable thread') ! g)"
    and wf': "funcTable_wf (funcTable thread')"
  shows "settledC funcs0 rix thread' w1 w2"
proof -
  let ?K = "funcKey fi fli" and ?T = "funcTable thread'"
  from rel have inv: "funcs_inv funcs0 rix (u1 \<lparr> c_stringTable := str1 \<rparr>)"
    and km: "c_funcKeyToFuncMap u2 = c_funcKeyToFuncMap u1"
    and it: "c_availableFuncIter u2 =
       c_availableFuncIter u1 @ [fn_length (c_funcTable u1) ..< fn_length ?T]"
    and tbl: "c_funcTable u2 = ?T" and str: "c_stringTable u2 = stringTable thread'"
    by (simp_all add: settledC_def)
  from inv have wf1: "funcTable_wf (c_funcTable (u1 \<lparr> c_stringTable := str1 \<rparr>))"
    by (simp add: funcs_inv_def)
  from wf' tbl have wf2: "funcTable_wf (c_funcTable u2)" by simp
  note inv1 = funcs_inv_funcForKey[OF inv f1]
  from funcForKey_lookup(1)[OF f1] have "(?K, g1) \<in> set (c_funcKeyToFuncMap w1)"
    by (rule map_of_SomeD)
  with rows have glt: "g1 < fn_length ?T"
    and "?K = funcKey (fn_name ?T ! g1) (fn_fileName ?T ! g1)" by auto
  from funcKey_inj[OF this(2)] have row: "fn_name ?T ! g1 = fi" "fn_fileName ?T ! g1 = fli" by simp_all
  from glt wf' have glen: "g1 < length (fn_name ?T)" "g1 < length (fn_fileName ?T)"
    by (simp_all add: funcTable_wf_def)
  have same: "nc = fn_name ?T \<and> fc = fn_fileName ?T"
    if "store_at (fn_name ?T) g1 fi = Inr nc" "store_at (fn_fileName ?T) g1 fli = Inr fc" for nc fc
    using that glen row by (auto simp: store_at_Inr)
  have str2: "c_stringTable w2 = stringTable thread'"
    using funcForKey_frame(4)[OF f2] str by simp
  from f1 wf1 show ?thesis
  proof (cases rule: funcForKey_cases)
    case known
    then have k1: "map_of (c_funcKeyToFuncMap u1) ?K = Some g1" by simp
    from f2 wf2 have "w2 = u2"
    proof (cases rule: funcForKey_cases)
      case known
      then show ?thesis by simp
    next
      case (reuse rest nc fc)
      with k1 km show ?thesis by simp
    next
      case fresh
      with k1 km show ?thesis by simp
    qed
    with rel known(2) inv1 show ?thesis by (simp add: settledC_def)
  next
    case (reuse rest nc fc)
    then have k1: "map_of (c_funcKeyToFuncMap u1) ?K = None"
      and i1: "c_availableFuncIter u1 = g1 # rest" by simp_all
    from reuse(5) have l1: "fn_length (c_funcTable w1) = fn_length (c_funcTable u1)" by simp
    from f2 wf2 show ?thesis
    proof (cases rule: funcForKey_cases)
      case known
      with k1 km show ?thesis by simp
    next
      case (reuse rest2 nc2 fc2)
      from reuse(2) it i1 have g: "g2 = g1"
        and r2: "rest2 = rest @ [fn_length (c_funcTable u1) ..< fn_length ?T]" by simp_all
      from same[of nc2 fc2] reuse(6,7) g tbl have "nc2 = fn_name ?T" "fc2 = fn_fileName ?T" by simp_all
      with reuse(5) tbl have t2: "c_funcTable w2 = ?T" by simp
      show ?thesis
        unfolding settledC_def
        using inv1 t2 str2 reuse(3,4) r2 g km l1 \<open>c_availableFuncIter w1 = rest\<close>
          \<open>c_funcKeyToFuncMap w1 = AList.update ?K g1 (c_funcKeyToFuncMap (u1 \<lparr> c_stringTable := str1 \<rparr>))\<close>
        by simp
    next
      case fresh
      with it i1 show ?thesis by simp
    qed
  next
    case fresh
    then have k1: "map_of (c_funcKeyToFuncMap u1) ?K = None"
      and i1: "c_availableFuncIter u1 = []" and g1: "g1 = fn_length (c_funcTable u1)" by simp_all
    from fresh(6) have l1: "fn_length (c_funcTable w1) = fn_length (c_funcTable u1) + 1" by simp
    with len have lt: "fn_length (c_funcTable u1) < fn_length ?T" by simp
    then have upt: "[fn_length (c_funcTable u1) ..< fn_length ?T] =
        fn_length (c_funcTable u1) # [fn_length (c_funcTable u1) + 1 ..< fn_length ?T]"
      by (simp add: upt_conv_Cons)
    from f2 wf2 show ?thesis
    proof (cases rule: funcForKey_cases)
      case known
      with k1 km show ?thesis by simp
    next
      case (reuse rest2 nc2 fc2)
      from it i1 upt have "c_availableFuncIter u2 =
          fn_length (c_funcTable u1) # [fn_length (c_funcTable u1) + 1 ..< fn_length ?T]" by simp
      from reuse(2)[symmetric] this have "g2 # rest2 =
          fn_length (c_funcTable u1) # [fn_length (c_funcTable u1) + 1 ..< fn_length ?T]" by (rule trans)
      then have g: "g2 = g1"
        and r2: "rest2 = [fn_length (c_funcTable u1) + 1 ..< fn_length ?T]" by (auto simp: g1)
      from same[of nc2 fc2] reuse(6,7) g tbl have "nc2 = fn_name ?T" "fc2 = fn_fileName ?T" by simp_all
      with reuse(5) tbl have t2: "c_funcTable w2 = ?T" by simp
      show ?thesis
        unfolding settledC_def
        using inv1 t2 str2 reuse(3,4) r2 g km l1 \<open>c_availableFuncIter w1 = []\<close>
          \<open>c_funcKeyToFuncMap w1 = AList.update ?K g1 (c_funcKeyToFuncMap (u1 \<lparr> c_stringTable := str1 \<rparr>))\<close>
        by simp
    next
      case fresh
      with it i1 upt show ?thesis by simp
    qed
  qed
qed

lemma stepC_frame_grows:
  assumes "stepC_frame thread R rix syms col st f = Inr st'"
  shows "prefix (c_funcKeyToFuncMap st) (c_funcKeyToFuncMap st')"
    and "fn_length (c_funcTable st) \<le> fn_length (c_funcTable st')"
proof -
  from assms obtain oldFunc r fi fli strings funcIndex st1 fc lc where
    ffk: "funcForKey rix (st \<lparr> c_stringTable := strings \<rparr>) fi fli = Inr (funcIndex, st1)"
    and st': "st' = st1 \<lparr> c_newFrameTableFuncColumn := fc, c_newFrameTableLineColumn := lc,
                  c_oldFuncToNewFuncEntries := c_oldFuncToNewFuncEntries st @ [(oldFunc, funcIndex)] \<rparr>"
    by (rule stepC_frame_InrE)
  from funcForKey_km(1,3)[OF ffk] st'
  show "prefix (c_funcKeyToFuncMap st) (c_funcKeyToFuncMap st')"
    "fn_length (c_funcTable st) \<le> fn_length (c_funcTable st')" by simp_all
qed

lemma stepC_grows:
  assumes "for_of (stepC_frame thread R rix syms col) frames st = Inr st'"
  shows "prefix (c_funcKeyToFuncMap st) (c_funcKeyToFuncMap st')"
    and "fn_length (c_funcTable st) \<le> fn_length (c_funcTable st')"
proof -
  have "prefix (c_funcKeyToFuncMap st) (c_funcKeyToFuncMap st') \<and>
    fn_length (c_funcTable st) \<le> fn_length (c_funcTable st')"
  proof (rule for_of_invariant[where P = "\<lambda>t. prefix (c_funcKeyToFuncMap st) (c_funcKeyToFuncMap t) \<and>
      fn_length (c_funcTable st) \<le> fn_length (c_funcTable t)", OF assms])
    show "prefix (c_funcKeyToFuncMap st) (c_funcKeyToFuncMap st) \<and>
      fn_length (c_funcTable st) \<le> fn_length (c_funcTable st)" by simp
  next
    fix x t t'
    assume "prefix (c_funcKeyToFuncMap st) (c_funcKeyToFuncMap t) \<and>
      fn_length (c_funcTable st) \<le> fn_length (c_funcTable t)"
      and "stepC_frame thread R rix syms col t x = Inr t'"
    with stepC_frame_grows[of thread R rix syms col t x t']
    show "prefix (c_funcKeyToFuncMap st) (c_funcKeyToFuncMap t') \<and>
      fn_length (c_funcTable st) \<le> fn_length (c_funcTable t')"
      using prefix_order.trans by fastforce
  qed
  then show "prefix (c_funcKeyToFuncMap st) (c_funcKeyToFuncMap st')"
    "fn_length (c_funcTable st) \<le> fn_length (c_funcTable st')" by simp_all
qed

lemma settledC_fields [simp]:
  "settledC funcs0 rix thread' (u1 \<lparr> c_newFrameTableFuncColumn := a \<rparr>) u2 = settledC funcs0 rix thread' u1 u2"
  "settledC funcs0 rix thread' (u1 \<lparr> c_newFrameTableLineColumn := b \<rparr>) u2 = settledC funcs0 rix thread' u1 u2"
  "settledC funcs0 rix thread' (u1 \<lparr> c_oldFuncToNewFuncEntries := c \<rparr>) u2 = settledC funcs0 rix thread' u1 u2"
  "settledC funcs0 rix thread' u1 (u2 \<lparr> c_newFrameTableFuncColumn := a \<rparr>) = settledC funcs0 rix thread' u1 u2"
  "settledC funcs0 rix thread' u1 (u2 \<lparr> c_newFrameTableLineColumn := b \<rparr>) = settledC funcs0 rix thread' u1 u2"
  "settledC funcs0 rix thread' u1 (u2 \<lparr> c_oldFuncToNewFuncEntries := c \<rparr>) = settledC funcs0 rix thread' u1 u2"
  by (simp_all add: settledC_def)

lemma second_stepC:
  assumes run1: "step_run thread rix lix R stA stB column stC thread'"
    and wf: "wellFormed thread"
    and run2: "step_run thread' rix lix R stA2 stB2 column2 stC2 thread''"
  shows "c_funcTable stC2 = funcTable thread'"
proof -
  let ?F = "collectFrames (frameTable thread) (funcTable thread) rix"
  let ?info = "collectInfo thread rix lix" and ?info' = "collectInfo thread' rix lix"
  let ?syms = "nativeSymbols thread'" and ?S = "stringTable thread'" and ?T = "funcTable thread'"
  let ?b1 = "stepC_frame thread R rix ?syms column"
  let ?b2 = "stepC_frame thread' R rix ?syms column2"
  let ?s1 = "stepC_init thread ?info (b_stringTable stB)"
  let ?s2 = "stepC_init thread' ?info' ?S"
  from wf have fwf: "funcTable_wf (funcTable thread)" by (simp add: wellFormed_def)
  note fu = step_run_funcs[OF run1 wf]
  note sb = second_stepB[OF run1 wf run2]
  from run1 have t': "nativeSymbols thread' = b_nativeSymbols stB" "stringTable thread' = c_stringTable stC"
    "funcTable thread' = c_funcTable stC" "ft_func (frameTable thread') = c_newFrameTableFuncColumn stC"
    "ft_address (frameTable thread') = ft_address (frameTable thread)"
    by (simp_all add: step_run_def)
  have rixs: "resourceIndex ?info = rix" "resourceIndex ?info' = rix" by (simp_all add: collectInfo_def Let_def)
  from run1 have c1: "for_of ?b1 ?F ?s1 = Inr stC"
    by (simp add: step_run_def stepC_def rixs t')
  from run2 sb have c2: "for_of ?b2 ?F ?s2 = Inr stC2"
    by (simp add: step_run_def stepC_def rixs fu(3))
  from run1 have c1': "stepC thread ?info R stB column ?F = Inr stC" by (simp add: step_run_def)
  have "\<forall>x \<in> set (allFuncsForThisLib ?info). x < fn_length (funcTable thread)"
    by (auto simp: collectInfo_def Let_def dest: collectFuncs_lt)
  from grouped_all[OF c1' this] distinct_collectFrames[of "frameTable thread" "funcTable thread" rix]
  have grp: "\<forall>k < length ?F. \<exists>t old r.
           for_of ?b1 (take k ?F) ?s1 = Inr t \<and>
           stepC_resolve thread R ?syms column t (?F ! k) = Inr (old, r) \<and>
           interned ?S (ar_name r, ar_file r) \<and>
           map_of (c_funcKeyToFuncMap stC) (pairKey ?S (ar_name r, ar_file r)) =
             Some (ft_func (frameTable thread') ! (?F ! k))"
    by (simp add: grouped_def rixs t')
  from fu(1) have rows: "\<forall>(k, g) \<in> set (c_funcKeyToFuncMap stC).
        k = funcKey (fn_name ?T ! g) (fn_fileName ?T ! g)"
    by (simp add: funcs_inv_def t')
  from funcs_inv_alloc(2)[OF fu(1)] have lts: "\<forall>g \<in> snd ` set (c_funcKeyToFuncMap stC). g < fn_length ?T"
    by (simp add: t')
  have ns: "new_Set (collectFuncs ?T rix) =
      collectFuncs (funcTable thread) rix @ [fn_length (funcTable thread) ..< fn_length ?T]"
    unfolding new_Set_distinct_id[OF distinct_collectFuncs] by (rule fu(2))
  have ns0: "new_Set (collectFuncs (funcTable thread) rix) = collectFuncs (funcTable thread) rix"
    by (rule new_Set_distinct_id[OF distinct_collectFuncs])
  have init: "settledC (funcTable thread) rix thread' ?s1 ?s2"
    using fwf
    by (simp add: settledC_def funcs_inv_def stepC_init_def collectInfo_def Let_def ns ns0)
  have "settledC (funcTable thread) rix thread' stC stC2"
  proof (rule for_of_lockstep[where Rel = "settledC (funcTable thread) rix thread'", OF c1 c2 init])
    fix pre x rest u1 u2 v1 v2
    assume xs: "?F = pre @ x # rest"
      and p1: "for_of ?b1 pre ?s1 = Inr u1"
      and rel: "settledC (funcTable thread) rix thread' u1 u2"
      and s1: "?b1 u1 x = Inr v1" and s2: "?b2 u2 x = Inr v2"
      and rest1: "for_of ?b1 rest v1 = Inr stC"
    from xs have x: "x \<in> set ?F" by simp
    from rel have tbl: "c_funcTable u2 = ?T" and str: "c_stringTable u2 = ?S"
      by (simp_all add: settledC_def)
    from s1 obtain old1 r1 fi1 fli1 str1 g1 w1 fc1 lc1 where
      res1: "stepC_resolve thread R ?syms column u1 x = Inr (old1, r1)"
      and inn1: "internNames (c_stringTable u1) r1 = (fi1, fli1, str1)"
      and ffk1: "funcForKey rix (u1 \<lparr> c_stringTable := str1 \<rparr>) fi1 fli1 = Inr (g1, w1)"
      and v1: "v1 = w1 \<lparr> c_newFrameTableFuncColumn := fc1, c_newFrameTableLineColumn := lc1,
                  c_oldFuncToNewFuncEntries := c_oldFuncToNewFuncEntries u1 @ [(old1, g1)] \<rparr>"
      by (rule stepC_frame_InrE)
    from s2 obtain old2 r2 fi2 fli2 str2 g2 w2 fc2 lc2 where
      res2: "stepC_resolve thread' R ?syms column2 u2 x = Inr (old2, r2)"
      and inn2: "internNames (c_stringTable u2) r2 = (fi2, fli2, str2)"
      and ffk2: "funcForKey rix (u2 \<lparr> c_stringTable := str2 \<rparr>) fi2 fli2 = Inr (g2, w2)"
      and v2: "v2 = w2 \<lparr> c_newFrameTableFuncColumn := fc2, c_newFrameTableLineColumn := lc2,
                  c_oldFuncToNewFuncEntries := c_oldFuncToNewFuncEntries u2 @ [(old2, g2)] \<rparr>"
      by (rule stepC_frame_InrE)
    have k: "length pre < length ?F" "take (length pre) ?F = pre" "?F ! length pre = x"
      by (simp_all add: xs)
    from grp k(1) obtain t old r where
      g: "for_of ?b1 (take (length pre) ?F) ?s1 = Inr t"
        "stepC_resolve thread R ?syms column t (?F ! length pre) = Inr (old, r)"
        "interned ?S (ar_name r, ar_file r)"
        "map_of (c_funcKeyToFuncMap stC) (pairKey ?S (ar_name r, ar_file r)) =
             Some (ft_func (frameTable thread') ! (?F ! length pre))"
      by blast
    from g(1) p1 have "t = u1" unfolding k(2) by simp
    with g(2) res1 have "r = r1" unfolding k(3) by simp
    with g(3,4) have inn: "interned ?S (ar_name r1, ar_file r1)"
      and get: "map_of (c_funcKeyToFuncMap stC) (pairKey ?S (ar_name r1, ar_file r1)) =
             Some (ft_func (frameTable thread') ! x)"
      unfolding k(3) by simp_all
    from get have "(pairKey ?S (ar_name r1, ar_file r1), ft_func (frameTable thread') ! x)
        \<in> set (c_funcKeyToFuncMap stC)" by (rule map_of_SomeD)
    with rows have "pairKey ?S (ar_name r1, ar_file r1) =
        funcKey (fn_name ?T ! (ft_func (frameTable thread') ! x))
          (fn_fileName ?T ! (ft_func (frameTable thread') ! x))" by auto
    from funcKey_inj[OF this[unfolded pairKey_def]]
    have row: "fn_fileName ?T ! (ft_func (frameTable thread') ! x) =
       map_option (\<lambda>fl. index_of fl ?S) (ar_file r1)" by simp
    from stepC_frame_strings[OF s1] stepC_strings[OF rest1]
    have pre1: "prefix (c_stringTable u1) ?S" and prev: "prefix (c_stringTable v1) ?S"
      using prefix_order.trans by (auto simp: t')
    from second_column(2)[OF run1 wf run2 x] have col: "column2 ! x = column ! x" .
    from stepC_resolve_again[OF res1 res2 t'(5) col tbl str pre1 inn row]
    have same: "ar_name r2 = ar_name r1" "ar_file r2 = ar_file r1" by simp_all
    from inn same have inn': "interned ?S (ar_name r2, ar_file r2)" by simp
    from internNames_interned[OF inn'] have "internNames (c_stringTable u2) r2 =
        (index_of (ar_name r1) ?S, map_option (\<lambda>f. index_of f ?S) (ar_file r1), ?S)"
      by (simp add: same str)
    from inn2[symmetric] this have "(fi2, fli2, str2) =
        (index_of (ar_name r1) ?S, map_option (\<lambda>f. index_of f ?S) (ar_file r1), ?S)"
      by (rule trans)
    then have two: "str2 = ?S"
      "fi2 = index_of (ar_name r1) ?S" "fli2 = map_option (\<lambda>f. index_of f ?S) (ar_file r1)"
      by auto
    from funcForKey_frame(4)[OF ffk1] v1 have sv: "c_stringTable v1 = str1" by simp
    note ip = internNames_props[OF inn1]
    from pairKey_prefix[OF prev[unfolded sv] ip(2)] ip(3)
    have "funcKey fi1 fli1 = pairKey ?S (ar_name r1, ar_file r1)" by simp
    also have "\<dots> = funcKey fi2 fli2" by (simp add: pairKey_def two)
    finally have "funcKey fi1 fli1 = funcKey fi2 fli2" .
    from funcKey_inj[OF this] have "fi2 = fi1" "fli2 = fli1" by simp_all
    moreover from two(1) str have "u2 \<lparr> c_stringTable := str2 \<rparr> = u2" by simp
    ultimately have f2: "funcForKey rix u2 fi1 fli1 = Inr (g2, w2)" using ffk2 by simp
    from stepC_grows[OF rest1] have grow: "prefix (c_funcKeyToFuncMap v1) (c_funcKeyToFuncMap stC)"
      "fn_length (c_funcTable v1) \<le> fn_length (c_funcTable stC)" by simp_all
    from grow(2) v1 have len: "fn_length (c_funcTable w1) \<le> fn_length ?T" by (simp add: t')
    from grow(1) v1 have "set (c_funcKeyToFuncMap w1) \<subseteq> set (c_funcKeyToFuncMap stC)"
      by (auto dest: set_mono_prefix)
    then have rows1: "\<forall>(k, g) \<in> set (c_funcKeyToFuncMap w1). g < fn_length ?T \<and>
        k = funcKey (fn_name ?T ! g) (fn_fileName ?T ! g)"
    proof (intro ballI, clarify)
      fix k g assume sub: "set (c_funcKeyToFuncMap w1) \<subseteq> set (c_funcKeyToFuncMap stC)"
        and "(k, g) \<in> set (c_funcKeyToFuncMap w1)"
      then have kg: "(k, g) \<in> set (c_funcKeyToFuncMap stC)" by blast
      then have "g \<in> snd ` set (c_funcKeyToFuncMap stC)" by force
      with lts have "g < fn_length ?T" by blast
      moreover from rows kg have "k = funcKey (fn_name ?T ! g) (fn_fileName ?T ! g)" by blast
      ultimately show "g < fn_length ?T \<and> k = funcKey (fn_name ?T ! g) (fn_fileName ?T ! g)" by simp
    qed
    from settledC_funcForKey[OF rel ffk1 f2 len rows1 fu(4)]
    show "settledC (funcTable thread) rix thread' v1 v2" by (simp add: v1 v2)
  qed
  then show ?thesis by (simp add: settledC_def)
qed

text \<open>
  C5. Take a thread whose tables are well formed, apply the step to the slice of a library
  as the collector gives it for the thread, and apply the step again, with the same
  results, to the slice of the same library as the collector gives it for the thread that
  the first application returned. When both applications return, the second one creates no
  func row and no native symbol row: \<open>funcTable.length\<close> and \<open>nativeSymbols.length\<close>
  are those of its input, and so are the two tables.
\<close>

theorem idempotent_reapplication:
  assumes wf: "wellFormed thread"
    and run1: "applySymbolicationStep thread (collectInfo thread rix lix) R m0 = Inr (thread', m')"
    and run2: "applySymbolicationStep thread' (collectInfo thread' rix lix) R m1 = Inr (thread'', m'')"
  shows "fn_length (funcTable thread'') = fn_length (funcTable thread') \<and>
     ns_length (nativeSymbols thread'') = ns_length (nativeSymbols thread') \<and>
     funcTable thread'' = funcTable thread' \<and>
     nativeSymbols thread'' = nativeSymbols thread'"
proof -
  from run1 obtain stA stB column stC where
    r1: "step_run thread rix lix R stA stB column stC thread'" by (rule step_runI)
  from run2 obtain stA2 stB2 column2 stC2 where
    r2: "step_run thread' rix lix R stA2 stB2 column2 stC2 thread''" by (rule step_runI)
  from r2 have t'': "funcTable thread'' = c_funcTable stC2" "nativeSymbols thread'' = b_nativeSymbols stB2"
    by (simp_all add: step_run_def)
  from second_stepC[OF r1 wf r2] second_stepB[OF r1 wf r2] show ?thesis
    by (simp add: t'')
qed

theorem idempotent_reapplication_witness:
  "wellFormed scenario_thread \<and>
   collectInfo scenario_thread 0 0 = scenario_info \<and>
   applySymbolicationStep scenario_thread scenario_info scenario_results [] =
     Inr (scenario_thread', [(0, 0), (1, 0)]) \<and>
   applySymbolicationStep scenario_thread' (collectInfo scenario_thread' 0 0) scenario_results [] =
     Inr (scenario_thread', [(0, 0)]) \<and>
   fn_length (funcTable scenario_thread') = 2 \<and> ns_length (nativeSymbols scenario_thread') = 1"
proof -
  have wf: "wellFormed scenario_thread"
    by (simp add: wellFormed_def funcTable_wf_def nativeSymbols_wf_def scenario_thread_def)
  have info: "collectInfo scenario_thread 0 0 = scenario_info" by code_simp
  have run1: "applySymbolicationStep scenario_thread (collectInfo scenario_thread 0 0) scenario_results [] =
     Inr (scenario_thread', [(0, 0), (1, 0)])" by code_simp
  have run2: "applySymbolicationStep scenario_thread' (collectInfo scenario_thread' 0 0) scenario_results [] =
     Inr (scenario_thread', [(0, 0)])" by code_simp
  have lens: "fn_length (funcTable scenario_thread') = 2" "ns_length (nativeSymbols scenario_thread') = 1"
    by code_simp+
  from idempotent_reapplication[OF wf run1 run2] lens
  have "fn_length (funcTable scenario_thread') = 2 \<and> ns_length (nativeSymbols scenario_thread') = 1"
    by simp
  with wf info run1 run2 show ?thesis by simp
qed

text \<open>
  The index lists of the slice have to be those of the thread that the step is applied to.
  With the lists collected from the first input, which name no native symbol, the second
  application on the scenario finds no symbol to reuse and adds a row.
\<close>

lemma stale_slice:
  "applySymbolicationStep scenario_thread scenario_info scenario_results [] =
     Inr (scenario_thread', [(0, 0), (1, 0)]) \<and>
   ns_length (nativeSymbols scenario_thread') = 1 \<and>
   (case applySymbolicationStep scenario_thread' scenario_info scenario_results [] of
      Inr (thread'', m) \<Rightarrow> ns_length (nativeSymbols thread'') | Inl e \<Rightarrow> 0) = 2"
  by code_simp


end
